(* ===== verification/Prelude.thy ===== *)
theory Prelude
  imports Main "HOL-Library.Word"
begin

text \<open>
  Shared material of the CRAFT development: the machine types, the fixed-width
  little-endian integers of the wire, the ordered map that stands for \<open>std::map\<close>, and
  the generic lemmas on lists that the component theories use.

  Conventions. A \<open>uint64_t\<close> byte offset or length is a \<open>nat\<close>, and every addition the
  source performs on one is wrapped by \<open>u64\<close>. A dLSN (\<open>int64_t\<close>, \<open>-1\<close> meaning none)
  is an \<open>int\<close>. Values that cross the wire are machine words.
\<close>

section \<open>Machine types\<close>

type_synonym byte = "8 word"

definition u64 :: "nat \<Rightarrow> nat" where
  "u64 x = x mod 2 ^ 64"

definition sub64 :: "nat \<Rightarrow> nat \<Rightarrow> nat" where
  "sub64 x y = u64 (x + (2 ^ 64 - u64 y))"

definition u32 :: "nat \<Rightarrow> nat" where
  "u32 x = x mod 2 ^ 32"

section \<open>Little-endian integers\<close>

fun le_put :: "nat \<Rightarrow> nat \<Rightarrow> byte list" where
  "le_put 0 x = []"
| "le_put (Suc n) x = word_of_nat (x mod 256) # le_put n (x div 256)"

fun le_get :: "byte list \<Rightarrow> nat" where
  "le_get [] = 0"
| "le_get (b # bs) = unat b + 256 * le_get bs"

section \<open>Ordered maps\<close>

text \<open>
  A \<open>std::map\<close> is its in-order sequence of entries. Lookup is \<^const>\<open>map_of\<close>;
  \<open>om_put\<close> is \<open>m[k] = v\<close>; \<open>om_del\<close> is \<open>m.erase(k)\<close>; \<open>om_upto k\<close> and \<open>om_above k\<close> are
  the two halves \<open>[begin, upper_bound(k))\<close> and \<open>[upper_bound(k), end)\<close>.
\<close>

type_synonym ('k, 'v) omap = "('k \<times> 'v) list"

definition om_ok :: "('k::linorder, 'v) omap \<Rightarrow> bool" where
  "om_ok m \<longleftrightarrow> sorted_wrt (<) (map fst m)"

fun om_put :: "'k::linorder \<Rightarrow> 'v \<Rightarrow> ('k, 'v) omap \<Rightarrow> ('k, 'v) omap" where
  "om_put k v [] = [(k, v)]"
| "om_put k v (e # m) =
     (if fst e < k then e # om_put k v m
      else if k < fst e then (k, v) # e # m
      else (k, v) # m)"

definition om_del :: "'k \<Rightarrow> ('k, 'v) omap \<Rightarrow> ('k, 'v) omap" where
  "om_del k m = filter (\<lambda>e. fst e \<noteq> k) m"

definition om_upto :: "'k::linorder \<Rightarrow> ('k, 'v) omap \<Rightarrow> ('k, 'v) omap" where
  "om_upto k m = filter (\<lambda>e. fst e \<le> k) m"

definition om_above :: "'k::linorder \<Rightarrow> ('k, 'v) omap \<Rightarrow> ('k, 'v) omap" where
  "om_above k m = filter (\<lambda>e. k < fst e) m"

section \<open>Binary search\<close>

text \<open>\<open>std::lower_bound\<close> and \<open>std::binary_search\<close>, on a list that need not be sorted.\<close>

function lower_bound_from :: "'a::linorder list \<Rightarrow> 'a \<Rightarrow> nat \<Rightarrow> nat \<Rightarrow> nat" where
  "lower_bound_from xs v first len =
     (if len = 0 then first
      else let half = len div 2; mid = first + half in
        if xs ! mid < v then lower_bound_from xs v (mid + 1) (len - half - 1)
        else lower_bound_from xs v first half)"
  by pat_completeness auto
termination by (relation "measure (\<lambda>(xs, v, first, len). len)") auto

declare lower_bound_from.simps [simp del]

definition binary_search :: "'a::linorder list \<Rightarrow> 'a \<Rightarrow> bool" where
  "binary_search xs v =
     (let i = lower_bound_from xs v 0 (length xs) in i \<noteq> length xs \<and> \<not> v < xs ! i)"

section \<open>Lemmas on machine integers\<close>

lemma u64_id [simp]: "x < 18446744073709551616 \<Longrightarrow> u64 x = x"
  by (simp add: u64_def)

lemma u64_bound [simp]: "u64 x < 18446744073709551616"
  by (simp add: u64_def)

lemma sub64_id [simp]: "y \<le> x \<Longrightarrow> x < 18446744073709551616 \<Longrightarrow> sub64 x y = x - y"
proof -
  assume "y \<le> x" "x < 18446744073709551616"
  then have e: "u64 y = y" "x + (2 ^ 64 - y) = (x - y) + 2 ^ 64" and "x - y < 2 ^ 64" by simp_all
  then show ?thesis unfolding sub64_def e by (simp add: u64_def)
qed

lemma u32_id [simp]: "x < 4294967296 \<Longrightarrow> u32 x = x"
  by (simp add: u32_def)

lemma u32_le: "u32 x \<le> x"
  by (simp add: u32_def)

lemma length_le_put [simp]: "length (le_put n x) = n"
  by (induction n arbitrary: x) simp_all

lemma unat_byte_mod [simp]: "unat (word_of_nat (x mod 256) :: byte) = x mod 256"
  by (simp add: unat_of_nat)

lemma le_get_put: "le_get (le_put n x) = x mod 256 ^ n"
proof (induction n arbitrary: x)
  case 0
  show ?case by simp
next
  case (Suc n)
  have "x mod 256 ^ Suc n = x mod 256 + 256 * (x div 256 mod 256 ^ n)"
    by (simp add: mod_mult2_eq)
  then show ?case by (simp add: Suc.IH)
qed

lemma le_get_bound: "le_get bs < 256 ^ length bs"
proof (induction bs)
  case Nil
  show ?case by simp
next
  case (Cons b bs)
  have "unat b < 2 ^ LENGTH(8)" by (rule unsigned_less)
  with Cons.IH show ?case by simp
qed

lemma word_le_roundtrip:
  fixes w :: "'a::len word"
  assumes "LENGTH('a) = 8 * n"
  shows "word_of_nat (le_get (le_put n (unat w))) = w"
proof -
  have "(256::nat) ^ n = 2 ^ LENGTH('a)"
    by (simp add: assms power_mult)
  then have "unat w mod 256 ^ n = unat w"
    using unsigned_less [of w, where 'a = nat] by simp
  then show ?thesis by (simp add: le_get_put)
qed

lemmas word_le_roundtrips [simp] =
  word_le_roundtrip [where 'a = 16 and n = 2, simplified]
  word_le_roundtrip [where 'a = 32 and n = 4, simplified]
  word_le_roundtrip [where 'a = 64 and n = 8, simplified]

section \<open>Lemmas on ordered maps\<close>

lemma om_ok_Nil [simp]: "om_ok []"
  by (simp add: om_ok_def)

lemma map_of_om_put [simp]: "map_of (om_put k v m) = (map_of m)(k \<mapsto> v)"
  by (induction m) (auto simp: fun_eq_iff)

lemma keys_om_put [simp]: "fst ` set (om_put k v m) = insert k (fst ` set m)"
  by (metis dom_map_of_conv_image_fst dom_fun_upd map_of_om_put option.distinct(1))

lemma om_ok_put [simp]: "om_ok m \<Longrightarrow> om_ok (om_put k v m)"
proof (induction m)
  case Nil
  show ?case by (simp add: om_ok_def)
next
  case (Cons e m)
  from Cons.prems have ok: "om_ok m" and lt: "\<forall>x \<in> fst ` set m. fst e < x"
    by (auto simp: om_ok_def)
  from Cons.IH [OF ok] lt show ?case
    using keys_om_put [of k v m] Cons.prems by (auto simp: om_ok_def)
qed

lemma om_ok_filter [simp]: "om_ok m \<Longrightarrow> om_ok (filter P m)"
  by (induction m) (auto simp: om_ok_def)

lemma map_of_filter_key:
  "map_of (filter (\<lambda>e. P (fst e)) m) k = (if P k then map_of m k else None)"
  by (induction m) auto

lemma map_of_om_del [simp]: "map_of (om_del k m) = (map_of m)(k := None)"
  by (simp add: om_del_def fun_eq_iff map_of_filter_key [where P = "\<lambda>x. x \<noteq> k"])

lemma map_of_om_upto: "map_of (om_upto b m) k = (if k \<le> b then map_of m k else None)"
  by (simp add: om_upto_def map_of_filter_key [where P = "\<lambda>x. x \<le> b"])

lemma map_of_om_above: "map_of (om_above b m) k = (if b < k then map_of m k else None)"
  by (simp add: om_above_def map_of_filter_key [where P = "\<lambda>x. b < x"])

lemma om_ok_del [simp]: "om_ok m \<Longrightarrow> om_ok (om_del k m)"
  by (simp add: om_del_def)

lemma om_ok_upto [simp]: "om_ok m \<Longrightarrow> om_ok (om_upto k m)"
  by (simp add: om_upto_def)

lemma om_ok_above [simp]: "om_ok m \<Longrightarrow> om_ok (om_above k m)"
  by (simp add: om_above_def)

lemma om_ok_distinct: "om_ok m \<Longrightarrow> distinct (map fst m)"
  by (simp add: om_ok_def strict_sorted_iff)

lemma om_ok_mem: "om_ok m \<Longrightarrow> (k, v) \<in> set m \<longleftrightarrow> map_of m k = Some v"
  using om_ok_distinct by (metis map_of_eq_Some_iff)

lemma om_ok_append:
  "om_ok (xs @ ys) \<longleftrightarrow> om_ok xs \<and> om_ok ys \<and> (\<forall>a \<in> fst ` set xs. \<forall>b \<in> fst ` set ys. a < b)"
  by (auto simp: om_ok_def sorted_wrt_append)

lemma om_upto_above: "om_ok m \<Longrightarrow> om_upto k m @ om_above k m = m"
proof (induction m)
  case Nil
  show ?case by (simp add: om_upto_def om_above_def)
next
  case (Cons e m)
  from Cons.prems have ok: "om_ok m" and lt: "\<forall>x \<in> set m. fst e < fst x"
    by (auto simp: om_ok_def)
  show ?case
  proof (cases "fst e \<le> k")
    case True
    with Cons.IH [OF ok] show ?thesis by (simp add: om_upto_def om_above_def)
  next
    case False
    with lt have "om_upto k m = []" and "om_above k m = m"
      by (auto simp: om_upto_def om_above_def filter_empty_conv filter_id_conv)
    with False show ?thesis by (simp add: om_upto_def om_above_def)
  qed
qed

lemma takeWhile_upto: "om_ok m \<Longrightarrow> takeWhile (\<lambda>e. fst e \<le> k) m = om_upto k m"
proof (induction m)
  case Nil
  show ?case by (simp add: om_upto_def)
next
  case (Cons e m)
  then have ok: "om_ok m" and lt: "\<forall>x \<in> set m. fst e < fst x" by (auto simp: om_ok_def)
  show ?case
  proof (cases "fst e \<le> k")
    case True
    with Cons.IH [OF ok] show ?thesis by (simp add: om_upto_def)
  next
    case False
    then have "om_upto k m = []" using lt by (fastforce simp: om_upto_def filter_empty_conv)
    with False show ?thesis by (simp add: om_upto_def)
  qed
qed

section \<open>Lemmas on lists\<close>

lemma take_drop_append:
  "length xs = n \<Longrightarrow> take n (xs @ ys) = xs" "length xs = n \<Longrightarrow> drop n (xs @ ys) = ys"
  by simp_all

lemma find_append: "find P (xs @ ys) = (case find P xs of None \<Rightarrow> find P ys | Some x \<Rightarrow> Some x)"
  by (induction xs) auto

lemma find_SomeD: "find P xs = Some x \<Longrightarrow> x \<in> set xs \<and> P x"
  by (induction xs) (auto split: if_splits)

lemma lower_bound_from_spec:
  assumes "sorted xs" "first + len \<le> length xs"
    and "\<forall>j < first. xs ! j < v" "\<forall>j. first + len \<le> j \<and> j < length xs \<longrightarrow> v \<le> xs ! j"
  shows "lower_bound_from xs v first len \<le> length xs \<and>
    (\<forall>j < lower_bound_from xs v first len. xs ! j < v) \<and>
    (\<forall>j. lower_bound_from xs v first len \<le> j \<and> j < length xs \<longrightarrow> v \<le> xs ! j)"
  using assms
proof (induction xs v first len rule: lower_bound_from.induct)
  case (1 xs v first len)
  let ?half = "len div 2"
  let ?mid = "first + ?half"
  show ?case
  proof (cases "len = 0")
    case True
    then have "lower_bound_from xs v first len = first" by (subst lower_bound_from.simps) simp
    with True 1(4-6) show ?thesis by simp
  next
    case False
    then have half: "?half < len" "?mid < length xs" using 1(4) by linarith+
    show ?thesis
    proof (cases "xs ! ?mid < v")
      case True
      have lt: "\<forall>j < ?mid + 1. xs ! j < v"
      proof (intro allI impI)
        fix j assume "j < ?mid + 1"
        then have "xs ! j \<le> xs ! ?mid" using sorted_nth_mono [OF 1(3)] half(2) by simp
        with True show "xs ! j < v" by simp
      qed
      have e: "?mid + 1 + (len - ?half - 1) = first + len" using half(1) by simp
      have go: "lower_bound_from xs v (?mid + 1) (len - ?half - 1) \<le> length xs \<and>
          (\<forall>j < lower_bound_from xs v (?mid + 1) (len - ?half - 1). xs ! j < v) \<and>
          (\<forall>j. lower_bound_from xs v (?mid + 1) (len - ?half - 1) \<le> j \<and> j < length xs \<longrightarrow> v \<le> xs ! j)"
        by (rule 1(1) [OF False refl refl True 1(3) _ lt]) (use 1(4,6) e in simp_all)
      have eq: "lower_bound_from xs v first len = lower_bound_from xs v (?mid + 1) (len - ?half - 1)"
        using False True by (subst lower_bound_from.simps) (simp add: Let_def)
      show ?thesis unfolding eq by (rule go)
    next
      case less: False
      have "\<forall>j. first + ?half \<le> j \<and> j < length xs \<longrightarrow> v \<le> xs ! j"
      proof (intro allI impI)
        fix j assume "first + ?half \<le> j \<and> j < length xs"
        then have "xs ! ?mid \<le> xs ! j" using sorted_nth_mono [OF 1(3)] by simp
        with less show "v \<le> xs ! j" by simp
      qed
      then have go: "lower_bound_from xs v first ?half \<le> length xs \<and>
          (\<forall>j < lower_bound_from xs v first ?half. xs ! j < v) \<and>
          (\<forall>j. lower_bound_from xs v first ?half \<le> j \<and> j < length xs \<longrightarrow> v \<le> xs ! j)"
        by (intro 1(2) [OF False refl refl less 1(3) _ 1(5)]) (use half in simp_all)
      have eq: "lower_bound_from xs v first len = lower_bound_from xs v first ?half"
        using False less by (subst lower_bound_from.simps) (simp add: Let_def)
      show ?thesis unfolding eq by (rule go)
    qed
  qed
qed

lemma binary_search_sorted:
  assumes "sorted xs"
  shows "binary_search xs v \<longleftrightarrow> v \<in> set xs"
proof -
  define i where "i = lower_bound_from xs v 0 (length xs)"
  have e: "\<forall>j. 0 + length xs \<le> j \<and> j < length xs \<longrightarrow> v \<le> xs ! j" by auto
  have i: "i \<le> length xs" "\<forall>j < i. xs ! j < v" "\<forall>j. i \<le> j \<and> j < length xs \<longrightarrow> v \<le> xs ! j"
    using lower_bound_from_spec [OF assms _ _ e] unfolding i_def by simp_all
  have "binary_search xs v \<longleftrightarrow> i < length xs \<and> xs ! i = v"
    using i by (auto simp: binary_search_def Let_def i_def [symmetric])
  also have "\<dots> \<longleftrightarrow> v \<in> set xs"
  proof
    assume "v \<in> set xs"
    then obtain j where j: "j < length xs" "xs ! j = v" by (auto simp: in_set_conv_nth)
    then have "i \<le> j" using i(2) by (meson leI less_irrefl)
    moreover have "xs ! i \<le> xs ! j" using sorted_nth_mono [OF assms \<open>i \<le> j\<close>] j by simp
    moreover have "v \<le> xs ! i" using i(3) \<open>i \<le> j\<close> j by simp
    ultimately show "i < length xs \<and> xs ! i = v" using j by auto
  qed auto
  finally show ?thesis .
qed

end
