(* ===== verification/SlotStream.thy ===== *)
theory SlotStream
  imports Prelude
begin

text \<open>
  \<open>sisl::StreamTracker\<close>, the window of slots both client-side structures are built on. Its
  code belongs to another library, so the model takes its operations as an argument
  (\<open>stream_ops\<close>) and states what its documentation promises as \<open>stream_laws\<close>.

  The promise is phrased on a view of the tracker: the first index of its window, the slot
  at an index (when one was created there), and the completion bit of an index. A callback
  passed to \<open>update\<close> may write captured variables, so it threads a value of type \<open>'a\<close>. A
  callback passed to \<open>foreach_all_active\<close> only reads, so that operation is the list of the
  active slots it would visit; stopping early is done by its callers.

  \<open>ref_stream\<close> is a tracker that satisfies the laws.
\<close>

section \<open>Operations and their contract\<close>

record ('t, 's, 'a) stream_ops =
  st_emplace :: "int \<Rightarrow> 't"
  st_create :: "int \<Rightarrow> 's \<Rightarrow> 't \<Rightarrow> 't"
  st_update :: "int \<Rightarrow> ('s \<Rightarrow> 'a \<Rightarrow> 's \<times> bool \<times> 'a) \<Rightarrow> 't \<Rightarrow> 'a \<Rightarrow> 't \<times> 'a"
  st_completed_upto :: "'t \<Rightarrow> int \<Rightarrow> int"
  st_active_from :: "'t \<Rightarrow> int \<Rightarrow> (int \<times> 's) list"
  st_truncate :: "int \<Rightarrow> 't \<Rightarrow> 't"

record ('t, 's) stream_view =
  vw_base :: "'t \<Rightarrow> int"
  vw_slot :: "'t \<Rightarrow> int \<Rightarrow> 's option"
  vw_done :: "'t \<Rightarrow> int \<Rightarrow> bool"

definition stream_laws :: "('t, 's, 'a) stream_ops \<Rightarrow> ('t, 's) stream_view \<Rightarrow> bool" where
  "stream_laws st vw \<longleftrightarrow>
     (\<forall>L. vw_base vw (st_emplace st L) = L + 1 \<and>
        (\<forall>i. vw_slot vw (st_emplace st L) i = None \<and> \<not> vw_done vw (st_emplace st L) i)) \<and>
     (\<forall>k i s. vw_base vw k \<le> i \<and> vw_slot vw k i = None \<longrightarrow>
        vw_base vw (st_create st i s k) = vw_base vw k \<and>
        vw_slot vw (st_create st i s k) = (vw_slot vw k)(i \<mapsto> s) \<and>
        vw_done vw (st_create st i s k) = vw_done vw k) \<and>
     (\<forall>k i s f a. vw_base vw k \<le> i \<and> vw_slot vw k i = Some s \<longrightarrow>
        vw_base vw (fst (st_update st i f k a)) = vw_base vw k \<and>
        vw_slot vw (fst (st_update st i f k a)) = (vw_slot vw k)(i \<mapsto> fst (f s a)) \<and>
        vw_done vw (fst (st_update st i f k a)) = (vw_done vw k)(i := vw_done vw k i \<or> fst (snd (f s a))) \<and>
        snd (st_update st i f k a) = snd (snd (f s a))) \<and>
     (\<forall>k h. max h (vw_base vw k) - 1 \<le> st_completed_upto st k h \<and>
        (\<forall>i. max h (vw_base vw k) \<le> i \<and> i \<le> st_completed_upto st k h \<longrightarrow> vw_done vw k i) \<and>
        \<not> vw_done vw k (st_completed_upto st k h + 1)) \<and>
     (\<forall>k h. vw_base vw k \<le> h \<longrightarrow>
        sorted_wrt (<) (map fst (st_active_from st k h)) \<and>
        set (st_active_from st k h) = {(i, s). h \<le> i \<and> vw_slot vw k i = Some s}) \<and>
     (\<forall>k u. vw_base vw k \<le> vw_base vw (st_truncate st u k) \<and>
        vw_base vw (st_truncate st u k) \<le> max (vw_base vw k) (u + 1) \<and>
        (\<forall>i. vw_base vw (st_truncate st u k) \<le> i \<longrightarrow>
           vw_slot vw (st_truncate st u k) i = vw_slot vw k i \<and>
           vw_done vw (st_truncate st u k) i = vw_done vw k i))"

text \<open>The slot a scan started at \<open>u\<close> finds at \<open>u\<close> itself: only the first visited slot is looked at.\<close>

definition active_at :: "('t, 's, 'a) stream_ops \<Rightarrow> 't \<Rightarrow> int \<Rightarrow> 's option" where
  "active_at st k u =
     (case st_active_from st k u of [] \<Rightarrow> None | e # _ \<Rightarrow> if fst e = u then Some (snd e) else None)"

section \<open>Consequences of the contract\<close>

named_theorems stream_simps

lemma stream_lawsD:
  assumes "stream_laws st vw"
  shows
    "\<forall>L. vw_base vw (st_emplace st L) = L + 1 \<and>
        (\<forall>i. vw_slot vw (st_emplace st L) i = None \<and> \<not> vw_done vw (st_emplace st L) i)"
    "\<forall>k i s. vw_base vw k \<le> i \<and> vw_slot vw k i = None \<longrightarrow>
        vw_base vw (st_create st i s k) = vw_base vw k \<and>
        vw_slot vw (st_create st i s k) = (vw_slot vw k)(i \<mapsto> s) \<and>
        vw_done vw (st_create st i s k) = vw_done vw k"
    "\<forall>k i s f a. vw_base vw k \<le> i \<and> vw_slot vw k i = Some s \<longrightarrow>
        vw_base vw (fst (st_update st i f k a)) = vw_base vw k \<and>
        vw_slot vw (fst (st_update st i f k a)) = (vw_slot vw k)(i \<mapsto> fst (f s a)) \<and>
        vw_done vw (fst (st_update st i f k a)) = (vw_done vw k)(i := vw_done vw k i \<or> fst (snd (f s a))) \<and>
        snd (st_update st i f k a) = snd (snd (f s a))"
    "\<forall>k h. max h (vw_base vw k) - 1 \<le> st_completed_upto st k h \<and>
        (\<forall>i. max h (vw_base vw k) \<le> i \<and> i \<le> st_completed_upto st k h \<longrightarrow> vw_done vw k i) \<and>
        \<not> vw_done vw k (st_completed_upto st k h + 1)"
    "\<forall>k h. vw_base vw k \<le> h \<longrightarrow>
        sorted_wrt (<) (map fst (st_active_from st k h)) \<and>
        set (st_active_from st k h) = {(i, s). h \<le> i \<and> vw_slot vw k i = Some s}"
    "\<forall>k u. vw_base vw k \<le> vw_base vw (st_truncate st u k) \<and>
        vw_base vw (st_truncate st u k) \<le> max (vw_base vw k) (u + 1) \<and>
        (\<forall>i. vw_base vw (st_truncate st u k) \<le> i \<longrightarrow>
           vw_slot vw (st_truncate st u k) i = vw_slot vw k i \<and>
           vw_done vw (st_truncate st u k) i = vw_done vw k i)"
  using assms unfolding stream_laws_def by - ((elim conjE, assumption)+)

lemma stream_emplace [stream_simps]:
  assumes "stream_laws st vw"
  shows "vw_base vw (st_emplace st L) = L + 1" "vw_slot vw (st_emplace st L) i = None"
    "\<not> vw_done vw (st_emplace st L) i"
  using assms by (auto dest: stream_lawsD(1))

lemma stream_create [stream_simps]:
  assumes "stream_laws st vw" "vw_base vw k \<le> i" "vw_slot vw k i = None"
  shows "vw_base vw (st_create st i s k) = vw_base vw k"
    "vw_slot vw (st_create st i s k) = (vw_slot vw k)(i \<mapsto> s)"
    "vw_done vw (st_create st i s k) = vw_done vw k"
  using assms by (auto dest: stream_lawsD(2))

lemma stream_update [stream_simps]:
  assumes "stream_laws st vw" "vw_base vw k \<le> i" "vw_slot vw k i = Some s"
  shows "vw_base vw (fst (st_update st i f k a)) = vw_base vw k"
    "vw_slot vw (fst (st_update st i f k a)) = (vw_slot vw k)(i \<mapsto> fst (f s a))"
    "vw_done vw (fst (st_update st i f k a)) = (vw_done vw k)(i := vw_done vw k i \<or> fst (snd (f s a)))"
    "snd (st_update st i f k a) = snd (snd (f s a))"
  using assms by (auto dest: stream_lawsD(3))

lemma stream_completed_hint:
  assumes "stream_laws st vw"
  shows "max h (vw_base vw k) - 1 \<le> st_completed_upto st k h"
    "max h (vw_base vw k) \<le> i \<Longrightarrow> i \<le> st_completed_upto st k h \<Longrightarrow> vw_done vw k i"
    "\<not> vw_done vw k (st_completed_upto st k h + 1)"
  using stream_lawsD(4) [OF assms] by blast+

lemma stream_completed:
  assumes "stream_laws st vw" "vw_base vw k \<le> h"
  shows "h - 1 \<le> st_completed_upto st k h"
    "h \<le> i \<Longrightarrow> i \<le> st_completed_upto st k h \<Longrightarrow> vw_done vw k i"
    "\<not> vw_done vw k (st_completed_upto st k h + 1)"
  using stream_completed_hint [OF assms(1), where h = h and k = k] assms(2) by (simp_all add: max_def split: if_splits)

lemma completed_from_base:
  assumes "stream_laws st vw"
  shows "st_completed_upto st k h = st_completed_upto st k (max h (vw_base vw k))"
proof -
  define m where "m = max h (vw_base vw k)"
  have "max m (vw_base vw k) = m" by (simp add: m_def)
  note a = stream_completed_hint [OF assms, where h = h and k = k, folded m_def]
    and b = stream_completed_hint [OF assms, where h = m and k = k, unfolded this]
  let ?u = "st_completed_upto st k h" and ?v = "st_completed_upto st k m"
  have "\<not> ?u < ?v" using a(1,3) b(2) [of "?u + 1"] by linarith
  moreover have "\<not> ?v < ?u" using b(1,3) a(2) [of "?v + 1"] by linarith
  ultimately show ?thesis by (simp add: m_def)
qed

lemma stream_active:
  assumes "stream_laws st vw" "vw_base vw k \<le> h"
  shows "sorted_wrt (<) (map fst (st_active_from st k h))"
    "set (st_active_from st k h) = {(i, s). h \<le> i \<and> vw_slot vw k i = Some s}"
  using assms by (auto dest: stream_lawsD(5))

lemma stream_truncate:
  assumes "stream_laws st vw"
  shows "vw_base vw k \<le> vw_base vw (st_truncate st u k)"
    "vw_base vw (st_truncate st u k) \<le> max (vw_base vw k) (u + 1)"
    "vw_base vw (st_truncate st u k) \<le> i \<Longrightarrow> vw_slot vw (st_truncate st u k) i = vw_slot vw k i"
    "vw_base vw (st_truncate st u k) \<le> i \<Longrightarrow> vw_done vw (st_truncate st u k) i = vw_done vw k i"
  using assms by (auto dest: stream_lawsD(6))

lemma active_at_view:
  assumes "stream_laws st vw" "vw_base vw k \<le> u"
  shows "active_at st k u = vw_slot vw k u"
proof (cases "st_active_from st k u")
  case Nil
  then have "{(i, s). u \<le> i \<and> vw_slot vw k i = Some s} = {}" using stream_active(2) [OF assms] by simp
  then have "vw_slot vw k u = None" by (cases "vw_slot vw k u") blast+
  with Nil show ?thesis by (simp add: active_at_def)
next
  case (Cons e es)
  have "e \<in> {(i, s). u \<le> i \<and> vw_slot vw k i = Some s}"
    unfolding stream_active(2) [OF assms, symmetric] Cons by simp
  then have e: "u \<le> fst e" "vw_slot vw k (fst e) = Some (snd e)" by auto
  show ?thesis
  proof (cases "fst e = u")
    case True
    with e Cons show ?thesis by (simp add: active_at_def)
  next
    case False
    have "vw_slot vw k u \<noteq> Some s" for s
    proof
      assume "vw_slot vw k u = Some s"
      then have "(u, s) \<in> set (e # es)" unfolding Cons [symmetric] stream_active(2) [OF assms] by simp
      with False have "(u, s) \<in> set es" by auto
      then have "fst e < u" using stream_active(1) [OF assms] unfolding Cons by force
      with e(1) show False by simp
    qed
    then have "vw_slot vw k u = None" by (cases "vw_slot vw k u") auto
    with False Cons show ?thesis by (simp add: active_at_def)
  qed
qed

section \<open>A tracker that satisfies the contract\<close>

record 's ref_tracker =
  rt_base :: int
  rt_slots :: "(int \<times> 's \<times> bool) list"

definition rt_done :: "'s ref_tracker \<Rightarrow> int \<Rightarrow> bool" where
  "rt_done k i = (case map_of (rt_slots k) i of None \<Rightarrow> False | Some e \<Rightarrow> snd e)"

definition rt_slot :: "'s ref_tracker \<Rightarrow> int \<Rightarrow> 's option" where
  "rt_slot k i = map_option fst (map_of (rt_slots k) i)"

definition rt_keys :: "'s ref_tracker \<Rightarrow> int \<Rightarrow> int list" where
  "rt_keys k h = filter (\<lambda>i. h \<le> i) (sort (remdups (map fst (rt_slots k))))"

fun rt_run :: "(int \<Rightarrow> bool) \<Rightarrow> int list \<Rightarrow> int \<Rightarrow> int" where
  "rt_run P [] h = h - 1"
| "rt_run P (i # is) h = (if i = h \<and> P i then rt_run P is (h + 1) else h - 1)"

definition ref_stream :: "('s ref_tracker, 's, 'a) stream_ops" where
  "ref_stream =
     \<lparr>st_emplace = (\<lambda>L. \<lparr>rt_base = L + 1, rt_slots = []\<rparr>),
      st_create = (\<lambda>i s k. k\<lparr>rt_slots := (i, s, False) # rt_slots k\<rparr>),
      st_update = (\<lambda>i f k a. case map_of (rt_slots k) i of
          None \<Rightarrow> (k, a)
        | Some e \<Rightarrow> let r = f (fst e) a
                    in (k\<lparr>rt_slots := (i, fst r, snd e \<or> fst (snd r)) # rt_slots k\<rparr>, snd (snd r))),
      st_completed_upto = (\<lambda>k h. let m = max h (rt_base k) in rt_run (rt_done k) (rt_keys k m) m),
      st_active_from = (\<lambda>k h. map (\<lambda>i. (i, the (rt_slot k i))) (rt_keys k h)),
      st_truncate = (\<lambda>u k. \<lparr>rt_base = max (rt_base k) (u + 1), rt_slots = filter (\<lambda>e. u < fst e) (rt_slots k)\<rparr>)\<rparr>"

definition ref_view :: "('s ref_tracker, 's) stream_view" where
  "ref_view = \<lparr>vw_base = rt_base, vw_slot = rt_slot, vw_done = rt_done\<rparr>"

lemma rt_run_spec:
  assumes "sorted_wrt (<) is" "\<forall>i \<in> set is. h \<le> i" "\<forall>i. P i \<and> h \<le> i \<longrightarrow> i \<in> set is"
  shows "h - 1 \<le> rt_run P is h \<and> (\<forall>i. h \<le> i \<and> i \<le> rt_run P is h \<longrightarrow> P i) \<and> \<not> P (rt_run P is h + 1)"
  using assms
proof (induction P "is" h rule: rt_run.induct)
  case (2 P i js h)
  show ?case
  proof (cases "i = h \<and> P i")
    case True
    have js: "sorted_wrt (<) js" "\<forall>j \<in> set js. h < j" using 2(2) True by auto
    have lo: "\<forall>j \<in> set js. h + 1 \<le> j" using js(2) by (auto simp: zless_imp_add1_zle)
    have hi: "\<forall>j. P j \<and> h + 1 \<le> j \<longrightarrow> j \<in> set js"
    proof (intro allI impI)
      fix j
      assume "P j \<and> h + 1 \<le> j"
      then show "j \<in> set js" using 2(4) True by (cases "j = i") auto
    qed
    have *: "h \<le> rt_run P js (h + 1)" "\<forall>j. h + 1 \<le> j \<and> j \<le> rt_run P js (h + 1) \<longrightarrow> P j"
        "\<not> P (rt_run P js (h + 1) + 1)"
      using 2(1) [OF True js(1) lo hi] by simp_all
    have "P j" if "h \<le> j" "j \<le> rt_run P js (h + 1)" for j
      using that True *(2) by (cases "j = h") auto
    with *(1,3) True show ?thesis by simp
  next
    case False
    have "\<not> P h"
    proof
      assume "P h"
      with 2(4) False have "h \<in> set js" by auto
      with 2(2,3) show False by fastforce
    qed
    with False show ?thesis by auto
  qed
qed auto

lemma set_rt_keys: "set (rt_keys k h) = {i. h \<le> i \<and> rt_slot k i \<noteq> None}"
  by (auto simp: rt_keys_def rt_slot_def map_of_eq_None_iff)

lemma sorted_rt_keys: "sorted_wrt (<) (rt_keys k h)"
  by (simp add: rt_keys_def strict_sorted_iff sorted_filter [of "\<lambda>x. x", simplified])

lemma ref_ops [simp]:
  "vw_base ref_view = rt_base" "vw_slot ref_view = rt_slot" "vw_done ref_view = rt_done"
  "st_emplace ref_stream L = \<lparr>rt_base = L + 1, rt_slots = []\<rparr>"
  "st_create ref_stream i s k = k\<lparr>rt_slots := (i, s, False) # rt_slots k\<rparr>"
  "st_completed_upto ref_stream k h = rt_run (rt_done k) (rt_keys k (max h (rt_base k))) (max h (rt_base k))"
  "st_active_from ref_stream k h = map (\<lambda>i. (i, the (rt_slot k i))) (rt_keys k h)"
  "st_truncate ref_stream u k = \<lparr>rt_base = max (rt_base k) (u + 1), rt_slots = filter (\<lambda>e. u < fst e) (rt_slots k)\<rparr>"
  "st_update ref_stream i f k a = (case map_of (rt_slots k) i of
          None \<Rightarrow> (k, a)
        | Some e \<Rightarrow> let r = f (fst e) a
                    in (k\<lparr>rt_slots := (i, fst r, snd e \<or> fst (snd r)) # rt_slots k\<rparr>, snd (snd r)))"
  by (simp_all add: ref_stream_def ref_view_def Let_def)

lemma ref_completed:
  "h - 1 \<le> rt_run (rt_done k) (rt_keys k h) h \<and>
   (\<forall>i. h \<le> i \<and> i \<le> rt_run (rt_done k) (rt_keys k h) h \<longrightarrow> rt_done k i) \<and>
   \<not> rt_done k (rt_run (rt_done k) (rt_keys k h) h + 1)"
  by (rule rt_run_spec [OF sorted_rt_keys])
    (auto simp: set_rt_keys rt_done_def rt_slot_def split: option.splits)

lemma ref_updated:
  "rt_slot (k\<lparr>rt_slots := (i, s, c) # rt_slots k\<rparr>) = (rt_slot k)(i \<mapsto> s)"
  "rt_done (k\<lparr>rt_slots := (i, s, c) # rt_slots k\<rparr>) = (rt_done k)(i := c)"
  by (simp_all add: rt_slot_def rt_done_def fun_eq_iff)

lemma ref_truncated:
  "rt_slot \<lparr>rt_base = b, rt_slots = filter (\<lambda>e. u < fst e) (rt_slots k)\<rparr> i = (if u < i then rt_slot k i else None)"
  "rt_done \<lparr>rt_base = b, rt_slots = filter (\<lambda>e. u < fst e) (rt_slots k)\<rparr> i = (u < i \<and> rt_done k i)"
  by (simp_all add: rt_slot_def rt_done_def map_of_filter_key [where P = "\<lambda>i. u < i"])

lemma ref_found:
  assumes "rt_slot k i = Some s"
  shows "map_of (rt_slots k) i = Some (s, rt_done k i)"
  using assms by (auto simp: rt_slot_def rt_done_def)

lemma ref_absent: "rt_slot k i = None \<Longrightarrow> (rt_done k)(i := False) = rt_done k"
  by (simp add: rt_slot_def rt_done_def fun_eq_iff)

lemma ref_stream_laws: "stream_laws ref_stream ref_view"
  unfolding stream_laws_def ref_ops
proof (intro conjI allI impI)
  fix k :: "'s ref_tracker" and h
  show "sorted_wrt (<) (map fst (map (\<lambda>i. (i, the (rt_slot k i))) (rt_keys k h)))"
    using sorted_rt_keys [of k h] by (simp add: comp_def)
  show "set (map (\<lambda>i. (i, the (rt_slot k i))) (rt_keys k h)) = {(i, s). h \<le> i \<and> rt_slot k i = Some s}"
    by (auto simp: set_rt_keys)
  let ?m = "max h (rt_base k)"
  show "?m - 1 \<le> rt_run (rt_done k) (rt_keys k ?m) ?m" "\<not> rt_done k (rt_run (rt_done k) (rt_keys k ?m) ?m + 1)"
    using ref_completed [of ?m k] by blast+
  show "rt_done k i" if "?m \<le> i \<and> i \<le> rt_run (rt_done k) (rt_keys k ?m) ?m" for i
    using that ref_completed [of ?m k] by blast
next
  fix k :: "'s ref_tracker" and u i
  let ?k' = "\<lparr>rt_base = max (rt_base k) (u + 1), rt_slots = filter (\<lambda>e. u < fst e) (rt_slots k)\<rparr>"
  assume "rt_base ?k' \<le> i"
  then show "rt_slot ?k' i = rt_slot k i" "rt_done ?k' i = rt_done k i"
    by (simp_all add: ref_truncated)
next
  fix k :: "'s ref_tracker" and i s and f :: "'s \<Rightarrow> 'b \<Rightarrow> 's \<times> bool \<times> 'b" and a
  let ?u = "case map_of (rt_slots k) i of None \<Rightarrow> (k, a) | Some e \<Rightarrow>
      let r = f (fst e) a in (k\<lparr>rt_slots := (i, fst r, snd e \<or> fst (snd r)) # rt_slots k\<rparr>, snd (snd r))"
  assume "rt_base k \<le> i \<and> rt_slot k i = Some s"
  then have u: "?u = (k\<lparr>rt_slots := (i, fst (f s a), rt_done k i \<or> fst (snd (f s a))) # rt_slots k\<rparr>, snd (snd (f s a)))"
    by (simp add: ref_found Let_def)
  show "rt_base (fst ?u) = rt_base k" "snd ?u = snd (snd (f s a))"
    "rt_slot (fst ?u) = (rt_slot k)(i \<mapsto> fst (f s a))"
    "rt_done (fst ?u) = (rt_done k)(i := rt_done k i \<or> fst (snd (f s a)))"
    unfolding u by (simp_all add: ref_updated)
qed (simp_all add: ref_updated ref_absent, simp_all add: rt_slot_def rt_done_def)

end
