(* ===== verification/Types.thy ===== *)
theory Types
  imports Prelude
begin

text \<open>
  The CRAFT vocabulary (\<open>include/craft/types.hpp\<close>) and the bridge between the wire's
  status byte and the domain errors (\<open>include/craft/status.hpp\<close>).

  A \<open>result<T>\<close> is \<open>error_condition + 'a\<close> with \<open>Inl\<close> the error. A 16-byte uuid is a byte
  list, and so is a \<open>std::string\<close>. A scatter/gather list is its list of buffers. Buffers that the source shares
  between owners are never written after they are filled, so they are values here.
\<close>

section \<open>Domain types\<close>

type_synonym peer_id = "byte list"

record replica_endpoint =
  ep_id :: peer_id
  ep_addr :: "byte list"

record lsn_pair =
  lp_commit_lsn :: int
  lp_last_append_lsn :: int

record client_hdr =
  ch_term :: nat
  ch_commit_lsn :: int
  ch_all_committed_lsn :: int
  ch_client_token :: nat

record LoginResult =
  lr_members :: "replica_endpoint list"
  lr_dLSN :: int
  lr_term :: nat
  lr_lba_size :: nat
  lr_capacity :: nat
  lr_leader_hint :: peer_id
  lr_max_tx :: nat

record io_extent =
  ie_addr :: nat
  ie_len :: nat
  ie_hole :: bool

record read_result =
  rr_extents :: "io_extent list"
  rr_lsns :: lsn_pair

record resolution_result =
  rs_resolved_upto :: int
  rs_empty_slots :: "int list"

datatype craft_error =
    STALE_TERM | NOT_LEADER | NO_QUORUM | WRONG_TOKEN | NOT_ELIGIBLE | REPLICA_DOWN
  | INTERNAL | NOT_IMPLEMENTED

text \<open>
  A \<open>std::error_condition\<close> is a CRAFT error, one of the \<open>std::errc\<close> values the sources
  use, or a condition of another library's category (the RAFT library's append codes).
\<close>

datatype errc = invalid_argument | timed_out | not_connected

datatype error_condition = Craft craft_error | Errc errc | Foreign nat

type_synonym 'a result = "error_condition + 'a"

fun craft_error_value :: "craft_error \<Rightarrow> nat" where
  "craft_error_value STALE_TERM = 1"
| "craft_error_value NOT_LEADER = 2"
| "craft_error_value NO_QUORUM = 3"
| "craft_error_value WRONG_TOKEN = 4"
| "craft_error_value NOT_ELIGIBLE = 5"
| "craft_error_value REPLICA_DOWN = 6"
| "craft_error_value INTERNAL = 7"
| "craft_error_value NOT_IMPLEMENTED = 8"

section \<open>Scatter/gather lists\<close>

record sg_list =
  sg_size :: nat
  sg_iovs :: "byte list list"

definition take_payload :: "sg_list \<Rightarrow> byte list" where
  "take_payload s = concat (sg_iovs s)"

section \<open>The wire status byte\<close>

datatype wire_status =
    St_ok | St_stale_term | St_not_leader | St_no_quorum | St_wrong_token
  | St_not_eligible | St_replica_down | St_invalid_argument | St_internal

fun status_code :: "wire_status \<Rightarrow> byte" where
  "status_code St_ok = 0"
| "status_code St_stale_term = 1"
| "status_code St_not_leader = 2"
| "status_code St_no_quorum = 3"
| "status_code St_wrong_token = 4"
| "status_code St_not_eligible = 5"
| "status_code St_replica_down = 6"
| "status_code St_invalid_argument = 7"
| "status_code St_internal = 255"

fun to_wire_status :: "error_condition \<Rightarrow> wire_status" where
  "to_wire_status (Craft STALE_TERM) = St_stale_term"
| "to_wire_status (Craft NOT_LEADER) = St_not_leader"
| "to_wire_status (Craft NO_QUORUM) = St_no_quorum"
| "to_wire_status (Craft WRONG_TOKEN) = St_wrong_token"
| "to_wire_status (Craft NOT_ELIGIBLE) = St_not_eligible"
| "to_wire_status (Craft REPLICA_DOWN) = St_replica_down"
| "to_wire_status (Errc invalid_argument) = St_invalid_argument"
| "to_wire_status _ = St_internal"

text \<open>The argument is the raw byte: a \<open>static_cast\<close> admits values the enum does not name.\<close>

definition status_to_error :: "byte \<Rightarrow> error_condition" where
  "status_to_error s =
     (if s = status_code St_stale_term then Craft STALE_TERM
      else if s = status_code St_not_leader then Craft NOT_LEADER
      else if s = status_code St_no_quorum then Craft NO_QUORUM
      else if s = status_code St_wrong_token then Craft WRONG_TOKEN
      else if s = status_code St_not_eligible then Craft NOT_ELIGIBLE
      else if s = status_code St_replica_down then Craft REPLICA_DOWN
      else if s = status_code St_invalid_argument then Errc invalid_argument
      else Craft REPLICA_DOWN)"

text \<open>The errors that have a status byte of their own.\<close>

definition wire_error :: "error_condition \<Rightarrow> bool" where
  "wire_error e \<longleftrightarrow> e \<in> {Craft STALE_TERM, Craft NOT_LEADER, Craft NO_QUORUM, Craft WRONG_TOKEN,
     Craft NOT_ELIGIBLE, Craft REPLICA_DOWN, Errc invalid_argument}"

section \<open>The error bridge\<close>

lemma status_code_inj: "status_code a = status_code b \<longleftrightarrow> a = b"
  by (cases a; cases b) simp_all

lemma to_wire_status_not_ok [simp]: "to_wire_status e \<noteq> St_ok"
  by (cases e rule: to_wire_status.cases) simp_all

lemma status_to_error_wire:
  "status_to_error (status_code (to_wire_status e)) = (if wire_error e then e else Craft REPLICA_DOWN)"
  by (cases e rule: to_wire_status.cases) (simp_all add: status_to_error_def wire_error_def)

end
