(* ===== verification/DlsnTracker.thy ===== *)
theory DlsnTracker
  imports SlotStream Types
begin

text \<open>
  The client's dLSN state machine (\<open>src/dlsn_tracker.hpp\<close>, \<open>src/dlsn_tracker.cpp\<close>): issuing a
  dLSN, resolving it, advancing the commit frontier, the want watermark of the resolution
  round, retiring slots off a round's verdicts, statistics, and planning a read.

  Every atomic of the class is a field of the record. A compare-and-swap loop that takes a
  maximum or minimum is one update. \<open>reserve\<close> is split at the point where another thread can
  see it: the number is taken, then the slot is created. \<open>resolve\<close> is split into what it
  publishes and the signal that follows.
\<close>

section \<open>Slots, segments, plans\<close>

datatype slot_outcome = In_flight | Acked | Failed | Empty

fun is_resolved :: "slot_outcome \<Rightarrow> bool" where
  "is_resolved Acked = True"
| "is_resolved Empty = True"
| "is_resolved _ = False"

record dlsn_slot =
  ds_addr :: nat
  ds_len :: nat
  ds_outcome :: slot_outcome

record read_segment =
  sg_addr :: nat
  sg_len :: nat
  sg_H :: int

record tracker_stats =
  ts_frontier :: int
  ts_highest_acked :: int
  ts_issued :: int
  ts_unresolved_count :: nat
  ts_unresolved_sample :: "int list"
  ts_winner_scans :: nat

record plan_outcome =
  po_segs :: "read_segment list"
  po_failed :: bool

definition plan_stall :: "plan_outcome \<Rightarrow> bool" where
  "plan_stall p \<longleftrightarrow> po_segs p = [] \<and> \<not> po_failed p"

definition plan_degraded :: "plan_outcome \<Rightarrow> bool" where
  "plan_degraded p \<longleftrightarrow> po_segs p = [] \<and> po_failed p"

definition fenced :: "bool \<Rightarrow> plan_outcome" where
  "fenced any_failed = \<lparr>po_segs = [], po_failed = any_failed\<rparr>"

definition one_segment :: "nat \<Rightarrow> nat \<Rightarrow> int \<Rightarrow> plan_outcome" where
  "one_segment addr len H = \<lparr>po_segs = [\<lparr>sg_addr = addr, sg_len = len, sg_H = H\<rparr>], po_failed = False\<rparr>"

definition k_max_blocks :: nat where "k_max_blocks = 4096"
definition k_max_segments :: nat where "k_max_segments = 8"
definition k_trunc_batch :: int where "k_trunc_batch = 512"
definition k_scan_cap_floor :: int where "k_scan_cap_floor = 1024"
definition k_scan_cap_per_inflight :: int where "k_scan_cap_per_inflight = 8"

definition overlaps :: "nat \<Rightarrow> nat \<Rightarrow> nat \<Rightarrow> nat \<Rightarrow> bool" where
  "overlaps a_off a_len b_off b_len \<longleftrightarrow> a_off < u64 (b_off + b_len) \<and> b_off < u64 (a_off + a_len)"

section \<open>The resolution gate\<close>

text \<open>
  The gate holds a single-shot event and replaces it at every signal that has waiters, so the
  events are numbered by \<open>gt_cur\<close>: event \<open>e\<close> is complete when a later one is current.
\<close>

record resolution_gate =
  gt_cur :: nat
  gt_waiters :: nat

definition gate_arm :: "resolution_gate \<Rightarrow> nat" where
  "gate_arm g = gt_cur g"

definition gate_enter :: "resolution_gate \<Rightarrow> resolution_gate" where
  "gate_enter g = g\<lparr>gt_waiters := gt_waiters g + 1\<rparr>"

definition gate_leave :: "resolution_gate \<Rightarrow> resolution_gate" where
  "gate_leave g = g\<lparr>gt_waiters := gt_waiters g - 1\<rparr>"

definition gate_signal :: "resolution_gate \<Rightarrow> resolution_gate" where
  "gate_signal g = (if gt_waiters g = 0 then g else g\<lparr>gt_cur := gt_cur g + 1\<rparr>)"

definition event_complete :: "resolution_gate \<Rightarrow> nat \<Rightarrow> bool" where
  "event_complete g e \<longleftrightarrow> e < gt_cur g"

section \<open>The tracker\<close>

record 't dlsn_tracker =
  dt_next :: int
  dt_frontier :: int
  dt_highest_acked :: int
  dt_last_trunc :: int
  dt_winner_scans :: nat
  dt_want :: int
  dt_tracker :: "'t option"
  dt_gate :: resolution_gate
  dt_lba_size :: nat
  dt_scan_cap :: int

type_synonym 't tracker_ops = "('t, dlsn_slot, bool) stream_ops"

definition make_tracker :: "nat \<Rightarrow> 't dlsn_tracker" where
  "make_tracker max_inflight =
     \<lparr>dt_next = 0, dt_frontier = -1, dt_highest_acked = -1, dt_last_trunc = -1, dt_winner_scans = 0,
      dt_want = -1, dt_tracker = None, dt_gate = \<lparr>gt_cur = 0, gt_waiters = 0\<rparr>, dt_lba_size = 0,
      dt_scan_cap = max k_scan_cap_floor (k_scan_cap_per_inflight * int max_inflight)\<rparr>"

definition reset_at :: "'t tracker_ops \<Rightarrow> int \<Rightarrow> nat \<Rightarrow> 't dlsn_tracker \<Rightarrow> 't dlsn_tracker" where
  "reset_at st login_dlsn lba_size t =
     t\<lparr>dt_lba_size := lba_size, dt_next := login_dlsn + 1, dt_last_trunc := login_dlsn,
       dt_frontier := login_dlsn, dt_highest_acked := login_dlsn, dt_want := -1,
       dt_tracker := Some (st_emplace st login_dlsn)\<rparr>"

definition reserve_take :: "'t dlsn_tracker \<Rightarrow> int \<times> 't dlsn_tracker" where
  "reserve_take t = (dt_next t, t\<lparr>dt_next := dt_next t + 1\<rparr>)"

definition reserve_create ::
  "'t tracker_ops \<Rightarrow> int \<Rightarrow> nat \<Rightarrow> nat \<Rightarrow> 't dlsn_tracker \<Rightarrow> 't dlsn_tracker" where
  "reserve_create st d addr len t =
     t\<lparr>dt_tracker := map_option (st_create st d \<lparr>ds_addr = addr, ds_len = len, ds_outcome = In_flight\<rparr>) (dt_tracker t)\<rparr>"

definition reserve :: "'t tracker_ops \<Rightarrow> nat \<Rightarrow> nat \<Rightarrow> 't dlsn_tracker \<Rightarrow> int \<times> 't dlsn_tracker" where
  "reserve st addr len t = (let (d, t1) = reserve_take t in (d, reserve_create st d addr len t1))"

definition resolve_slot_cb :: "slot_outcome \<Rightarrow> dlsn_slot \<Rightarrow> bool \<Rightarrow> dlsn_slot \<times> bool \<times> bool" where
  "resolve_slot_cb oc s applied =
     (if is_resolved (ds_outcome s) then (s, True, applied)
      else (s\<lparr>ds_outcome := oc\<rparr>, is_resolved oc, True))"

definition advance_frontier :: "'t tracker_ops \<Rightarrow> 't \<Rightarrow> 't dlsn_tracker \<Rightarrow> 't dlsn_tracker" where
  "advance_frontier st k t =
     (let f = dt_frontier t;
          issued = dt_next t - 1;
          nf = min (st_completed_upto st k (f + 1)) issued
      in if nf \<le> f then t
         else let t1 = t\<lparr>dt_frontier := nf\<rparr> in
           if k_trunc_batch \<le> nf - dt_last_trunc t
           then t1\<lparr>dt_last_trunc := nf, dt_tracker := Some (st_truncate st nf k)\<rparr>
           else t1)"

definition resolve_publish :: "'t tracker_ops \<Rightarrow> int \<Rightarrow> slot_outcome \<Rightarrow> 't dlsn_tracker \<Rightarrow> 't dlsn_tracker" where
  "resolve_publish st dlsn oc t =
     (case dt_tracker t of
        None \<Rightarrow> t
      | Some k0 \<Rightarrow>
          let (k, applied) = st_update st dlsn (resolve_slot_cb oc) k0 False;
              t1 = t\<lparr>dt_tracker := Some k\<rparr>
          in if \<not> applied then t1
             else let t2 = (if oc = Acked then t1\<lparr>dt_highest_acked := max (dt_highest_acked t1) dlsn\<rparr> else t1)
                  in if is_resolved oc then advance_frontier st k t2 else t2)"

definition tracker_signal :: "'t dlsn_tracker \<Rightarrow> 't dlsn_tracker" where
  "tracker_signal t = t\<lparr>dt_gate := gate_signal (dt_gate t)\<rparr>"

definition resolve :: "'t tracker_ops \<Rightarrow> int \<Rightarrow> slot_outcome \<Rightarrow> 't dlsn_tracker \<Rightarrow> 't dlsn_tracker" where
  "resolve st dlsn oc t = tracker_signal (resolve_publish st dlsn oc t)"

definition note_resolution_want :: "int \<Rightarrow> 't dlsn_tracker \<Rightarrow> 't dlsn_tracker" where
  "note_resolution_want lim t = t\<lparr>dt_want := max (dt_want t) lim\<rparr>"

definition resolution_want :: "'t dlsn_tracker \<Rightarrow> int option" where
  "resolution_want t = (if dt_want t < 0 then None else Some (dt_want t))"

definition clear_resolution_want :: "int \<Rightarrow> 't dlsn_tracker \<Rightarrow> 't dlsn_tracker" where
  "clear_resolution_want resolved_upto t =
     (if 0 \<le> dt_want t \<and> dt_want t \<le> resolved_upto then t\<lparr>dt_want := -1\<rparr> else t)"

definition read_horizon :: "'t dlsn_tracker \<Rightarrow> int" where
  "read_horizon t = max (dt_frontier t) (dt_highest_acked t)"

section \<open>Walking the unresolved slots\<close>

text \<open>
  The loops below hop from gap to gap, and end only because \<open>completed_upto\<close> never goes
  backwards; \<open>None\<close> is a loop that does not end.
\<close>

partial_function (option) stats_loop ::
  "('t, 's, 'a) stream_ops \<Rightarrow> 't \<Rightarrow> int \<Rightarrow> nat \<Rightarrow> int \<Rightarrow> nat \<Rightarrow> int list \<Rightarrow> (nat \<times> int list) option" where
  "stats_loop st k issued sample_limit h cnt sample =
     (if issued < h then Some (cnt, sample)
      else let u = min (st_completed_upto st k h) issued + 1 in
        if issued < u then Some (cnt, sample)
        else stats_loop st k issued sample_limit (u + 1) (cnt + 1)
               (if length sample < sample_limit then sample @ [u] else sample))"

definition tracker_snapshot :: "'t tracker_ops \<Rightarrow> nat \<Rightarrow> 't dlsn_tracker \<Rightarrow> tracker_stats option" where
  "tracker_snapshot st sample_limit t =
     (let s = \<lparr>ts_frontier = dt_frontier t, ts_highest_acked = dt_highest_acked t, ts_issued = -1,
               ts_unresolved_count = 0, ts_unresolved_sample = [], ts_winner_scans = dt_winner_scans t\<rparr>
      in case dt_tracker t of
           None \<Rightarrow> Some s
         | Some k \<Rightarrow>
             map_option (\<lambda>(cnt, sample). s\<lparr>ts_issued := dt_next t - 1, ts_unresolved_count := cnt, ts_unresolved_sample := sample\<rparr>)
               (stats_loop st k (dt_next t - 1) sample_limit (dt_frontier t + 1) 0 []))"

partial_function (option) retire_loop ::
  "'t tracker_ops \<Rightarrow> int \<Rightarrow> int list \<Rightarrow> (int \<Rightarrow> 'r \<Rightarrow> 'r) \<Rightarrow> int \<Rightarrow> 't dlsn_tracker \<times> 'r \<Rightarrow> ('t dlsn_tracker \<times> 'r) option" where
  "retire_loop st hi empties on_filled h s =
     (if hi < h then Some s
      else case dt_tracker (fst s) of
        None \<Rightarrow> Some s
      | Some k \<Rightarrow>
          let u = min (st_completed_upto st k h) hi + 1 in
          if hi < u then Some s
          else retire_loop st hi empties on_filled (u + 1)
            (if active_at st k u = None then s
             else if binary_search empties u then (resolve st u Empty (fst s), snd s)
             else (resolve st u Acked (fst s), on_filled u (snd s))))"

definition retire_upto ::
  "'t tracker_ops \<Rightarrow> int \<Rightarrow> int list \<Rightarrow> (int \<Rightarrow> 'r \<Rightarrow> 'r) \<Rightarrow> 't dlsn_tracker \<Rightarrow> 'r \<Rightarrow> ('t dlsn_tracker \<times> 'r) option" where
  "retire_upto st lim empties on_filled t r =
     (if dt_tracker t = None then Some (t, r)
      else retire_loop st (min lim (dt_next t - 1)) empties on_filled (dt_frontier t + 1) (t, r))"

section \<open>Planning a read\<close>

record gap_scan =
  gs_umin :: int
  gs_any_failed :: bool
  gs_any_gap :: bool

definition note_gap :: "nat \<Rightarrow> nat \<Rightarrow> int \<Rightarrow> dlsn_slot option \<Rightarrow> gap_scan \<Rightarrow> gap_scan" where
  "note_gap addr len u sv g =
     (if (case sv of None \<Rightarrow> True | Some s \<Rightarrow> overlaps addr len (ds_addr s) (ds_len s))
      then \<lparr>gs_umin = (if gs_umin g < 0 then u else gs_umin g),
            gs_any_failed = (gs_any_failed g \<or> (case sv of None \<Rightarrow> False | Some s \<Rightarrow> ds_outcome s = Failed)),
            gs_any_gap = (gs_any_gap g \<or> sv = None)\<rparr>
      else g)"

function scan_gaps :: "'t tracker_ops \<Rightarrow> 't \<Rightarrow> nat \<Rightarrow> nat \<Rightarrow> int \<Rightarrow> int \<Rightarrow> gap_scan \<Rightarrow> gap_scan" where
  "scan_gaps st k addr len Ha h g =
     (if Ha < h then g
      else let u = st_completed_upto st k h + 1 in
        if Ha < u then g
        else if u < h then g
        else scan_gaps st k addr len Ha (u + 1) (note_gap addr len u (active_at st k u) g))"
  by pat_completeness auto
termination by (relation "measure (\<lambda>(st, k, addr, len, Ha, h, g). nat (Ha + 1 - h))") auto

declare scan_gaps.simps [simp del]

text \<open>The blocks \<open>b0..b1\<close> of the read that a slot touches, and what the slot does to each.\<close>

definition mark_block :: "bool \<Rightarrow> int \<Rightarrow> int \<Rightarrow> int" where
  "mark_block acked idx u = (if acked then -1 else if u < 0 then idx else u)"

definition mark_blocks :: "bool \<Rightarrow> int \<Rightarrow> nat \<Rightarrow> nat \<Rightarrow> int list \<Rightarrow> int list" where
  "mark_blocks acked idx b0 b1 ustar = fold (\<lambda>b us. us[b := mark_block acked idx (us ! b)]) [b0..<b1 + 1] ustar"

definition winner_step :: "nat \<Rightarrow> nat \<Rightarrow> nat \<Rightarrow> nat \<Rightarrow> int \<times> dlsn_slot \<Rightarrow> int list \<Rightarrow> int list" where
  "winner_step addr len lba nblk e ustar =
     (let s = snd e in
      if ds_outcome s = Empty then ustar
      else if \<not> overlaps addr len (ds_addr s) (ds_len s) then ustar
      else let lo = max addr (ds_addr s);
               hi = min (u64 (addr + len)) (u64 (ds_addr s + ds_len s));
               b0 = sub64 lo addr div lba;
               b1 = min (nblk - 1) (sub64 (sub64 hi 1) addr div lba)
           in mark_blocks (ds_outcome s = Acked) (fst e) b0 b1 ustar)"

definition horizon_of :: "int \<Rightarrow> int list \<Rightarrow> nat \<Rightarrow> int" where
  "horizon_of Ha ustar b = (if ustar ! b < 0 then Ha else ustar ! b - 1)"

fun segments :: "(nat \<Rightarrow> int) \<Rightarrow> nat \<Rightarrow> nat \<Rightarrow> nat \<Rightarrow> nat list \<Rightarrow> nat \<Rightarrow> int \<Rightarrow> read_segment list \<Rightarrow> read_segment list option" where
  "segments hor addr lba nblk [] seg_start cur segs = Some segs"
| "segments hor addr lba nblk (b # bs) seg_start cur segs =
     (if b < nblk \<and> hor b = cur then segments hor addr lba nblk bs seg_start cur segs
      else if length segs = k_max_segments then None
      else segments hor addr lba nblk bs b (if b < nblk then hor b else cur)
             (segs @ [\<lparr>sg_addr = u64 (addr + seg_start * lba), sg_len = (b - seg_start) * lba, sg_H = cur\<rparr>]))"

definition split_read ::
  "'t tracker_ops \<Rightarrow> 't \<Rightarrow> nat \<Rightarrow> nat \<Rightarrow> nat \<Rightarrow> int \<Rightarrow> int \<Rightarrow> bool \<Rightarrow> plan_outcome" where
  "split_read st k lba addr len Ha umin any_failed =
     (let nblk = (if lba \<noteq> 0 then len div lba else 0) in
      if nblk = 0 \<or> k_max_blocks < nblk then fenced any_failed
      else let slots = takeWhile (\<lambda>e. fst e \<le> Ha) (st_active_from st k umin);
               ustar = fold (winner_step addr len lba nblk) slots (replicate nblk (-1));
               hor = horizon_of Ha ustar
           in case segments hor addr lba nblk [1..<nblk + 1] 0 (hor 0) [] of
                None \<Rightarrow> fenced any_failed
              | Some segs \<Rightarrow> \<lparr>po_segs = segs, po_failed = False\<rparr>)"

definition compute :: "'t tracker_ops \<Rightarrow> nat \<Rightarrow> nat \<Rightarrow> 't dlsn_tracker \<Rightarrow> plan_outcome \<times> 't dlsn_tracker" where
  "compute st addr len t =
     (let F = dt_frontier t; Ha = dt_highest_acked t in
      if Ha \<le> F then (one_segment addr len (max F Ha), t)
      else case dt_tracker t of
        None \<Rightarrow> (fenced False, t)
      | Some k \<Rightarrow>
          let g = scan_gaps st k addr len Ha (F + 1) \<lparr>gs_umin = -1, gs_any_failed = False, gs_any_gap = False\<rparr> in
          if gs_umin g < 0 then (one_segment addr len Ha, t)
          else if gs_any_gap g \<or> dt_scan_cap t < Ha - gs_umin g then (fenced (gs_any_failed g), t)
          else (split_read st k (dt_lba_size t) addr len Ha (gs_umin g) (gs_any_failed g),
                t\<lparr>dt_winner_scans := dt_winner_scans t + 1\<rparr>))"

text \<open>
  \<open>plan_read\<close> as the program of one reader. A reader computes a plan; when it stalls it arms the
  gate, enters it, computes again, and either leaves with a plan or parks on the armed event.
\<close>

datatype reader =
    R_start
  | R_stalled
  | R_armed nat
  | R_entered nat
  | R_parked nat
  | R_done "read_segment list result"

definition plan_result :: "plan_outcome \<Rightarrow> read_segment list result" where
  "plan_result p = (if plan_degraded p then Inl (Craft NO_QUORUM) else Inr (po_segs p))"

definition set_gate :: "(resolution_gate \<Rightarrow> resolution_gate) \<Rightarrow> 't dlsn_tracker \<Rightarrow> 't dlsn_tracker" where
  "set_gate f t = t\<lparr>dt_gate := f (dt_gate t)\<rparr>"

fun plan_read_step :: "'t tracker_ops \<Rightarrow> nat \<Rightarrow> nat \<Rightarrow> reader \<times> 't dlsn_tracker \<Rightarrow> reader \<times> 't dlsn_tracker" where
  "plan_read_step st addr len (R_start, t) =
     (let (p, t1) = compute st addr len t in (if plan_stall p then R_stalled else R_done (plan_result p), t1))"
| "plan_read_step st addr len (R_stalled, t) = (R_armed (gate_arm (dt_gate t)), t)"
| "plan_read_step st addr len (R_armed ev, t) = (R_entered ev, set_gate gate_enter t)"
| "plan_read_step st addr len (R_entered ev, t) =
     (let (p, t1) = compute st addr len t in
      if plan_stall p then (R_parked ev, t1) else (R_done (plan_result p), set_gate gate_leave t1))"
| "plan_read_step st addr len (R_parked ev, t) =
     (if event_complete (dt_gate t) ev then (R_stalled, set_gate gate_leave t) else (R_parked ev, t))"
| "plan_read_step st addr len (R_done r, t) = (R_done r, t)"

section \<open>The invariant\<close>

text \<open>
  \<open>window_pre\<close> relates the slot window to the watermarks: the window starts at or below the
  frontier's successor, a completion bit is set exactly on the resolved slots, everything up to
  the frontier is resolved, and no acknowledged slot is above the highest acknowledged dLSN.
  \<open>tr_inv\<close> adds that the frontier is as high as it can be. \<open>L\<close> is the session's login dLSN.
\<close>

definition window_pre ::
  "('t, dlsn_slot) stream_view \<Rightarrow> int \<Rightarrow> 't \<Rightarrow> int \<Rightarrow> int \<Rightarrow> int \<Rightarrow> bool" where
  "window_pre vw L k F nx Ha \<longleftrightarrow>
     -1 \<le> L \<and> L \<le> F \<and> L \<le> Ha \<and> F < nx \<and> Ha < nx \<and> L < vw_base vw k \<and> vw_base vw k \<le> F + 1 \<and>
     (\<forall>i s. vw_base vw k \<le> i \<and> vw_slot vw k i = Some s \<longrightarrow>
        i < nx \<and> vw_done vw k i = is_resolved (ds_outcome s) \<and> (ds_outcome s = Acked \<longrightarrow> i \<le> Ha)) \<and>
     (\<forall>i. vw_base vw k \<le> i \<and> vw_slot vw k i = None \<longrightarrow> \<not> vw_done vw k i) \<and>
     (\<forall>i. vw_base vw k \<le> i \<and> i \<le> F \<longrightarrow> vw_done vw k i)"

definition tr_inv :: "('t, dlsn_slot) stream_view \<Rightarrow> int \<Rightarrow> 't dlsn_tracker \<Rightarrow> bool" where
  "tr_inv vw L t \<longleftrightarrow>
     (\<exists>k. dt_tracker t = Some k \<and> window_pre vw L k (dt_frontier t) (dt_next t) (dt_highest_acked t) \<and>
        \<not> vw_done vw k (dt_frontier t + 1))"

lemma window_preD:
  assumes "window_pre vw L k F nx Ha"
  shows "-1 \<le> L" "L \<le> F" "L \<le> Ha" "F < nx" "Ha < nx" "L < vw_base vw k" "vw_base vw k \<le> F + 1"
    "vw_base vw k \<le> i \<Longrightarrow> vw_slot vw k i = Some s \<Longrightarrow> i < nx"
    "vw_base vw k \<le> i \<Longrightarrow> vw_slot vw k i = Some s \<Longrightarrow> vw_done vw k i = is_resolved (ds_outcome s)"
    "vw_base vw k \<le> i \<Longrightarrow> vw_slot vw k i = Some s \<Longrightarrow> ds_outcome s = Acked \<Longrightarrow> i \<le> Ha"
    "vw_base vw k \<le> i \<Longrightarrow> vw_slot vw k i = None \<Longrightarrow> \<not> vw_done vw k i"
    "vw_base vw k \<le> i \<Longrightarrow> i \<le> F \<Longrightarrow> vw_done vw k i"
  using assms unfolding window_pre_def by blast+

lemma window_done_slot:
  assumes "window_pre vw L k F nx Ha" "vw_base vw k \<le> i" "vw_done vw k i"
  obtains s where "vw_slot vw k i = Some s" "is_resolved (ds_outcome s)" "i < nx"
  using window_preD(8,9,11) [OF assms(1,2)] assms(3) by (cases "vw_slot vw k i") auto

lemma tr_invE:
  assumes "tr_inv vw L t"
  obtains k where "dt_tracker t = Some k" "window_pre vw L k (dt_frontier t) (dt_next t) (dt_highest_acked t)"
    "\<not> vw_done vw k (dt_frontier t + 1)"
  using assms unfolding tr_inv_def by blast

lemma reset_at_inv:
  assumes "stream_laws st vw" "-1 \<le> L"
  shows "tr_inv vw L (reset_at st L lba t)"
  using assms by (simp add: tr_inv_def window_pre_def reset_at_def stream_emplace [OF assms(1)])

lemma window_pre_next:
  assumes "window_pre vw L k F nx Ha" "nx \<le> nx'"
  shows "window_pre vw L k F nx' Ha"
proof -
  note D = window_preD [OF assms(1)]
  have "i < nx'" if "vw_base vw k \<le> i" "vw_slot vw k i = Some s" for i s
    using D(8) [OF that] assms(2) by simp
  with D assms(2) show ?thesis unfolding window_pre_def by simp
qed

lemma reserve_take_inv:
  assumes "tr_inv vw L t"
  shows "tr_inv vw L (snd (reserve_take t))"
proof -
  obtain k where k: "dt_tracker t = Some k" "window_pre vw L k (dt_frontier t) (dt_next t) (dt_highest_acked t)"
    "\<not> vw_done vw k (dt_frontier t + 1)"
    using assms by (rule tr_invE)
  with window_pre_next [OF k(2), of "dt_next t + 1"] show ?thesis
    by (simp add: tr_inv_def reserve_take_def)
qed

lemma reserve_create_inv:
  assumes laws: "stream_laws st vw" and inv: "tr_inv vw L t"
    and "dt_tracker t = Some k" "vw_slot vw k d = None" "dt_frontier t < d" "d < dt_next t"
  shows "tr_inv vw L (reserve_create st d addr len t)"
proof -
  from inv assms(3) have pre: "window_pre vw L k (dt_frontier t) (dt_next t) (dt_highest_acked t)"
    and mx: "\<not> vw_done vw k (dt_frontier t + 1)" by (auto elim: tr_invE)
  note D = window_preD [OF pre]
  have b: "vw_base vw k \<le> d" using D(7) assms(5) by simp
  note c = stream_create [OF laws b assms(4), of "\<lparr>ds_addr = addr, ds_len = len, ds_outcome = In_flight\<rparr>"]
  have nd: "\<not> vw_done vw k d" by (rule D(11) [OF b assms(4)])
  show ?thesis
    unfolding tr_inv_def
  proof (intro exI conjI)
    show "dt_tracker (reserve_create st d addr len t)
        = Some (st_create st d \<lparr>ds_addr = addr, ds_len = len, ds_outcome = In_flight\<rparr> k)"
      by (simp add: reserve_create_def assms(3))
    show "window_pre vw L (st_create st d \<lparr>ds_addr = addr, ds_len = len, ds_outcome = In_flight\<rparr> k)
        (dt_frontier (reserve_create st d addr len t)) (dt_next (reserve_create st d addr len t))
        (dt_highest_acked (reserve_create st d addr len t))"
      using pre nd assms(5,6) unfolding window_pre_def c by (auto simp: reserve_create_def)
    show "\<not> vw_done vw (st_create st d \<lparr>ds_addr = addr, ds_len = len, ds_outcome = In_flight\<rparr> k)
        (dt_frontier (reserve_create st d addr len t) + 1)"
      using mx unfolding c by (simp add: reserve_create_def)
  qed
qed

lemma reserve_inv:
  assumes "stream_laws st vw" "tr_inv vw L t"
  shows "tr_inv vw L (snd (reserve st addr len t))"
proof -
  obtain k where k: "dt_tracker t = Some k" "window_pre vw L k (dt_frontier t) (dt_next t) (dt_highest_acked t)"
    using assms(2) by (rule tr_invE)
  note D = window_preD [OF k(2)]
  have "vw_slot vw k (dt_next t) = None" using D(8) [of "dt_next t"] D(4,7) by (cases "vw_slot vw k (dt_next t)") auto
  then have "tr_inv vw L (reserve_create st (dt_next t) addr len (snd (reserve_take t)))"
    by (intro reserve_create_inv [OF assms(1) reserve_take_inv [OF assms(2)]])
      (use k D(4) in \<open>simp_all add: reserve_take_def\<close>)
  then show ?thesis by (simp add: reserve_def reserve_take_def)
qed

text \<open>The frontier moves to the end of the resolved run, never backwards.\<close>

lemma advance_frontier_inv:
  assumes laws: "stream_laws st vw" and k: "dt_tracker t = Some k"
    and pre: "window_pre vw L k (dt_frontier t) (dt_next t) (dt_highest_acked t)"
  shows "tr_inv vw L (advance_frontier st k t)" "dt_frontier t \<le> dt_frontier (advance_frontier st k t)"
    "vw_base vw k \<le> i \<Longrightarrow> i \<le> dt_frontier (advance_frontier st k t) \<Longrightarrow> vw_done vw k i"
proof -
  note D = window_preD [OF pre]
  let ?F = "dt_frontier t" and ?cu = "st_completed_upto st k (dt_frontier t + 1)"
  note C = stream_completed [OF laws D(7)]
  have "?cu < dt_next t"
  proof (rule ccontr)
    assume "\<not> ?cu < dt_next t"
    then have "vw_done vw k (dt_next t)" using C(2) [of "dt_next t"] D(4) by simp
    moreover have "vw_base vw k \<le> dt_next t" using D(4,7) by simp
    ultimately show False using window_done_slot [OF pre, of "dt_next t"] by auto
  qed
  then have nf: "min ?cu (dt_next t - 1) = ?cu" by simp
  have run: "vw_done vw k i" if "vw_base vw k \<le> i" "i \<le> ?cu" for i
    using that C(2) [of i] D(12) [of i] by linarith
  have pre': "window_pre vw L k ?cu (dt_next t) (dt_highest_acked t)"
    using pre run C(1) \<open>?cu < dt_next t\<close> unfolding window_pre_def by auto
  show "tr_inv vw L (advance_frontier st k t)"
  proof (cases "?cu \<le> ?F")
    case True
    then have "?cu = ?F" using C(1) by simp
    then show ?thesis using True k pre C(3) by (simp add: tr_inv_def advance_frontier_def Let_def nf)
  next
    case False
    show ?thesis
    proof (cases "k_trunc_batch \<le> ?cu - dt_last_trunc t")
      case True
      let ?k' = "st_truncate st ?cu k"
      note T = stream_truncate [OF laws, where k = k and u = ?cu]
      have "window_pre vw L ?k' ?cu (dt_next t) (dt_highest_acked t)"
        using pre' T(1,2) unfolding window_pre_def by (auto simp: T(3,4))
      moreover have "\<not> vw_done vw ?k' (?cu + 1)" using T(2) T(4) [of "?cu + 1"] C(1,3) D(7) by simp
      ultimately show ?thesis using False True
        by (simp add: tr_inv_def advance_frontier_def Let_def nf)
    next
      case False
      then show ?thesis using \<open>\<not> ?cu \<le> ?F\<close> k pre' C(3) by (simp add: tr_inv_def advance_frontier_def Let_def nf)
    qed
  qed
  show "?F \<le> dt_frontier (advance_frontier st k t)"
    using C(1) by (auto simp: advance_frontier_def Let_def nf)
  show "vw_done vw k i" if "vw_base vw k \<le> i" "i \<le> dt_frontier (advance_frontier st k t)"
    using that run [OF that(1)] D(12) [OF that(1)] by (auto simp: advance_frontier_def Let_def nf split: if_splits)
qed

lemma advance_frontier_frame:
  assumes "stream_laws st vw" "dt_tracker t = Some k"
  obtains k' where "dt_tracker (advance_frontier st k t) = Some k'" "vw_base vw k \<le> vw_base vw k'"
    "\<And>i. vw_base vw k' \<le> i \<Longrightarrow> vw_slot vw k' i = vw_slot vw k i"
    "\<And>i. vw_base vw k' \<le> i \<Longrightarrow> vw_done vw k' i = vw_done vw k i"
proof (cases "dt_tracker (advance_frontier st k t) = Some k")
  case True
  then show ?thesis using that by blast
next
  case False
  then obtain u where u: "dt_tracker (advance_frontier st k t) = Some (st_truncate st u k)"
    using assms(2) by (auto simp: advance_frontier_def Let_def split: if_splits)
  show ?thesis by (rule that [OF u]) (rule stream_truncate [OF assms(1)], assumption?)+
qed

lemma advance_frontier_same [simp]:
  "dt_next (advance_frontier st k t) = dt_next t"
  "dt_highest_acked (advance_frontier st k t) = dt_highest_acked t"
  "dt_want (advance_frontier st k t) = dt_want t"
  "dt_gate (advance_frontier st k t) = dt_gate t"
  "dt_lba_size (advance_frontier st k t) = dt_lba_size t"
  "dt_scan_cap (advance_frontier st k t) = dt_scan_cap t"
  by (simp_all add: advance_frontier_def Let_def)

text \<open>What \<open>resolve\<close> does to a slot: a resolved one is left alone, otherwise the outcome is stored.\<close>

definition resolved_slot :: "slot_outcome \<Rightarrow> dlsn_slot \<Rightarrow> dlsn_slot" where
  "resolved_slot oc s = (if is_resolved (ds_outcome s) then s else s\<lparr>ds_outcome := oc\<rparr>)"

lemma resolve_publish_spec:
  assumes laws: "stream_laws st vw" and inv: "tr_inv vw L t" and k: "dt_tracker t = Some k"
    and d: "vw_base vw k \<le> d" "vw_slot vw k d = Some s"
  obtains k' where "dt_tracker (resolve_publish st d oc t) = Some k'" "vw_base vw k \<le> vw_base vw k'"
    "\<And>i. vw_base vw k' \<le> i \<Longrightarrow> vw_slot vw k' i = (if i = d then Some (resolved_slot oc s) else vw_slot vw k i)"
    "tr_inv vw L (resolve_publish st d oc t)"
    "dt_frontier t \<le> dt_frontier (resolve_publish st d oc t)"
    "dt_next (resolve_publish st d oc t) = dt_next t"
    "dt_highest_acked t \<le> dt_highest_acked (resolve_publish st d oc t)"
    "dt_highest_acked (resolve_publish st d oc t) \<le> max d (dt_highest_acked t)"
    "\<And>i. vw_base vw k \<le> i \<Longrightarrow> i \<le> dt_frontier (resolve_publish st d oc t) \<Longrightarrow> i = d \<or> vw_done vw k i"
proof -
  from inv k have pre: "window_pre vw L k (dt_frontier t) (dt_next t) (dt_highest_acked t)"
    and mx: "\<not> vw_done vw k (dt_frontier t + 1)" by (auto elim: tr_invE)
  note D = window_preD [OF pre]
  let ?k1 = "fst (st_update st d (resolve_slot_cb oc) k False)"
  note U = stream_update [OF laws d, where f = "resolve_slot_cb oc" and a = False]
  have done_d: "vw_done vw k d = is_resolved (ds_outcome s)" by (rule D(9) [OF d])
  have lt: "d < dt_next t" by (rule D(8) [OF d])
  have slot1: "vw_slot vw ?k1 i = (if i = d then Some (resolved_slot oc s) else vw_slot vw k i)" for i
    unfolding U by (simp add: resolve_slot_cb_def resolved_slot_def)
  have done1: "vw_done vw ?k1 i = (if i = d then is_resolved (ds_outcome (resolved_slot oc s)) else vw_done vw k i)" for i
    unfolding U using done_d by (simp add: resolve_slot_cb_def resolved_slot_def)
  have app: "snd (st_update st d (resolve_slot_cb oc) k False) = (\<not> is_resolved (ds_outcome s))"
    unfolding U by (simp add: resolve_slot_cb_def)
  show ?thesis
  proof (cases "is_resolved (ds_outcome s)")
    case True
    then have same: "vw_slot vw ?k1 = vw_slot vw k" "vw_done vw ?k1 = vw_done vw k"
      using d(2) done_d by (auto simp: fun_eq_iff slot1 done1 resolved_slot_def)
    have t': "resolve_publish st d oc t = t\<lparr>dt_tracker := Some ?k1\<rparr>"
      using True app k by (simp add: resolve_publish_def split_beta)
    have "tr_inv vw L (resolve_publish st d oc t)"
      using pre mx by (simp add: t' tr_inv_def window_pre_def same U(1))
    then show ?thesis by (intro that [of ?k1]) (simp_all add: t' U(1) slot1 D(12))
  next
    case False
    define Ha where "Ha = (if oc = Acked then max (dt_highest_acked t) d else dt_highest_acked t)"
    define t2 where "t2 = t\<lparr>dt_tracker := Some ?k1, dt_highest_acked := Ha\<rparr>"
    have t': "resolve_publish st d oc t = (if is_resolved oc then advance_frontier st ?k1 t2 else t2)"
      using False app k by (simp add: resolve_publish_def split_beta t2_def Ha_def Let_def)
    have nd: "\<not> vw_done vw k d" using False done_d by simp
    then have gt: "dt_frontier t < d" using D(12) [OF d(1)] by force
    have pre1: "window_pre vw L ?k1 (dt_frontier t) (dt_next t) Ha"
      unfolding window_pre_def U(1)
    proof (intro conjI allI impI)
      fix i s'
      assume "vw_base vw k \<le> i \<and> vw_slot vw ?k1 i = Some s'"
      then have i: "vw_base vw k \<le> i" "vw_slot vw ?k1 i = Some s'" by simp_all
      show "i < dt_next t" using i D(8) [OF i(1)] lt by (auto simp: slot1 split: if_splits)
      show "vw_done vw ?k1 i = is_resolved (ds_outcome s')"
        using i D(9) [OF i(1)] by (auto simp: slot1 done1 split: if_splits)
      show "i \<le> Ha" if "ds_outcome s' = Acked"
        using i that D(10) [OF i(1)] False
        by (fastforce simp: slot1 Ha_def resolved_slot_def split: if_splits)
    next
      fix i
      assume "vw_base vw k \<le> i \<and> vw_slot vw ?k1 i = None"
      then show "\<not> vw_done vw ?k1 i" using D(11) [of i] by (auto simp: slot1 done1 split: if_splits)
    next
      fix i
      assume "vw_base vw k \<le> i \<and> i \<le> dt_frontier t"
      then show "vw_done vw ?k1 i" using D(12) [of i] gt by (simp add: done1)
    qed (use D(1-7) lt in \<open>auto simp: Ha_def\<close>)
    have Ha: "dt_highest_acked t \<le> Ha" "Ha \<le> max d (dt_highest_acked t)" by (simp_all add: Ha_def)
    show ?thesis
    proof (cases "is_resolved oc")
      case True
      have pre2: "window_pre vw L ?k1 (dt_frontier t2) (dt_next t2) (dt_highest_acked t2)" "dt_tracker t2 = Some ?k1"
        using pre1 by (simp_all add: t2_def)
      note adv = advance_frontier_inv [OF laws pre2(2,1)]
      obtain k' where k': "dt_tracker (advance_frontier st ?k1 t2) = Some k'" "vw_base vw ?k1 \<le> vw_base vw k'"
          "\<And>i. vw_base vw k' \<le> i \<Longrightarrow> vw_slot vw k' i = vw_slot vw ?k1 i"
        using advance_frontier_frame [OF laws pre2(2)] by blast
      have t'': "resolve_publish st d oc t = advance_frontier st ?k1 t2" using t' True by simp
      have "i = d \<or> vw_done vw k i" if "vw_base vw k \<le> i" "i \<le> dt_frontier (resolve_publish st d oc t)" for i
        using adv(3) [of i] that done1 [of i] unfolding t'' U(1) by (cases "i = d") auto
      then show ?thesis
        by (intro that [of k']) (use k' adv(1,2) Ha slot1 U(1) in \<open>simp_all add: t'' t2_def\<close>)
    next
      case False
      then have t'': "resolve_publish st d oc t = t2" using t' by simp
      have "\<not> vw_done vw ?k1 (dt_frontier t + 1)"
        using mx False \<open>\<not> is_resolved (ds_outcome s)\<close> by (simp add: done1 resolved_slot_def)
      then have "tr_inv vw L (resolve_publish st d oc t)"
        using pre1 unfolding t'' by (simp add: tr_inv_def t2_def)
      then show ?thesis
        by (intro that [of ?k1]) (use Ha slot1 U(1) D(12) in \<open>simp_all add: t'' t2_def\<close>)
    qed
  qed
qed

lemma tr_inv_signal [simp]: "tr_inv vw L (tracker_signal t) = tr_inv vw L t"
  by (simp add: tracker_signal_def tr_inv_def)

lemma tracker_signal_same [simp]:
  "dt_tracker (tracker_signal t) = dt_tracker t" "dt_frontier (tracker_signal t) = dt_frontier t"
  "dt_next (tracker_signal t) = dt_next t" "dt_highest_acked (tracker_signal t) = dt_highest_acked t"
  by (simp_all add: tracker_signal_def)

section \<open>Reachable trackers\<close>

text \<open>
  The steps the client's threads take on the tracker of one session, in any order: taking a
  number, creating its slot, publishing a resolution of a created slot, signalling the gate,
  moving the want watermark, planning a read, entering and leaving the gate.
\<close>

inductive tracker_step ::
  "'t tracker_ops \<Rightarrow> ('t, dlsn_slot) stream_view \<Rightarrow> 't dlsn_tracker \<Rightarrow> 't dlsn_tracker \<Rightarrow> bool"
  for st vw where
  step_take: "tracker_step st vw t (snd (reserve_take t))"
| step_create: "dt_tracker t = Some k \<Longrightarrow> vw_slot vw k d = None \<Longrightarrow> dt_frontier t < d \<Longrightarrow> d < dt_next t \<Longrightarrow>
    tracker_step st vw t (reserve_create st d addr len t)"
| step_publish: "dt_tracker t = Some k \<Longrightarrow> vw_base vw k \<le> d \<Longrightarrow> vw_slot vw k d = Some s \<Longrightarrow>
    tracker_step st vw t (resolve_publish st d oc t)"
| step_signal: "tracker_step st vw t (tracker_signal t)"
| step_want: "tracker_step st vw t (note_resolution_want lim t)"
| step_clear: "tracker_step st vw t (clear_resolution_want lim t)"
| step_plan: "tracker_step st vw t (snd (compute st addr len t))"
| step_gate: "tracker_step st vw t (set_gate f t)"

text \<open>What no step undoes: the watermarks only rise, and a resolved slot keeps its outcome.\<close>

definition tracker_le :: "('t, dlsn_slot) stream_view \<Rightarrow> 't dlsn_tracker \<Rightarrow> 't dlsn_tracker \<Rightarrow> bool" where
  "tracker_le vw t t' \<longleftrightarrow>
     dt_frontier t \<le> dt_frontier t' \<and> dt_highest_acked t \<le> dt_highest_acked t' \<and> dt_next t \<le> dt_next t' \<and>
     (\<exists>k k'. dt_tracker t = Some k \<and> dt_tracker t' = Some k' \<and> vw_base vw k \<le> vw_base vw k' \<and>
        (\<forall>i s. vw_base vw k' \<le> i \<and> vw_slot vw k i = Some s \<longrightarrow>
           (\<exists>s'. vw_slot vw k' i = Some s' \<and> ds_addr s' = ds_addr s \<and> ds_len s' = ds_len s \<and>
              (is_resolved (ds_outcome s) \<longrightarrow> s' = s))))"

lemma tracker_le_refl: "tr_inv vw L t \<Longrightarrow> tracker_le vw t t"
  by (auto simp: tracker_le_def elim!: tr_invE)

lemma tracker_le_trans:
  assumes "tracker_le vw a b" "tracker_le vw b c"
  shows "tracker_le vw a c"
proof -
  from assms obtain ka kb kc where k: "dt_tracker a = Some ka" "dt_tracker b = Some kb" "dt_tracker c = Some kc"
    and base: "vw_base vw ka \<le> vw_base vw kb" "vw_base vw kb \<le> vw_base vw kc"
    and ab: "\<And>i s. vw_base vw kb \<le> i \<Longrightarrow> vw_slot vw ka i = Some s \<Longrightarrow>
      \<exists>s'. vw_slot vw kb i = Some s' \<and> ds_addr s' = ds_addr s \<and> ds_len s' = ds_len s \<and> (is_resolved (ds_outcome s) \<longrightarrow> s' = s)"
    and bc: "\<And>i s. vw_base vw kc \<le> i \<Longrightarrow> vw_slot vw kb i = Some s \<Longrightarrow>
      \<exists>s'. vw_slot vw kc i = Some s' \<and> ds_addr s' = ds_addr s \<and> ds_len s' = ds_len s \<and> (is_resolved (ds_outcome s) \<longrightarrow> s' = s)"
    unfolding tracker_le_def by fastforce
  have "\<exists>s'. vw_slot vw kc i = Some s' \<and> ds_addr s' = ds_addr s \<and> ds_len s' = ds_len s \<and> (is_resolved (ds_outcome s) \<longrightarrow> s' = s)"
    if i: "vw_base vw kc \<le> i" and s: "vw_slot vw ka i = Some s" for i s
  proof -
    obtain s1 where s1: "vw_slot vw kb i = Some s1" "ds_addr s1 = ds_addr s" "ds_len s1 = ds_len s"
        "is_resolved (ds_outcome s) \<longrightarrow> s1 = s"
      using ab [of i s] i s base by auto
    obtain s2 where "vw_slot vw kc i = Some s2" "ds_addr s2 = ds_addr s1" "ds_len s2 = ds_len s1"
        "is_resolved (ds_outcome s1) \<longrightarrow> s2 = s1"
      using bc [OF i s1(1)] by blast
    with s1 show ?thesis by auto
  qed
  with assms k base show ?thesis unfolding tracker_le_def by auto
qed

lemma compute_same [simp]:
  "dt_tracker (snd (compute st addr len t)) = dt_tracker t" "dt_frontier (snd (compute st addr len t)) = dt_frontier t"
  "dt_next (snd (compute st addr len t)) = dt_next t" "dt_gate (snd (compute st addr len t)) = dt_gate t"
  "dt_highest_acked (snd (compute st addr len t)) = dt_highest_acked t"
  "dt_lba_size (snd (compute st addr len t)) = dt_lba_size t" "dt_scan_cap (snd (compute st addr len t)) = dt_scan_cap t"
  by (simp_all add: compute_def Let_def split: option.split)

lemma tr_inv_cong:
  assumes "dt_tracker t' = dt_tracker t" "dt_frontier t' = dt_frontier t" "dt_next t' = dt_next t"
    "dt_highest_acked t' = dt_highest_acked t" "tr_inv vw L t"
  shows "tr_inv vw L t' \<and> tracker_le vw t t'"
  using assms tracker_le_refl [OF assms(5)] by (simp add: tr_inv_def tracker_le_def)

lemma tracker_step_inv:
  assumes "tracker_step st vw t t'" "stream_laws st vw" "tr_inv vw L t"
  shows "tr_inv vw L t' \<and> tracker_le vw t t'"
  using assms
proof (cases rule: tracker_step.cases)
  case step_take
  with tracker_le_refl [OF assms(3)] reserve_take_inv [OF assms(3)] show ?thesis
    by (simp add: reserve_take_def tracker_le_def)
next
  case (step_create k d addr len)
  have b: "vw_base vw k \<le> d" using assms(3) step_create by (auto elim!: tr_invE dest: window_preD(7))
  note c = stream_create [OF assms(2) b step_create(3)]
  have "tracker_le vw t t'"
    using step_create by (auto simp: tracker_le_def reserve_create_def c)
  with reserve_create_inv [OF assms(2,3) step_create(2-5)] step_create(1) show ?thesis by blast
next
  case (step_publish k d s oc)
  obtain k' where *: "dt_tracker (resolve_publish st d oc t) = Some k'" "vw_base vw k \<le> vw_base vw k'"
    "\<And>i. vw_base vw k' \<le> i \<Longrightarrow> vw_slot vw k' i = (if i = d then Some (resolved_slot oc s) else vw_slot vw k i)"
    "tr_inv vw L (resolve_publish st d oc t)"
    "dt_frontier t \<le> dt_frontier (resolve_publish st d oc t)"
    "dt_next (resolve_publish st d oc t) = dt_next t"
    "dt_highest_acked t \<le> dt_highest_acked (resolve_publish st d oc t)"
    by (rule resolve_publish_spec [OF assms(2,3) step_publish(2-4), of oc]) blast
  then have "tracker_le vw t (resolve_publish st d oc t)"
    unfolding tracker_le_def using step_publish(2,4) by (auto simp: resolved_slot_def)
  with *(4) step_publish(1) show ?thesis by simp
qed (rule tr_inv_cong [OF _ _ _ _ assms(3)]; simp add: note_resolution_want_def clear_resolution_want_def set_gate_def)+

lemma tracker_steps_inv:
  assumes "(tracker_step st vw)\<^sup>*\<^sup>* t t'" "stream_laws st vw" "tr_inv vw L t"
  shows "tr_inv vw L t' \<and> tracker_le vw t t'"
  using assms
proof (induction rule: rtranclp_induct)
  case base
  then show ?case by (simp add: tracker_le_refl)
next
  case (step y z)
  then have y: "tr_inv vw L y" "tracker_le vw t y" by simp_all
  from tracker_step_inv [OF step(2,4) y(1)] y(2) show ?case using tracker_le_trans by blast
qed

section \<open>The unresolved slots between two dLSNs\<close>

definition unresolved :: "('t, 's) stream_view \<Rightarrow> 't \<Rightarrow> int \<Rightarrow> int \<Rightarrow> int list" where
  "unresolved vw k lo hi = filter (\<lambda>i. \<not> vw_done vw k i) [lo..hi]"

lemma set_unresolved: "set (unresolved vw k lo hi) = {i. lo \<le> i \<and> i \<le> hi \<and> \<not> vw_done vw k i}"
  by (auto simp: unresolved_def)

lemma sorted_unresolved: "sorted_wrt (<) (unresolved vw k lo hi)"
  by (simp add: unresolved_def sorted_wrt_filter sorted_wrt_upto)

text \<open>One hop of the gap walks: from a dLSN straight to the next unresolved one.\<close>

lemma unresolved_hop:
  assumes "stream_laws st vw" "vw_base vw k \<le> h"
  shows "unresolved vw k h hi =
    (if hi < st_completed_upto st k h + 1 then []
     else (st_completed_upto st k h + 1) # unresolved vw k (st_completed_upto st k h + 2) hi)"
proof -
  note C = stream_completed [OF assms]
  let ?cu = "st_completed_upto st k h"
  have run: "unresolved vw k h (min hi ?cu) = []"
    using C(2) by (auto simp: unresolved_def filter_empty_conv)
  show ?thesis
  proof (cases "hi < ?cu + 1")
    case True
    then have "min hi ?cu = hi" by simp
    with run True show ?thesis by simp
  next
    case False
    then have "[h..hi] = [h..?cu] @ [?cu + 1..hi]"
    proof (cases "h \<le> ?cu")
      case True
      with False show ?thesis by (intro upto_split2) auto
    next
      case h: False
      then have "?cu + 1 = h" using C(1) by linarith
      with h show ?thesis by simp
    qed
    moreover have "[?cu + 1..hi] = (?cu + 1) # [?cu + 2..hi]" using False by (subst upto_rec1) (auto simp: algebra_simps)
    ultimately show ?thesis using run False C(3) by (simp add: unresolved_def min_def)
  qed
qed

lemma scan_gaps_fold:
  assumes "stream_laws st vw" "vw_base vw k \<le> h"
  shows "scan_gaps st k addr len Ha h g =
    fold (\<lambda>u. note_gap addr len u (vw_slot vw k u)) (unresolved vw k h Ha) g"
  using assms
proof (induction st k addr len Ha h g rule: scan_gaps.induct)
  case (1 st k addr len Ha h g)
  note C = stream_completed [OF 1(2,3)]
  let ?u = "st_completed_upto st k h + 1"
  have u: "\<not> ?u < h" "vw_base vw k \<le> ?u + 1" using C(1) 1(3) by simp_all
  have hop: "unresolved vw k h Ha = (if Ha < ?u then [] else ?u # unresolved vw k (?u + 1) Ha)"
    using unresolved_hop [OF 1(2,3), of Ha] by (simp add: add.assoc)
  consider "Ha < h" | "\<not> Ha < h" "Ha < ?u" | "\<not> Ha < h" "\<not> Ha < ?u" by blast
  then show ?case
  proof cases
    case 1
    then show ?thesis by (subst scan_gaps.simps) (simp add: unresolved_def)
  next
    case 2
    then show ?thesis unfolding hop by (subst scan_gaps.simps) (simp add: Let_def)
  next
    case 3
    have "active_at st k ?u = vw_slot vw k ?u" by (rule active_at_view [OF 1(2)]) (use u 1(3) in linarith)
    with 3 u 1(1) [OF 3(1) refl 3(2) u(1) 1(2) u(2)] show ?thesis
      unfolding hop by (subst scan_gaps.simps) (simp add: Let_def)
  qed
qed

definition gap_hit :: "nat \<Rightarrow> nat \<Rightarrow> dlsn_slot option \<Rightarrow> bool" where
  "gap_hit addr len sv \<longleftrightarrow> (case sv of None \<Rightarrow> True | Some s \<Rightarrow> overlaps addr len (ds_addr s) (ds_len s))"

lemma fold_note_gap:
  assumes "\<forall>u \<in> set us. 0 \<le> u"
  shows "gs_umin (fold (\<lambda>u. note_gap addr len u (sl u)) us g) =
      (if 0 \<le> gs_umin g then gs_umin g
       else case find (\<lambda>u. gap_hit addr len (sl u)) us of None \<Rightarrow> gs_umin g | Some u \<Rightarrow> u)"
    "gs_any_gap (fold (\<lambda>u. note_gap addr len u (sl u)) us g) = (gs_any_gap g \<or> (\<exists>u \<in> set us. sl u = None))"
    "gs_any_failed (fold (\<lambda>u. note_gap addr len u (sl u)) us g) =
      (gs_any_failed g \<or> (\<exists>u \<in> set us. \<exists>s. sl u = Some s \<and> overlaps addr len (ds_addr s) (ds_len s) \<and> ds_outcome s = Failed))"
  using assms
  by (induction us arbitrary: g) (auto simp: note_gap_def gap_hit_def split: option.splits)

lemma find_first:
  assumes "find P xs = Some u" "sorted_wrt (<) xs" "v \<in> set xs" "P v"
  shows "u \<le> (v::'a::linorder)"
  using assms by (induction xs) (auto split: if_splits dest: find_SomeD)

section \<open>The winner pass\<close>

text \<open>
  \<open>star\<close> is the pass on one block: over the slots that touch the block, in ascending order, each
  with whether it is acknowledged. What is left is the lowest unresolved slot above the last
  acknowledged one.
\<close>

definition star :: "(int \<times> bool) list \<Rightarrow> int \<Rightarrow> int" where
  "star l u = fold (\<lambda>e. mark_block (snd e) (fst e)) l u"

lemma star_spec:
  assumes "sorted_wrt (<) (map fst l)" "\<forall>e \<in> set l. 0 \<le> fst e"
  shows "(star l (-1) < 0 \<longrightarrow> (\<forall>i. (i, False) \<in> set l \<longrightarrow> (\<exists>j. i < j \<and> (j, True) \<in> set l))) \<and>
    (0 \<le> star l (-1) \<longrightarrow> (star l (-1), False) \<in> set l \<and> (\<forall>j. (j, True) \<in> set l \<longrightarrow> j < star l (-1)) \<and>
       (\<forall>i. (i, False) \<in> set l \<and> i < star l (-1) \<longrightarrow> (\<exists>j. i < j \<and> j < star l (-1) \<and> (j, True) \<in> set l)))"
  using assms
proof (induction l rule: rev_induct)
  case Nil
  show ?case by (simp add: star_def)
next
  case (snoc e l)
  obtain i a where e: "e = (i, a)" by (cases e)
  have srt: "sorted_wrt (<) (map fst l)" and lt: "\<forall>x \<in> set l. fst x < i" and pos: "0 \<le> i" "\<forall>e \<in> set l. 0 \<le> fst e"
    using snoc.prems by (auto simp: sorted_wrt_append e)
  note IH = snoc.IH [OF srt pos(2)]
  have s: "star (l @ [e]) (-1) = mark_block a i (star l (-1))" by (simp add: star_def e)
  show ?case
  proof (cases a)
    case True
    then have e1: "star (l @ [e]) (-1) = -1" by (simp add: s mark_block_def)
    show ?thesis unfolding e1 using True lt by (force simp: e)
  next
    case False
    show ?thesis
    proof (cases "star l (-1) < 0")
      case True
      have old: "\<exists>j. i' < j \<and> j < i \<and> (j, True) \<in> set l" if i': "(i', False) \<in> set l" for i'
      proof -
        obtain j where "i' < j" "(j, True) \<in> set l" using IH True i' by blast
        with lt show ?thesis by force
      qed
      have e1: "star (l @ [e]) (-1) = i" using True False by (simp add: s mark_block_def)
      show ?thesis unfolding e1 using False pos(1) lt old by (auto simp: e)
    next
      case ge: False
      have e1: "star (l @ [e]) (-1) = star l (-1)" using ge False by (simp add: s mark_block_def)
      have lt': "star l (-1) < i" using IH ge lt by force
      show ?thesis unfolding e1 using IH ge False lt' by (auto simp: e)
    qed
  qed
qed

lemma length_mark_blocks [simp]: "length (mark_blocks a i b0 b1 us) = length us"
proof -
  have "length (fold (\<lambda>b us. us[b := mark_block a i (us ! b)]) bs us) = length us" for bs
    by (induction bs arbitrary: us) simp_all
  then show ?thesis by (simp add: mark_blocks_def)
qed

lemma nth_mark_blocks:
  assumes "b < length us"
  shows "mark_blocks a i b0 b1 us ! b = (if b0 \<le> b \<and> b \<le> b1 then mark_block a i (us ! b) else us ! b)"
proof -
  have "fold (\<lambda>b us. us[b := mark_block a i (us ! b)]) bs us ! b = (if b \<in> set bs then mark_block a i (us ! b) else us ! b)"
    if "distinct bs" "b < length us" for bs us
    using that
  proof (induction bs arbitrary: us)
    case (Cons c bs)
    then show ?case by (cases "c = b") (simp_all add: nth_list_update)
  qed simp
  from this [of "[b0..<b1 + 1]" us] assms show ?thesis by (auto simp: mark_blocks_def)
qed

definition slot_aligned :: "nat \<Rightarrow> dlsn_slot \<Rightarrow> bool" where
  "slot_aligned lba s \<longleftrightarrow> lba dvd ds_addr s \<and> lba dvd ds_len s \<and> ds_addr s + ds_len s < 2 ^ 64"

definition slot_covers :: "dlsn_slot \<Rightarrow> nat \<Rightarrow> bool" where
  "slot_covers s x \<longleftrightarrow> ds_addr s \<le> x \<and> x < ds_addr s + ds_len s"

lemma div_pred: "0 < lba \<Longrightarrow> 0 < n \<Longrightarrow> (lba * n - 1) div lba = n - (1::nat)"
proof -
  assume a: "0 < lba" "0 < n"
  then have "lba * n - 1 = (lba - 1) + lba * (n - 1)" by (cases n) simp_all
  moreover have "((lba - 1) + lba * (n - 1)) div lba = n - 1" using a by (subst div_mult_self2) simp_all
  ultimately show ?thesis by simp
qed

text \<open>The block range computed for a slot is exactly the blocks of the read the slot covers.\<close>

lemma block_range:
  fixes addr len lba sa sl b :: nat
  assumes lba: "0 < lba" "lba dvd addr" "lba dvd len" "lba dvd sa" "lba dvd sl"
    and rng: "addr + len < 2 ^ 64" "sa + sl < 2 ^ 64" and ov: "overlaps addr len sa sl" and b: "b < len div lba"
  shows "sub64 (max addr sa) addr div lba \<le> b \<and>
      b \<le> min (len div lba - 1) (sub64 (sub64 (min (u64 (addr + len)) (u64 (sa + sl))) 1) addr div lba)
    \<longleftrightarrow> sa \<le> addr + b * lba \<and> addr + b * lba < sa + sl"
proof -
  obtain A N S M where e: "addr = lba * A" "len = lba * N" "sa = lba * S" "sl = lba * M"
    using lba by (auto elim!: dvdE)
  have o: "A < S + M" "S < A + N"
    using ov rng lba(1) by (simp_all add: overlaps_def e flip: distrib_left)
  let ?K = "min (A + N) (S + M)"
  have hi: "min (u64 (addr + len)) (u64 (sa + sl)) = lba * ?K"
    using rng by (simp add: e min_def flip: distrib_left)
  have "0 < N" using b lba(1) by (simp add: e)
  then have K: "A < ?K" using o by simp
  have "sub64 (max addr sa) addr = lba * (max A S - A)"
  proof -
    have "max addr sa = lba * max A S" by (simp add: e max_def)
    then show ?thesis using rng by (simp add: e diff_mult_distrib2 max_def split: if_splits)
  qed
  then have b0: "sub64 (max addr sa) addr div lba = max A S - A" using lba(1) by simp
  have Kb: "lba * ?K < 2 ^ 64" "1 \<le> lba * ?K" using rng lba(1) K by (auto simp: e min_def distrib_left)
  have "lba * A \<le> lba * ?K - 1"
  proof -
    have "lba * A + lba \<le> lba * ?K" using mult_le_mono2 [of "Suc A" ?K lba] K by simp
    then show ?thesis using lba(1) by linarith
  qed
  then have "sub64 (sub64 (lba * ?K) 1) addr = lba * ?K - 1 - lba * A"
    using Kb by (simp add: e)
  also have "\<dots> = lba * (?K - A) - 1" by (simp add: diff_mult_distrib2)
  finally have b1: "sub64 (sub64 (lba * ?K) 1) addr div lba = ?K - A - 1"
    using div_pred [OF lba(1), of "?K - A"] K by simp
  have N: "len div lba = N" using lba(1) by (simp add: e)
  have "sa \<le> addr + b * lba \<longleftrightarrow> S \<le> A + b" "addr + b * lba < sa + sl \<longleftrightarrow> A + b < S + M"
    using lba(1) by (simp_all add: e mult.commute [of b] flip: distrib_left)
  then show ?thesis unfolding hi b0 b1 N using b K o by (auto simp: N)
qed

section \<open>Cutting the range into segments\<close>

text \<open>\<open>chain segs a e\<close>: the segments are non-empty and cover \<open>[a, e)\<close> in order, without gap or overlap.\<close>

fun chain :: "read_segment list \<Rightarrow> nat \<Rightarrow> nat \<Rightarrow> bool" where
  "chain [] a e \<longleftrightarrow> a = e"
| "chain (s # ss) a e \<longleftrightarrow> sg_addr s = a \<and> 0 < sg_len s \<and> chain ss (a + sg_len s) e"

lemma chain_append: "chain (xs @ ys) a e \<longleftrightarrow> (\<exists>m. chain xs a m \<and> chain ys m e)"
  by (induction xs arbitrary: a) auto

lemma segments_spec:
  assumes "segments hor addr lba nblk [b..<nblk + 1] s cur segs = Some r"
    and "s < b" "b \<le> nblk" "\<forall>j. s \<le> j \<and> j < b \<longrightarrow> hor j = cur" "0 < lba" "addr + nblk * lba < 2 ^ 64"
    and "chain segs addr (addr + s * lba)" "length segs \<le> k_max_segments"
    and "\<forall>g \<in> set segs. \<exists>i j. i < j \<and> j \<le> nblk \<and> sg_addr g = addr + i * lba \<and> sg_len g = (j - i) * lba \<and>
           (\<forall>b. i \<le> b \<and> b < j \<longrightarrow> hor b = sg_H g)"
  shows "chain r addr (addr + nblk * lba) \<and> length r \<le> k_max_segments \<and>
    (\<forall>g \<in> set r. \<exists>i j. i < j \<and> j \<le> nblk \<and> sg_addr g = addr + i * lba \<and> sg_len g = (j - i) * lba \<and>
       (\<forall>b. i \<le> b \<and> b < j \<longrightarrow> hor b = sg_H g))"
  using assms
proof (induction "nblk - b" arbitrary: b s cur segs)
  case 0
  then have b: "b = nblk" by simp
  let ?g = "\<lparr>sg_addr = u64 (addr + s * lba), sg_len = (b - s) * lba, sg_H = cur\<rparr>"
  have r: "r = segs @ [?g]" "length segs \<noteq> k_max_segments"
    using 0(2) by (auto simp: b split: if_splits)
  have "addr + s * lba \<le> addr + nblk * lba" using 0(3) b by simp
  then have "addr + s * lba < 2 ^ 64" using 0(7) by (rule le_less_trans)
  then have a: "u64 (addr + s * lba) = addr + s * lba" by simp
  have len: "addr + s * lba + (nblk - s) * lba = addr + nblk * lba"
    using 0(3) b by (simp add: diff_mult_distrib)
  have "chain r addr (addr + nblk * lba)"
    unfolding r chain_append using 0(3,6,8) len by (auto simp: a b)
  moreover have "\<forall>g \<in> set r. \<exists>i j. i < j \<and> j \<le> nblk \<and> sg_addr g = addr + i * lba \<and> sg_len g = (j - i) * lba \<and>
       (\<forall>b. i \<le> b \<and> b < j \<longrightarrow> hor b = sg_H g)"
    using 0(10) 0(3,5) unfolding r(1) by (auto simp: a b)
  ultimately show ?case using r 0(9) by simp
next
  case (Suc n)
  then have b: "b < nblk" by simp
  then have list: "[b..<nblk + 1] = b # [b + 1..<nblk + 1]" by (simp add: upt_rec)
  have n: "n = nblk - (b + 1)" using Suc(2) by simp
  show ?case
  proof (cases "hor b = cur")
    case True
    have go: "segments hor addr lba nblk [b + 1..<nblk + 1] s cur segs = Some r"
      using Suc(3) True b unfolding list by simp
    have eqs: "\<forall>j. s \<le> j \<and> j < b + 1 \<longrightarrow> hor j = cur" using Suc(6) True by (auto simp: less_Suc_eq)
    show ?thesis
      by (rule Suc(1) [OF n go _ _ eqs Suc(7-11)]) (use Suc(4) b in simp_all)
  next
    case False
    let ?g = "\<lparr>sg_addr = u64 (addr + s * lba), sg_len = (b - s) * lba, sg_H = cur\<rparr>"
    have lt: "length segs < k_max_segments"
      using Suc(3,10) False b unfolding list by (auto split: if_splits)
    have go: "segments hor addr lba nblk [b + 1..<nblk + 1] b (hor b) (segs @ [?g]) = Some r"
      using Suc(3) False b lt unfolding list by simp
    have "addr + s * lba \<le> addr + nblk * lba" using Suc(4) b by simp
    then have "addr + s * lba < 2 ^ 64" using Suc(8) by (rule le_less_trans)
    then have a: "u64 (addr + s * lba) = addr + s * lba" by simp
    have len: "addr + s * lba + (b - s) * lba = addr + b * lba"
      using Suc(4) by (simp add: diff_mult_distrib)
    show ?thesis
    proof (rule Suc(1) [OF n go])
      show "chain (segs @ [?g]) addr (addr + b * lba)"
        unfolding chain_append using Suc(4,7,9) len by (auto simp: a)
      show "\<forall>g \<in> set (segs @ [?g]). \<exists>i j. i < j \<and> j \<le> nblk \<and> sg_addr g = addr + i * lba \<and> sg_len g = (j - i) * lba \<and>
          (\<forall>b. i \<le> b \<and> b < j \<longrightarrow> hor b = sg_H g)"
      proof
        fix g
        assume "g \<in> set (segs @ [?g])"
        then consider "g \<in> set segs" | "g = ?g" by auto
        then show "\<exists>i j. i < j \<and> j \<le> nblk \<and> sg_addr g = addr + i * lba \<and> sg_len g = (j - i) * lba \<and>
            (\<forall>b. i \<le> b \<and> b < j \<longrightarrow> hor b = sg_H g)"
        proof cases
          case 1
          with Suc(11) show ?thesis by blast
        next
          case 2
          with Suc(4,6) b a show ?thesis by (intro exI [of _ s] exI [of _ b]) simp
        qed
      qed
    qed (use b lt Suc(7,8) in \<open>auto simp: less_Suc_eq\<close>)
  qed
qed

section \<open>A plan is safe\<close>

text \<open>
  \<open>safe_at\<close>: a horizon at which byte \<open>x\<close> may be read. Every acknowledged slot that covers the byte
  is at or below it, and an unresolved slot at or below it has a known range and either
  does not cover the byte or lies beneath an acknowledged slot that does.
\<close>

definition safe_at :: "('t, dlsn_slot) stream_view \<Rightarrow> 't \<Rightarrow> nat \<Rightarrow> int \<Rightarrow> bool" where
  "safe_at vw k x H \<longleftrightarrow>
     (\<forall>j s. vw_base vw k \<le> j \<and> vw_slot vw k j = Some s \<and> ds_outcome s = Acked \<and> slot_covers s x \<longrightarrow> j \<le> H) \<and>
     (\<forall>i. vw_base vw k \<le> i \<and> i \<le> H \<and> \<not> vw_done vw k i \<longrightarrow>
        (\<exists>s. vw_slot vw k i = Some s \<and>
           (slot_covers s x \<longrightarrow>
              (\<exists>j s'. i < j \<and> j \<le> H \<and> vw_slot vw k j = Some s' \<and> ds_outcome s' = Acked \<and> slot_covers s' x))))"

definition slot_marks :: "nat \<Rightarrow> nat \<Rightarrow> dlsn_slot \<Rightarrow> nat \<Rightarrow> bool" where
  "slot_marks addr len s x \<longleftrightarrow> ds_outcome s \<noteq> Empty \<and> overlaps addr len (ds_addr s) (ds_len s) \<and> slot_covers s x"

lemma overlaps_cover:
  assumes "slot_covers s x" "addr \<le> x" "x < addr + len" "addr + len < 2 ^ 64" "ds_addr s + ds_len s < 2 ^ 64"
  shows "overlaps addr len (ds_addr s) (ds_len s)"
  using assms by (simp add: overlaps_def slot_covers_def)

lemma winner_step_nth:
  assumes "0 < lba" "lba dvd addr" "lba dvd len" "addr + len < 2 ^ 64" "slot_aligned lba (snd e)"
    and "b < len div lba" "length us = len div lba"
  shows "winner_step addr len lba (len div lba) e us ! b =
      (if slot_marks addr len (snd e) (addr + b * lba)
       then mark_block (ds_outcome (snd e) = Acked) (fst e) (us ! b) else us ! b)"
    "length (winner_step addr len lba (len div lba) e us) = length us"
proof -
  have al: "lba dvd ds_addr (snd e)" "lba dvd ds_len (snd e)" "ds_addr (snd e) + ds_len (snd e) < 2 ^ 64"
    using assms(5) by (simp_all add: slot_aligned_def)
  show "winner_step addr len lba (len div lba) e us ! b =
      (if slot_marks addr len (snd e) (addr + b * lba)
       then mark_block (ds_outcome (snd e) = Acked) (fst e) (us ! b) else us ! b)"
  proof (cases "ds_outcome (snd e) = Empty \<or> \<not> overlaps addr len (ds_addr (snd e)) (ds_len (snd e))")
    case True
    then show ?thesis by (auto simp: winner_step_def slot_marks_def Let_def)
  next
    case False
    then have ov: "overlaps addr len (ds_addr (snd e)) (ds_len (snd e))" by simp
    show ?thesis
      using False block_range [OF assms(1-3) al(1,2) assms(4) al(3) ov assms(6)] assms(6,7)
      by (simp add: winner_step_def Let_def nth_mark_blocks slot_marks_def slot_covers_def)
  qed
  show "length (winner_step addr len lba (len div lba) e us) = length us"
    by (simp add: winner_step_def Let_def)
qed

lemma winner_fold:
  assumes "0 < lba" "lba dvd addr" "lba dvd len" "addr + len < 2 ^ 64" "\<forall>e \<in> set es. slot_aligned lba (snd e)"
    and "b < len div lba" "length us = len div lba"
  shows "fold (winner_step addr len lba (len div lba)) es us ! b =
      star (map (\<lambda>e. (fst e, ds_outcome (snd e) = Acked)) (filter (\<lambda>e. slot_marks addr len (snd e) (addr + b * lba)) es)) (us ! b)"
  using assms(5,7)
proof (induction es arbitrary: us)
  case (Cons e es)
  note W = winner_step_nth [OF assms(1-4) _ assms(6) Cons(3), of e]
  show ?case using Cons W by (simp add: star_def)
qed (simp add: star_def)

lemma covers_block:
  assumes "0 < lba" "lba dvd addr" "slot_aligned lba s" "addr + b * lba \<le> x" "x < addr + (b + 1) * lba"
  shows "slot_covers s x \<longleftrightarrow> slot_covers s (addr + b * lba)"
proof -
  obtain A S M where e: "addr = lba * A" "ds_addr s = lba * S" "ds_len s = lba * M"
    using assms(2,3) by (auto simp: slot_aligned_def elim!: dvdE)
  have x: "lba * (A + b) \<le> x" "x < lba * (A + b + 1)" using assms(4,5) by (simp_all add: e algebra_simps)
  have "lba * S \<le> x \<longleftrightarrow> S \<le> A + b"
  proof
    assume "lba * S \<le> x"
    with x(2) have "lba * S < lba * (A + b + 1)" by linarith
    then have "S < A + b + 1" by (simp only: mult_less_cancel1)
    then show "S \<le> A + b" by simp
  next
    assume "S \<le> A + b"
    then have "lba * S \<le> lba * (A + b)" by simp
    with x(1) show "lba * S \<le> x" by linarith
  qed
  moreover have "x < lba * (S + M) \<longleftrightarrow> A + b < S + M"
  proof
    assume "x < lba * (S + M)"
    with x(1) have "lba * (A + b) < lba * (S + M)" by linarith
    then show "A + b < S + M" by simp
  next
    assume "A + b < S + M"
    then have "lba * (A + b + 1) \<le> lba * (S + M)" by (intro mult_le_mono2) simp
    with x(2) show "x < lba * (S + M)" by linarith
  qed
  moreover have "slot_covers s (addr + b * lba) \<longleftrightarrow> S \<le> A + b \<and> A + b < S + M"
    using assms(1) by (simp add: slot_covers_def e mult.commute [of b] flip: distrib_left)
  ultimately show ?thesis by (simp add: slot_covers_def e distrib_left)
qed

text \<open>The horizon the winner pass gives a block is safe for every byte of the block.\<close>

lemma winner_horizon_safe:
  fixes us :: "int list"
  assumes laws: "stream_laws st vw" and pre: "window_pre vw L k F nx Ha"
    and umin: "F < umin" and low: "\<And>i. F < i \<Longrightarrow> i < umin \<Longrightarrow> \<not> vw_done vw k i \<Longrightarrow> \<not> gap_hit addr len (vw_slot vw k i)"
    and nogap: "\<And>i. F < i \<Longrightarrow> i \<le> Ha \<Longrightarrow> \<not> vw_done vw k i \<Longrightarrow> vw_slot vw k i \<noteq> None"
    and al: "0 < lba" "lba dvd addr" "lba dvd len" "addr + len < 2 ^ 64"
    and sal: "\<And>i s. vw_base vw k \<le> i \<Longrightarrow> vw_slot vw k i = Some s \<Longrightarrow> slot_aligned lba s"
    and us: "us = fold (winner_step addr len lba (len div lba))
        (takeWhile (\<lambda>e. fst e \<le> Ha) (st_active_from st k umin)) (replicate (len div lba) (-1))"
    and b: "b < len div lba" and x: "addr + b * lba \<le> x" "x < addr + (b + 1) * lba" and "umin \<le> Ha"
  shows "safe_at vw k x (horizon_of Ha us b)" "F \<le> horizon_of Ha us b" "horizon_of Ha us b \<le> Ha"
proof -
  note D = window_preD [OF pre]
  have base: "vw_base vw k \<le> umin" using D(7) umin by simp
  note A = stream_active [OF laws base]
  define es where "es = takeWhile (\<lambda>e. fst e \<le> Ha) (st_active_from st k umin)"
  have es: "es = filter (\<lambda>e. fst e \<le> Ha) (st_active_from st k umin)"
    unfolding es_def using A(1) takeWhile_upto [of "st_active_from st k umin" Ha] by (simp add: om_ok_def om_upto_def)
  have mem: "(i, s) \<in> set es \<longleftrightarrow> umin \<le> i \<and> i \<le> Ha \<and> vw_slot vw k i = Some s" for i s
    unfolding es using A(2) by auto
  define l where "l = map (\<lambda>e. (fst e, ds_outcome (snd e) = Acked)) (filter (\<lambda>e. slot_marks addr len (snd e) (addr + b * lba)) es)"
  have "sorted_wrt (<) (map fst (filter (\<lambda>e. slot_marks addr len (snd e) (addr + b * lba)) es))"
    using om_ok_filter [OF om_ok_filter [of "st_active_from st k umin" "\<lambda>e. fst e \<le> Ha"]] A(1)
    unfolding es om_ok_def by blast
  then have srt: "sorted_wrt (<) (map fst l)" unfolding l_def by (simp add: comp_def)
  have pos: "\<forall>e \<in> set l. umin \<le> fst e \<and> fst e \<le> Ha" unfolding l_def using mem by auto
  have u0: "0 \<le> umin" using umin D(1,2) by linarith
  have "\<forall>e \<in> set es. slot_aligned lba (snd e)"
  proof
    fix e assume "e \<in> set es"
    then show "slot_aligned lba (snd e)" using mem [of "fst e" "snd e"] base sal [of "fst e" "snd e"] by simp
  qed
  then have "us ! b = star l (-1)"
    using winner_fold [OF al _ b, of es "replicate (len div lba) (-1)"] b
    unfolding us es_def [symmetric] l_def by simp
  define v where "v = star l (-1)"
  have hor: "horizon_of Ha us b = (if v < 0 then Ha else v - 1)"
    using \<open>us ! b = star l (-1)\<close> by (simp add: horizon_of_def v_def)
  have "\<forall>e \<in> set l. 0 \<le> fst e" using pos u0 by force
  note S = star_spec [OF srt this, folded v_def]
  have vmem: "0 \<le> v \<Longrightarrow> umin \<le> v \<and> v \<le> Ha" using S pos by force
  show "F \<le> horizon_of Ha us b" "horizon_of Ha us b \<le> Ha"
    using vmem umin \<open>umin \<le> Ha\<close> unfolding hor by auto
  have xin: "addr \<le> x" "x < addr + len"
  proof -
    show "addr \<le> x" using x(1) by linarith
    have "(b + 1) * lba \<le> len div lba * lba" using b by (intro mult_le_mono1) simp
    also have "\<dots> = len" using al(3) by simp
    finally show "x < addr + len" using x(2) by linarith
  qed
  have lmem: "(i, ds_outcome s = Acked) \<in> set l"
    if "umin \<le> i" "i \<le> Ha" "vw_slot vw k i = Some s" "ds_outcome s \<noteq> Empty" "slot_covers s x" for i s
  proof -
    have sa: "slot_aligned lba s" using sal [of i s] that base by simp
    have "overlaps addr len (ds_addr s) (ds_len s)"
      using overlaps_cover [OF that(5) xin al(4)] sa by (simp add: slot_aligned_def)
    then have "slot_marks addr len s (addr + b * lba)"
      using that(4,5) covers_block [OF al(1,2) sa x] by (simp add: slot_marks_def)
    then show ?thesis unfolding l_def using that mem by force
  qed
  have lcov: "\<exists>s. vw_slot vw k i = Some s \<and> ds_outcome s = Acked \<and> slot_covers s x" if "(i, True) \<in> set l" for i
  proof -
    from that obtain s where s: "(i, s) \<in> set es" "ds_outcome s = Acked" "slot_covers s (addr + b * lba)"
      unfolding l_def by (auto simp: slot_marks_def)
    then have "vw_slot vw k i = Some s" "vw_base vw k \<le> i" using mem base by auto
    with s sal [of i s] covers_block [OF al(1,2) _ x, of s] show ?thesis by auto
  qed
  show "safe_at vw k x (horizon_of Ha us b)"
    unfolding safe_at_def
  proof (intro conjI allI impI)
    fix j s
    assume "vw_base vw k \<le> j \<and> vw_slot vw k j = Some s \<and> ds_outcome s = Acked \<and> slot_covers s x"
    then have j: "vw_base vw k \<le> j" "vw_slot vw k j = Some s" "ds_outcome s = Acked" "slot_covers s x" by simp_all
    have jHa: "j \<le> Ha" by (rule D(10) [OF j(1-3)])
    show "j \<le> horizon_of Ha us b"
    proof (cases "j < umin")
      case True
      then show ?thesis using jHa vmem unfolding hor by auto
    next
      case False
      then have "(j, True) \<in> set l" using lmem [of j s] j jHa by simp
      then have "0 \<le> v \<longrightarrow> j < v" using S by blast
      then show ?thesis using jHa unfolding hor by auto
    qed
  next
    fix i
    assume "vw_base vw k \<le> i \<and> i \<le> horizon_of Ha us b \<and> \<not> vw_done vw k i"
    then have i: "vw_base vw k \<le> i" "i \<le> horizon_of Ha us b" "\<not> vw_done vw k i" by simp_all
    have F: "F < i" using D(12) [OF i(1)] i(3) by force
    have iHa: "i \<le> Ha" using i(2) vmem unfolding hor by (auto split: if_splits)
    obtain s where s: "vw_slot vw k i = Some s" using nogap [OF F iHa i(3)] by auto
    have oc: "ds_outcome s \<noteq> Empty" "ds_outcome s \<noteq> Acked" using D(9) [OF i(1) s] i(3) by auto
    have "\<exists>j s'. i < j \<and> j \<le> horizon_of Ha us b \<and> vw_slot vw k j = Some s' \<and> ds_outcome s' = Acked \<and> slot_covers s' x"
      if c: "slot_covers s x"
    proof -
      have "overlaps addr len (ds_addr s) (ds_len s)"
        using overlaps_cover [OF c xin al(4)] sal [OF i(1) s] by (simp add: slot_aligned_def)
      then have "umin \<le> i" using low [OF F _ i(3)] s by (force simp: gap_hit_def)
      then have li: "(i, False) \<in> set l" using lmem [OF _ iHa s oc(1) c] oc(2) by simp
      have "\<exists>j. i < j \<and> j \<le> horizon_of Ha us b \<and> (j, True) \<in> set l"
      proof (cases "v < 0")
        case True
        then obtain j where "i < j" "(j, True) \<in> set l" using S li by blast
        with pos True show ?thesis unfolding hor by force
      next
        case False
        then have "i < v" using i(2) unfolding hor by simp
        then obtain j where "i < j" "j < v" "(j, True) \<in> set l" using S li False by force
        with False show ?thesis unfolding hor by auto
      qed
      with lcov show ?thesis by blast
    qed
    with s show "\<exists>s. vw_slot vw k i = Some s \<and> (slot_covers s x \<longrightarrow>
        (\<exists>j s'. i < j \<and> j \<le> horizon_of Ha us b \<and> vw_slot vw k j = Some s' \<and> ds_outcome s' = Acked \<and> slot_covers s' x))"
      by blast
  qed
qed

definition range_ok :: "('t, dlsn_slot) stream_view \<Rightarrow> 't dlsn_tracker \<Rightarrow> nat \<Rightarrow> nat \<Rightarrow> bool" where
  "range_ok vw t addr len \<longleftrightarrow>
     0 < dt_lba_size t \<and> dt_lba_size t dvd addr \<and> dt_lba_size t dvd len \<and> 0 < len \<and> addr + len < 2 ^ 64 \<and>
     (\<forall>k i s. dt_tracker t = Some k \<and> vw_base vw k \<le> i \<and> vw_slot vw k i = Some s \<longrightarrow> slot_aligned (dt_lba_size t) s)"

definition no_gaps :: gap_scan where
  "no_gaps = \<lparr>gs_umin = -1, gs_any_failed = False, gs_any_gap = False\<rparr>"

text \<open>What the scan over the unresolved slots of \<open>(F, Ha]\<close> reports.\<close>

lemma scan_report:
  fixes addr len :: nat
  assumes laws: "stream_laws st vw" and pre: "window_pre vw L k F nx Ha"
  defines "g \<equiv> scan_gaps st k addr len Ha (F + 1) no_gaps"
  shows "gs_umin g < 0 \<Longrightarrow> F < i \<Longrightarrow> i \<le> Ha \<Longrightarrow> \<not> vw_done vw k i \<Longrightarrow> \<not> gap_hit addr len (vw_slot vw k i)"
    "0 \<le> gs_umin g \<Longrightarrow> F < gs_umin g \<and> gs_umin g \<le> Ha \<and> \<not> vw_done vw k (gs_umin g) \<and> gap_hit addr len (vw_slot vw k (gs_umin g))"
    "0 \<le> gs_umin g \<Longrightarrow> F < i \<Longrightarrow> i < gs_umin g \<Longrightarrow> \<not> vw_done vw k i \<Longrightarrow> \<not> gap_hit addr len (vw_slot vw k i)"
    "gs_any_gap g \<longleftrightarrow> (\<exists>i. F < i \<and> i \<le> Ha \<and> \<not> vw_done vw k i \<and> vw_slot vw k i = None)"
    "gs_any_failed g \<longleftrightarrow> (\<exists>i s. F < i \<and> i \<le> Ha \<and> \<not> vw_done vw k i \<and> vw_slot vw k i = Some s \<and>
       overlaps addr len (ds_addr s) (ds_len s) \<and> ds_outcome s = Failed)"
proof -
  note D = window_preD [OF pre]
  let ?us = "unresolved vw k (F + 1) Ha" and ?P = "\<lambda>u. gap_hit addr len (vw_slot vw k u)"
  have g: "g = fold (\<lambda>u. note_gap addr len u (vw_slot vw k u)) ?us no_gaps"
    unfolding g_def by (rule scan_gaps_fold [OF laws D(7)])
  have "\<forall>u \<in> set ?us. 0 \<le> u" using D(1,2) by (auto simp: set_unresolved)
  note G = fold_note_gap [OF this, of addr len "vw_slot vw k" no_gaps, folded g]
  have umin: "gs_umin g = (case find ?P ?us of None \<Rightarrow> -1 | Some u \<Rightarrow> u)"
    using G(1) by (simp add: no_gaps_def split: option.split)
  have memb: "F < i \<and> i \<le> Ha \<and> \<not> vw_done vw k i \<longleftrightarrow> i \<in> set ?us" for i
    by (auto simp: set_unresolved)
  have found: "0 \<le> u" if "find ?P ?us = Some u" for u
    using find_SomeD [OF that] \<open>\<forall>u \<in> set ?us. 0 \<le> u\<close> by blast
  show "\<not> ?P i" if "gs_umin g < 0" "F < i" "i \<le> Ha" "\<not> vw_done vw k i" for i
  proof (cases "find ?P ?us")
    case None
    with that memb [of i] show ?thesis by (auto simp: find_None_iff)
  next
    case (Some u)
    with found [OF Some] umin that(1) show ?thesis by simp
  qed
  show "F < gs_umin g \<and> gs_umin g \<le> Ha \<and> \<not> vw_done vw k (gs_umin g) \<and> ?P (gs_umin g)" if "0 \<le> gs_umin g"
    using that umin memb [of "gs_umin g"] by (auto split: option.splits dest: find_SomeD)
  show "\<not> ?P i" if h: "0 \<le> gs_umin g" "F < i" "i < gs_umin g" "\<not> vw_done vw k i" for i
  proof
    assume "?P i"
    obtain u where u: "find ?P ?us = Some u" "gs_umin g = u" using h(1) umin by (cases "find ?P ?us") auto
    have "i \<in> set ?us" using h u find_SomeD [OF u(1)] by (auto simp: set_unresolved)
    from find_first [OF u(1) sorted_unresolved this \<open>?P i\<close>] h(3) u(2) show False by simp
  qed
  show "gs_any_gap g \<longleftrightarrow> (\<exists>i. F < i \<and> i \<le> Ha \<and> \<not> vw_done vw k i \<and> vw_slot vw k i = None)"
    unfolding G(2) using memb by (auto simp: no_gaps_def)
  show "gs_any_failed g \<longleftrightarrow> (\<exists>i s. F < i \<and> i \<le> Ha \<and> \<not> vw_done vw k i \<and> vw_slot vw k i = Some s \<and>
       overlaps addr len (ds_addr s) (ds_len s) \<and> ds_outcome s = Failed)"
    unfolding G(3) using memb by (auto simp: no_gaps_def)
qed

lemma compute_cases:
  fixes addr len :: nat and st :: "'t tracker_ops"
  assumes "dt_tracker t = Some k"
  defines "g \<equiv> scan_gaps st k addr len (dt_highest_acked t) (dt_frontier t + 1) no_gaps"
  shows "fst (compute st addr len t) =
    (if dt_highest_acked t \<le> dt_frontier t then one_segment addr len (max (dt_frontier t) (dt_highest_acked t))
     else if gs_umin g < 0 then one_segment addr len (dt_highest_acked t)
     else if gs_any_gap g \<or> dt_scan_cap t < dt_highest_acked t - gs_umin g then fenced (gs_any_failed g)
     else split_read st k (dt_lba_size t) addr len (dt_highest_acked t) (gs_umin g) (gs_any_failed g))"
  using assms by (simp add: compute_def Let_def no_gaps_def)

definition plan_safe :: "('t, dlsn_slot) stream_view \<Rightarrow> 't dlsn_tracker \<Rightarrow> nat \<Rightarrow> nat \<Rightarrow> read_segment list \<Rightarrow> bool" where
  "plan_safe vw t addr len segs \<longleftrightarrow>
     chain segs addr (addr + len) \<and> length segs \<le> k_max_segments \<and>
     (\<forall>g \<in> set segs. dt_frontier t \<le> sg_H g \<and> sg_H g \<le> read_horizon t \<and>
        (\<forall>k x. dt_tracker t = Some k \<and> sg_addr g \<le> x \<and> x < sg_addr g + sg_len g \<longrightarrow> safe_at vw k x (sg_H g)))"

lemma one_segment_safe:
  assumes "dt_tracker t = Some k" "0 < len" "dt_frontier t \<le> H" "H \<le> read_horizon t"
    "\<And>x. addr \<le> x \<Longrightarrow> x < addr + len \<Longrightarrow> safe_at vw k x H"
  shows "plan_safe vw t addr len (po_segs (one_segment addr len H))"
  using assms by (simp add: plan_safe_def one_segment_def k_max_segments_def)

lemma compute_safe:
  assumes laws: "stream_laws st vw" and inv: "tr_inv vw L t" and rng: "range_ok vw t addr len"
    and ne: "po_segs (fst (compute st addr len t)) \<noteq> []"
  shows "plan_safe vw t addr len (po_segs (fst (compute st addr len t)))"
proof -
  obtain k where k: "dt_tracker t = Some k" and pre: "window_pre vw L k (dt_frontier t) (dt_next t) (dt_highest_acked t)"
    using inv by (rule tr_invE)
  let ?F = "dt_frontier t" and ?Ha = "dt_highest_acked t" and ?lba = "dt_lba_size t"
  note D = window_preD [OF pre]
  have al: "0 < ?lba" "?lba dvd addr" "?lba dvd len" "addr + len < 2 ^ 64" and len: "0 < len"
    and sal: "\<And>i s. vw_base vw k \<le> i \<Longrightarrow> vw_slot vw k i = Some s \<Longrightarrow> slot_aligned ?lba s"
    using rng k unfolding range_ok_def by blast+
  let ?g = "scan_gaps st k addr len ?Ha (?F + 1) no_gaps"
  note R = scan_report [OF laws pre, of addr len]
  note cc = compute_cases [OF k, of st addr len]
  have res: "\<not> vw_done vw k i \<Longrightarrow> vw_base vw k \<le> i \<Longrightarrow> ?F < i" for i using D(12) [of i] by force
  consider (caught) "?Ha \<le> ?F" | (clear) "?F < ?Ha" "gs_umin ?g < 0"
    | (fence) "?F < ?Ha" "0 \<le> gs_umin ?g" "gs_any_gap ?g \<or> dt_scan_cap t < ?Ha - gs_umin ?g"
    | (split) "?F < ?Ha" "0 \<le> gs_umin ?g" "\<not> gs_any_gap ?g" "\<not> dt_scan_cap t < ?Ha - gs_umin ?g"
    by linarith
  then show ?thesis
  proof cases
    case caught
    then have c: "fst (compute st addr len t) = one_segment addr len (max ?F ?Ha)" using cc by simp
    have "safe_at vw k x (max ?F ?Ha)" for x
      unfolding safe_at_def using caught D(10) res by (force simp: max_def)
    then show ?thesis unfolding c using k len caught by (intro one_segment_safe) (simp_all add: read_horizon_def)
  next
    case clear
    then have c: "fst (compute st addr len t) = one_segment addr len ?Ha" using cc by simp
    have "safe_at vw k x ?Ha" if x: "addr \<le> x" "x < addr + len" for x
      unfolding safe_at_def
    proof (intro conjI allI impI)
      fix i
      assume i: "vw_base vw k \<le> i \<and> i \<le> ?Ha \<and> \<not> vw_done vw k i"
      then have "\<not> gap_hit addr len (vw_slot vw k i)" using R(1) [OF clear(2)] res by simp
      then obtain s where s: "vw_slot vw k i = Some s" "\<not> overlaps addr len (ds_addr s) (ds_len s)"
        by (auto simp: gap_hit_def split: option.splits)
      then have "\<not> slot_covers s x" using overlaps_cover [OF _ x al(4)] sal [of i s] i by (auto simp: slot_aligned_def)
      with s show "\<exists>s. vw_slot vw k i = Some s \<and> (slot_covers s x \<longrightarrow>
          (\<exists>j s'. i < j \<and> j \<le> ?Ha \<and> vw_slot vw k j = Some s' \<and> ds_outcome s' = Acked \<and> slot_covers s' x))" by blast
    qed (use D(10) in blast)
    then show ?thesis unfolding c using k len clear by (intro one_segment_safe) (simp_all add: read_horizon_def)
  next
    case fence
    then have "fst (compute st addr len t) = fenced (gs_any_failed ?g)" using cc by auto
    with ne show ?thesis by (simp add: fenced_def)
  next
    case split
    let ?n = "len div ?lba"
    define us where "us = fold (winner_step addr len ?lba ?n)
        (takeWhile (\<lambda>e. fst e \<le> ?Ha) (st_active_from st k (gs_umin ?g))) (replicate ?n (-1))"
    have c: "fst (compute st addr len t) = split_read st k ?lba addr len ?Ha (gs_umin ?g) (gs_any_failed ?g)"
      using cc split by simp
    let ?seg = "segments (horizon_of ?Ha us) addr ?lba ?n [1..<?n + 1] 0 (horizon_of ?Ha us 0) []"
    have "\<not> (?n = 0 \<or> k_max_blocks < ?n)"
    proof
      assume "?n = 0 \<or> k_max_blocks < ?n"
      then have "split_read st k ?lba addr len ?Ha (gs_umin ?g) (gs_any_failed ?g) = fenced (gs_any_failed ?g)"
        using al(1) by (simp add: split_read_def)
      with ne c show False by (simp add: fenced_def)
    qed
    then have n: "?n \<noteq> 0" "\<not> k_max_blocks < ?n" by simp_all
    have q: "split_read st k ?lba addr len ?Ha (gs_umin ?g) (gs_any_failed ?g) =
        (case ?seg of None \<Rightarrow> fenced (gs_any_failed ?g) | Some segs \<Rightarrow> \<lparr>po_segs = segs, po_failed = False\<rparr>)"
      unfolding split_read_def Let_def us_def using n al(1) by simp
    obtain segs where segs: "?seg = Some segs" and p: "po_segs (fst (compute st addr len t)) = segs"
      using ne unfolding c q by (cases ?seg) (simp_all add: fenced_def)
    have nl: "?n * ?lba = len" using al(3) by simp
    have S: "chain segs addr (addr + ?n * ?lba) \<and> length segs \<le> k_max_segments \<and>
        (\<forall>g \<in> set segs. \<exists>i j. i < j \<and> j \<le> ?n \<and> sg_addr g = addr + i * ?lba \<and> sg_len g = (j - i) * ?lba \<and>
           (\<forall>b. i \<le> b \<and> b < j \<longrightarrow> horizon_of ?Ha us b = sg_H g))"
      by (rule segments_spec [OF segs]) (use n al nl in simp_all)
    have um: "?F < gs_umin ?g" "gs_umin ?g \<le> ?Ha" using R(2) split by blast+
    have nog: "vw_slot vw k i \<noteq> None" if "?F < i" "i \<le> ?Ha" "\<not> vw_done vw k i" for i
      using that split(3) unfolding R(4) by (cases "vw_slot vw k i") auto
    note W = winner_horizon_safe [OF laws pre um(1) R(3) [OF split(2)] nog al sal us_def _ _ _ um(2)]
    have "?F \<le> sg_H g \<and> sg_H g \<le> read_horizon t \<and>
        (\<forall>k' x. dt_tracker t = Some k' \<and> sg_addr g \<le> x \<and> x < sg_addr g + sg_len g \<longrightarrow> safe_at vw k' x (sg_H g))"
      if g: "g \<in> set segs" for g
    proof -
      obtain i j where ij: "i < j" "j \<le> ?n" "sg_addr g = addr + i * ?lba" "sg_len g = (j - i) * ?lba"
          "\<And>b. i \<le> b \<Longrightarrow> b < j \<Longrightarrow> horizon_of ?Ha us b = sg_H g"
        using S g by blast
      have blk: "?F \<le> sg_H g" "sg_H g \<le> ?Ha"
        using W(2,3) [where b = i and x = "addr + i * ?lba"] ij al(1) by simp_all
      have "safe_at vw k x (sg_H g)" if x: "sg_addr g \<le> x" "x < sg_addr g + sg_len g" for x
      proof -
        define b where "b = (x - addr) div ?lba"
        have ax: "addr \<le> x" using x(1) ij(3) by linarith
        have q: "x - addr = b * ?lba + (x - addr) mod ?lba" by (simp add: b_def)
        have r: "(x - addr) mod ?lba < ?lba" using al(1) by simp
        have x1: "addr + b * ?lba \<le> x" "x < addr + (b + 1) * ?lba" using q r ax by (simp_all add: algebra_simps)
        have "i * ?lba \<le> x - addr" using x(1) ij(3) by linarith
        then have "i \<le> b" unfolding b_def using al(1) by (simp add: less_eq_div_iff_mult_less_eq)
        have "x - addr < j * ?lba"
        proof -
          have "addr + i * ?lba + (j - i) * ?lba = addr + j * ?lba" using ij(1) by (simp add: diff_mult_distrib)
          then show ?thesis using x(2) ij(3,4) ax by linarith
        qed
        then have "b < j" unfolding b_def using al(1) by (simp add: div_less_iff_less_mult)
        with W(1) [where b = b and x = x] x1 ij \<open>i \<le> b\<close> show ?thesis by simp
      qed
      with blk k show ?thesis by (auto simp: read_horizon_def)
    qed
    then show ?thesis unfolding p plan_safe_def using S nl by simp
  qed
qed

text \<open>
  A plan that stalls waits for a slot that will resolve: one that overlaps the range and is in
  flight, or one whose creation is not visible yet.
\<close>

lemma segments_nonempty:
  assumes "segments hor addr lba nblk bs s cur segs = Some r" "nblk \<in> set bs \<or> segs \<noteq> []"
  shows "r \<noteq> []"
  using assms by (induction hor addr lba nblk bs s cur segs rule: segments.induct) (auto split: if_splits)

lemma split_not_stalled:
  assumes "split_read st k lb addr len Ha u True = p"
  shows "\<not> plan_stall p"
  using assms segments_nonempty [where bs = "[1..<len div lb + 1]" and nblk = "len div lb"]
  by (auto simp: split_read_def Let_def plan_stall_def fenced_def split: option.splits if_splits)

definition awaited :: "('t, dlsn_slot) stream_view \<Rightarrow> 't dlsn_tracker \<Rightarrow> nat \<Rightarrow> nat \<Rightarrow> int \<Rightarrow> bool" where
  "awaited vw t addr len u \<longleftrightarrow> (\<exists>k. dt_tracker t = Some k \<and> dt_frontier t < u \<and> u \<le> dt_highest_acked t \<and>
     (case vw_slot vw k u of
        None \<Rightarrow> True
      | Some s \<Rightarrow> ds_outcome s = In_flight \<and> overlaps addr len (ds_addr s) (ds_len s)))"

lemma stall_awaits:
  assumes laws: "stream_laws st vw" and inv: "tr_inv vw L t" and stall: "plan_stall (fst (compute st addr len t))"
  shows "\<exists>u. awaited vw t addr len u"
proof -
  obtain k where k: "dt_tracker t = Some k" and pre: "window_pre vw L k (dt_frontier t) (dt_next t) (dt_highest_acked t)"
    using inv by (rule tr_invE)
  let ?F = "dt_frontier t" and ?Ha = "dt_highest_acked t"
  let ?g = "scan_gaps st k addr len ?Ha (?F + 1) no_gaps"
  note D = window_preD [OF pre] and R = scan_report [OF laws pre, of addr len]
  note cc = compute_cases [OF k, of st addr len]
  have lt: "?F < ?Ha" "0 \<le> gs_umin ?g"
    using stall cc by (auto simp: plan_stall_def one_segment_def split: if_splits)
  have nf: "\<not> gs_any_failed ?g"
  proof
    assume f: "gs_any_failed ?g"
    then have "fst (compute st addr len t) = fenced True \<or>
        fst (compute st addr len t) = split_read st k (dt_lba_size t) addr len ?Ha (gs_umin ?g) True"
      using cc lt by auto
    with stall split_not_stalled show False by (fastforce simp: fenced_def plan_stall_def)
  qed
  have u: "?F < gs_umin ?g" "gs_umin ?g \<le> ?Ha" "\<not> vw_done vw k (gs_umin ?g)" "gap_hit addr len (vw_slot vw k (gs_umin ?g))"
    using R(2) [OF lt(2)] by blast+
  have "awaited vw t addr len (gs_umin ?g)"
  proof (cases "vw_slot vw k (gs_umin ?g)")
    case None
    with u k show ?thesis by (simp add: awaited_def)
  next
    case (Some s)
    have b: "vw_base vw k \<le> gs_umin ?g" using u(1) D(7) by simp
    have "ds_outcome s \<noteq> Failed" using nf R(5) u Some by (auto simp: gap_hit_def)
    moreover have "\<not> is_resolved (ds_outcome s)" using D(9) [OF b Some] u(3) by simp
    ultimately have "ds_outcome s = In_flight" by (cases "ds_outcome s") simp_all
    with Some u k show ?thesis by (simp add: awaited_def gap_hit_def)
  qed
  then show ?thesis by blast
qed

section \<open>Statistics and retirement\<close>

text \<open>The statistics walk ends and reports exactly the unresolved slots.\<close>

lemma stats_loop_exact:
  assumes "stream_laws st vw" "vw_base vw k \<le> h"
  shows "stats_loop st k issued lim h cnt sample =
    Some (cnt + length (unresolved vw k h issued), sample @ take (lim - length sample) (unresolved vw k h issued))"
  using assms(2)
proof (induction "nat (issued + 1 - h)" arbitrary: h cnt sample rule: less_induct)
  case less
  let ?cu = "st_completed_upto st k h"
  note C = stream_completed [OF assms(1) less.prems] and hop = unresolved_hop [OF assms(1) less.prems, of issued]
  show ?case
  proof (cases "issued < h")
    case True
    then show ?thesis by (subst stats_loop.simps) (simp add: unresolved_def)
  next
    case False
    show ?thesis
    proof (cases "issued < ?cu + 1")
      case True
      then have "unresolved vw k h issued = []" using hop by simp
      with False True show ?thesis by (subst stats_loop.simps) (simp add: Let_def min_def)
    next
      case cu: False
      then have u: "min ?cu issued + 1 = ?cu + 1" by simp
      let ?s = "if length sample < lim then sample @ [?cu + 1] else sample"
      have IH: "stats_loop st k issued lim (?cu + 2) (cnt + 1) ?s =
          Some (cnt + 1 + length (unresolved vw k (?cu + 2) issued),
            ?s @ take (lim - length ?s) (unresolved vw k (?cu + 2) issued))"
        by (rule less.hyps) (use C(1) less.prems cu False in linarith)+
      have "stats_loop st k issued lim h cnt sample = stats_loop st k issued lim (?cu + 2) (cnt + 1) ?s"
        using False cu u by (subst stats_loop.simps) (simp add: Let_def add.commute)
      moreover have "unresolved vw k h issued = (?cu + 1) # unresolved vw k (?cu + 2) issued" using hop cu by simp
      moreover have "?s @ take (lim - length ?s) xs = sample @ take (lim - length sample) ((?cu + 1) # xs)" for xs
        by (simp add: take_Cons')
      ultimately show ?thesis using IH by simp
    qed
  qed
qed

lemma window_done_iff:
  assumes "window_pre vw L k F nx Ha" "vw_base vw k \<le> i"
  shows "vw_done vw k i \<longleftrightarrow> (\<exists>s. vw_slot vw k i = Some s \<and> is_resolved (ds_outcome s))"
  using window_preD(9,11) [OF assms(1,2)] by (cases "vw_slot vw k i") auto

text \<open>One retired slot, seen from the rest of the walk.\<close>

lemma retire_one:
  assumes laws: "stream_laws st vw" and inv: "tr_inv vw L t" and k: "dt_tracker t = Some k"
    and u: "vw_base vw k \<le> u" "vw_slot vw k u = Some s" "\<not> vw_done vw k u" and oc: "is_resolved oc"
  obtains k' where "dt_tracker (resolve st u oc t) = Some k'" "tr_inv vw L (resolve st u oc t)"
    "tracker_le vw t (resolve st u oc t)" "dt_next (resolve st u oc t) = dt_next t"
    "\<And>i. vw_base vw k' \<le> i \<Longrightarrow> vw_slot vw k' i = (if i = u then Some (s\<lparr>ds_outcome := oc\<rparr>) else vw_slot vw k i)"
    "unresolved vw k (u + 1) hi = unresolved vw k' (max (u + 1) (vw_base vw k')) hi"
proof -
  have pre: "window_pre vw L k (dt_frontier t) (dt_next t) (dt_highest_acked t)" using inv k by (auto elim: tr_invE)
  have ns: "\<not> is_resolved (ds_outcome s)" using window_preD(9) [OF pre u(1,2)] u(3) by simp
  obtain k' where *: "dt_tracker (resolve_publish st u oc t) = Some k'" "vw_base vw k \<le> vw_base vw k'"
    "\<And>i. vw_base vw k' \<le> i \<Longrightarrow> vw_slot vw k' i = (if i = u then Some (resolved_slot oc s) else vw_slot vw k i)"
    "tr_inv vw L (resolve_publish st u oc t)" "dt_next (resolve_publish st u oc t) = dt_next t"
    "\<And>i. vw_base vw k \<le> i \<Longrightarrow> i \<le> dt_frontier (resolve_publish st u oc t) \<Longrightarrow> i = u \<or> vw_done vw k i"
    by (rule resolve_publish_spec [OF laws inv k u(1,2), of oc]) blast
  have pre': "window_pre vw L k' (dt_frontier (resolve_publish st u oc t)) (dt_next t)
      (dt_highest_acked (resolve_publish st u oc t))"
    using *(1,4,5) by (auto elim: tr_invE)
  have le: "tracker_le vw t (resolve st u oc t)"
    using tracker_step_inv [OF step_publish [OF k u(1,2)] laws inv, of oc] by (simp add: resolve_def tracker_le_def)
  have same: "vw_done vw k' i = vw_done vw k i" if "vw_base vw k' \<le> i" "i \<noteq> u" for i
    using that *(2,3) window_done_iff [OF pre, of i] window_done_iff [OF pre', of i] by simp
  have low: "vw_done vw k i" if "u < i" "i < vw_base vw k'" for i
    using *(6) [of i] that u(1) window_preD(7) [OF pre'] by force
  have "unresolved vw k (u + 1) hi = unresolved vw k' (max (u + 1) (vw_base vw k')) hi"
  proof (rule strict_sorted_equal)
    show "set (unresolved vw k (u + 1) hi) = set (unresolved vw k' (max (u + 1) (vw_base vw k')) hi)"
    proof (rule set_eqI)
      fix i
      show "i \<in> set (unresolved vw k (u + 1) hi) \<longleftrightarrow> i \<in> set (unresolved vw k' (max (u + 1) (vw_base vw k')) hi)"
        unfolding set_unresolved using same [of i] low [of i] by (cases "vw_base vw k' \<le> i") auto
    qed
  qed (rule sorted_unresolved)+
  with * le show ?thesis using ns by (intro that [of k']) (simp_all add: resolve_def resolved_slot_def)
qed

lemma retire_loop_spec:
  fixes h hi :: int
  assumes laws: "stream_laws st vw" and "sorted empties" and "tr_inv vw L t" "dt_tracker t = Some k"
  defines "us \<equiv> unresolved vw k (max h (vw_base vw k)) hi"
  shows "\<exists>t' k'. retire_loop st hi empties f h (t, r) =
        Some (t', fold f (filter (\<lambda>i. vw_slot vw k i \<noteq> None \<and> i \<notin> set empties) us) r) \<and>
      dt_tracker t' = Some k' \<and> tr_inv vw L t' \<and> tracker_le vw t t' \<and> dt_next t' = dt_next t \<and>
      (\<forall>i. vw_base vw k' \<le> i \<longrightarrow> vw_slot vw k' i =
         (if i \<in> set us then map_option (\<lambda>s. s\<lparr>ds_outcome := (if i \<in> set empties then Empty else Acked)\<rparr>) (vw_slot vw k i)
          else vw_slot vw k i))"
  using assms(3,4) unfolding us_def
proof (induction "nat (hi + 1 - h)" arbitrary: h t k r rule: less_induct)
  case less
  note inv = less.prems(1) and k = less.prems(2)
  have pre: "window_pre vw L k (dt_frontier t) (dt_next t) (dt_highest_acked t)" using inv k by (auto elim: tr_invE)
  let ?h = "max h (vw_base vw k)" and ?cu = "st_completed_upto st k h"
  have cu: "st_completed_upto st k ?h = ?cu" using completed_from_base [OF laws, of k h] by simp
  note C = stream_completed [OF laws, of k ?h, unfolded cu] and hop = unresolved_hop [OF laws, of k ?h hi, unfolded cu]
  have stop: ?case if "retire_loop st hi empties f h (t, r) = Some (t, r)" "unresolved vw k ?h hi = []"
    using that inv k tracker_le_refl [OF inv] by auto
  show ?case
  proof (cases "hi < h \<or> hi < ?cu + 1")
    case True
    then have "unresolved vw k ?h hi = []"
    proof
      assume "hi < h"
      then show ?thesis by (simp add: unresolved_def)
    qed (use hop in simp)
    moreover have "retire_loop st hi empties f h (t, r) = Some (t, r)"
      using True k by (subst retire_loop.simps) (auto simp: Let_def min_def)
    ultimately show ?thesis by (rule stop [rotated])
  next
    case False
    let ?u = "?cu + 1"
    have us: "unresolved vw k ?h hi = ?u # unresolved vw k (?u + 1) hi" using hop False by (simp add: add.assoc)
    have u: "vw_base vw k \<le> ?u" "h \<le> ?u" "\<not> vw_done vw k ?u" "min ?cu hi + 1 = ?u" using C False by auto
    have at: "active_at st k ?u = vw_slot vw k ?u" by (rule active_at_view [OF laws u(1)])
    have dec: "nat (hi + 1 - (?u + 1)) < nat (hi + 1 - h)" using u(2) False by linarith
    show ?thesis
    proof (cases "vw_slot vw k ?u")
      case None
      have "retire_loop st hi empties f h (t, r) = retire_loop st hi empties f (?u + 1) (t, r)"
        using False k u at None by (subst retire_loop.simps) (simp add: Let_def)
      moreover have "max (?u + 1) (vw_base vw k) = ?u + 1" using u(1) by simp
      ultimately show ?thesis using less.hyps [OF dec inv k, of r] None unfolding us by (auto simp del: fold_simps)
    next
      case (Some s)
      let ?oc = "if ?u \<in> set empties then Empty else Acked" and ?r = "if ?u \<in> set empties then r else f ?u r"
      obtain k1 where *: "dt_tracker (resolve st ?u ?oc t) = Some k1" "tr_inv vw L (resolve st ?u ?oc t)"
        "tracker_le vw t (resolve st ?u ?oc t)" "dt_next (resolve st ?u ?oc t) = dt_next t"
        "\<And>i. vw_base vw k1 \<le> i \<Longrightarrow> vw_slot vw k1 i = (if i = ?u then Some (s\<lparr>ds_outcome := ?oc\<rparr>) else vw_slot vw k i)"
        "unresolved vw k (?u + 1) hi = unresolved vw k1 (max (?u + 1) (vw_base vw k1)) hi"
        by (rule retire_one [OF laws inv k u(1) Some u(3), of ?oc hi]) auto
      have run: "retire_loop st hi empties f h (t, r) = retire_loop st hi empties f (?u + 1) (resolve st ?u ?oc t, ?r)"
        using False k u at Some binary_search_sorted [OF assms(2), of ?u]
        by (subst retire_loop.simps) (simp add: Let_def)
      have gt: "i \<noteq> ?u \<and> vw_base vw k1 \<le> i" if "i \<in> set (unresolved vw k (?u + 1) hi)" for i
        using that unfolding *(6) set_unresolved by auto
      obtain t' k' where IH: "retire_loop st hi empties f (?u + 1) (resolve st ?u ?oc t, ?r) =
            Some (t', fold f (filter (\<lambda>i. vw_slot vw k1 i \<noteq> None \<and> i \<notin> set empties) (unresolved vw k (?u + 1) hi)) ?r)"
          "dt_tracker t' = Some k'" "tr_inv vw L t'" "tracker_le vw (resolve st ?u ?oc t) t'" "dt_next t' = dt_next t"
          "\<And>i. vw_base vw k' \<le> i \<Longrightarrow> vw_slot vw k' i =
             (if i \<in> set (unresolved vw k (?u + 1) hi)
              then map_option (\<lambda>s. s\<lparr>ds_outcome := (if i \<in> set empties then Empty else Acked)\<rparr>) (vw_slot vw k1 i)
              else vw_slot vw k1 i)"
        using less.hyps [OF dec *(2,1), of ?r] unfolding *(4,6) by blast
      have flt: "filter (\<lambda>i. vw_slot vw k1 i \<noteq> None \<and> i \<notin> set empties) (unresolved vw k (?u + 1) hi) =
          filter (\<lambda>i. vw_slot vw k i \<noteq> None \<and> i \<notin> set empties) (unresolved vw k (?u + 1) hi)"
        using gt *(5) by (intro filter_cong) auto
      have base: "vw_base vw k1 \<le> vw_base vw k'" using IH(2,4) *(1) by (auto simp: tracker_le_def)
      have "vw_slot vw k' i = (if i \<in> set (?u # unresolved vw k (?u + 1) hi)
          then map_option (\<lambda>s. s\<lparr>ds_outcome := (if i \<in> set empties then Empty else Acked)\<rparr>) (vw_slot vw k i)
          else vw_slot vw k i)" if "vw_base vw k' \<le> i" for i
        using IH(6) [OF that] *(5) [of i] base that gt [of i] Some by auto
      moreover have "tracker_le vw t t'" by (rule tracker_le_trans [OF *(3) IH(4)])
      ultimately show ?thesis using run IH(1-3,5) Some unfolding us flt by (intro exI [of _ t'] exI [of _ k']) simp
    qed
  qed
qed

section \<open>Stalled readers\<close>

text \<open>
  The tracker shared by readers and resolvers. \<open>sy_readers\<close> are the readers with their ranges, and
  \<open>sy_unsignalled\<close> counts the resolutions that are published but whose signal is still to come.
\<close>

record 't system =
  sy_tracker :: "'t dlsn_tracker"
  sy_readers :: "(nat \<times> nat \<times> reader) list"
  sy_unsignalled :: nat

fun in_gate :: "reader \<Rightarrow> bool" where
  "in_gate (R_entered ev) = True"
| "in_gate (R_parked ev) = True"
| "in_gate _ = False"

definition start_system :: "'t dlsn_tracker \<Rightarrow> (nat \<times> nat) list \<Rightarrow> 't system" where
  "start_system t ranges =
     \<lparr>sy_tracker = t, sy_readers = map (\<lambda>(addr, len). (addr, len, R_start)) ranges, sy_unsignalled = 0\<rparr>"

inductive system_step ::
  "'t tracker_ops \<Rightarrow> ('t, dlsn_slot) stream_view \<Rightarrow> 't system \<Rightarrow> 't system \<Rightarrow> bool"
  for st vw where
  sys_take: "system_step st vw s (s\<lparr>sy_tracker := snd (reserve_take (sy_tracker s))\<rparr>)"
| sys_create: "dt_tracker (sy_tracker s) = Some k \<Longrightarrow> vw_slot vw k d = None \<Longrightarrow> dt_frontier (sy_tracker s) < d \<Longrightarrow>
    d < dt_next (sy_tracker s) \<Longrightarrow>
    system_step st vw s (s\<lparr>sy_tracker := reserve_create st d addr len (sy_tracker s)\<rparr>)"
| sys_publish: "dt_tracker (sy_tracker s) = Some k \<Longrightarrow> vw_base vw k \<le> d \<Longrightarrow> vw_slot vw k d = Some sl \<Longrightarrow>
    system_step st vw s
      (s\<lparr>sy_tracker := resolve_publish st d oc (sy_tracker s), sy_unsignalled := sy_unsignalled s + 1\<rparr>)"
| sys_signal: "0 < sy_unsignalled s \<Longrightarrow>
    system_step st vw s (s\<lparr>sy_tracker := tracker_signal (sy_tracker s), sy_unsignalled := sy_unsignalled s - 1\<rparr>)"
| sys_read: "j < length (sy_readers s) \<Longrightarrow> sy_readers s ! j = (addr, len, r) \<Longrightarrow>
    plan_read_step st addr len (r, sy_tracker s) = (r', t') \<Longrightarrow>
    system_step st vw s (s\<lparr>sy_tracker := t', sy_readers := (sy_readers s)[j := (addr, len, r')]\<rparr>)"

text \<open>A slot at or below the horizon that has yet to resolve: a resolution of it is still to come.\<close>

definition in_flight_below :: "('t, dlsn_slot) stream_view \<Rightarrow> 't dlsn_tracker \<Rightarrow> int \<Rightarrow> bool" where
  "in_flight_below vw t u \<longleftrightarrow> (\<exists>k. dt_tracker t = Some k \<and> dt_frontier t < u \<and> u \<le> dt_highest_acked t \<and>
     (case vw_slot vw k u of None \<Rightarrow> True | Some s \<Rightarrow> ds_outcome s = In_flight))"

fun reader_ok :: "('t, dlsn_slot) stream_view \<Rightarrow> 't dlsn_tracker \<Rightarrow> nat \<Rightarrow> reader \<Rightarrow> bool" where
  "reader_ok vw t n (R_armed ev) \<longleftrightarrow> ev \<le> gt_cur (dt_gate t)"
| "reader_ok vw t n (R_entered ev) \<longleftrightarrow> ev \<le> gt_cur (dt_gate t)"
| "reader_ok vw t n (R_parked ev) \<longleftrightarrow> ev \<le> gt_cur (dt_gate t) \<and>
     (event_complete (dt_gate t) ev \<or> 0 < n \<or> (\<exists>u. in_flight_below vw t u))"
| "reader_ok vw t n _ \<longleftrightarrow> True"

definition waiting :: "(nat \<times> nat \<times> reader) list \<Rightarrow> nat" where
  "waiting rs = length (filter (\<lambda>r. in_gate (snd (snd r))) rs)"

definition system_inv :: "('t, dlsn_slot) stream_view \<Rightarrow> int \<Rightarrow> 't system \<Rightarrow> bool" where
  "system_inv vw L s \<longleftrightarrow> tr_inv vw L (sy_tracker s) \<and> gt_waiters (dt_gate (sy_tracker s)) = waiting (sy_readers s) \<and>
     (\<forall>r \<in> set (sy_readers s). reader_ok vw (sy_tracker s) (sy_unsignalled s) (snd (snd r)))"

lemma waiting_update:
  assumes "j < length rs"
  shows "waiting (rs[j := (addr, len, r')]) + (if in_gate (snd (snd (rs ! j))) then 1 else 0)
    = waiting rs + (if in_gate r' then 1 else 0)"
proof -
  have app: "waiting (a @ x # b) = waiting a + waiting b + (if in_gate (snd (snd x)) then 1 else 0)" for a x b
    by (simp add: waiting_def)
  show ?thesis
    unfolding upd_conv_take_nth_drop [OF assms] app
    by (subst (2) id_take_nth_drop [OF assms]) (simp add: app)
qed

lemma waiting_pos: "r \<in> set rs \<Longrightarrow> in_gate (snd (snd r)) \<Longrightarrow> 0 < waiting rs"
  unfolding waiting_def by (rule length_pos_if_in_set [of r]) simp

lemma reader_ok_mono:
  assumes "reader_ok vw t n r" "gt_cur (dt_gate t) \<le> gt_cur (dt_gate t')"
    and "n \<le> n'" "\<And>u. in_flight_below vw t u \<Longrightarrow> in_flight_below vw t' u"
  shows "reader_ok vw t' n' r"
  using assms by (cases r) (auto simp: event_complete_def)

lemma waiting_update_same:
  assumes "j < length rs" "rs ! j = (addr, len, r)" "in_gate r' = in_gate r"
  shows "waiting (rs[j := (addr, len, r')]) = waiting rs"
  using waiting_update [OF assms(1), of addr len r'] assms(2,3) by simp

lemma awaited_in_flight: "awaited vw t addr len u \<Longrightarrow> in_flight_below vw t u"
  by (auto simp: awaited_def in_flight_below_def split: option.splits)

lemma in_flight_cong:
  assumes "dt_tracker t' = dt_tracker t" "dt_frontier t' = dt_frontier t" "dt_highest_acked t' = dt_highest_acked t"
  shows "in_flight_below vw t' u = in_flight_below vw t u"
  using assms by (simp add: in_flight_below_def)

lemma set_gate_same [simp]:
  "dt_tracker (set_gate f t) = dt_tracker t" "dt_frontier (set_gate f t) = dt_frontier t"
  "dt_next (set_gate f t) = dt_next t" "dt_highest_acked (set_gate f t) = dt_highest_acked t"
  "dt_gate (set_gate f t) = f (dt_gate t)"
  by (simp_all add: set_gate_def)

lemma plan_read_step_frame:
  assumes "plan_read_step st addr len (r, t) = (r', t')"
  shows "dt_tracker t' = dt_tracker t" "dt_frontier t' = dt_frontier t" "dt_next t' = dt_next t"
    "dt_highest_acked t' = dt_highest_acked t" "gt_cur (dt_gate t') = gt_cur (dt_gate t)"
    "gt_waiters (dt_gate t') + (if in_gate r then 1 else 0) = gt_waiters (dt_gate t) + (if in_gate r' then 1 else 0) \<or>
     gt_waiters (dt_gate t) = 0 \<and> in_gate r"
  using assms
  by (cases r; auto simp: split_beta Let_def gate_enter_def gate_leave_def split: if_splits)+

lemma plan_read_step_ok:
  assumes "plan_read_step st addr len (r, t) = (r', t')" "stream_laws st vw" "tr_inv vw L t" "reader_ok vw t n r"
  shows "reader_ok vw t' n r'"
proof (cases r)
  case (R_entered ev)
  show ?thesis
  proof (cases "plan_stall (fst (compute st addr len t))")
    case True
    then have r': "r' = R_parked ev" "t' = snd (compute st addr len t)"
      using assms(1) R_entered by (auto simp: split_beta)
    obtain u where "in_flight_below vw t u" using stall_awaits [OF assms(2,3) True] awaited_in_flight by blast
    then have "in_flight_below vw t' u" by (simp add: r' in_flight_cong [of "snd (compute st addr len t)" t])
    with assms(4) R_entered show ?thesis by (auto simp: r')
  next
    case False
    then show ?thesis using assms(1) R_entered by (auto simp: split_beta)
  qed
next
  case (R_parked ev)
  with assms(1,4) show ?thesis by (auto split: if_splits)
qed (use assms in \<open>auto simp: split_beta gate_arm_def gate_enter_def split: if_splits\<close>)

lemma system_step_inv:
  assumes "system_step st vw s s'" "stream_laws st vw" "system_inv vw L s"
  shows "system_inv vw L s'"
  using assms(1)
proof cases
  case sys_take
  have "tr_inv vw L (sy_tracker s)" using assms(3) by (simp add: system_inv_def)
  then have t: "tr_inv vw L (sy_tracker s')" using reserve_take_inv sys_take by simp
  have e: "sy_tracker s' = snd (reserve_take (sy_tracker s))" "sy_readers s' = sy_readers s" "sy_unsignalled s' = sy_unsignalled s"
    using sys_take by simp_all
  have "reader_ok vw (sy_tracker s') (sy_unsignalled s') r" if "reader_ok vw (sy_tracker s) (sy_unsignalled s) r" for r
    by (rule reader_ok_mono [OF that]) (simp_all add: e reserve_take_def in_flight_below_def)
  with t assms(3) show ?thesis by (simp add: system_inv_def e(2)) (simp add: e reserve_take_def)
next
  case (sys_create k d addr len)
  have inv: "tr_inv vw L (sy_tracker s)" using assms(3) by (simp add: system_inv_def)
  have t: "tr_inv vw L (sy_tracker s')" using reserve_create_inv [OF assms(2) inv sys_create(2-5)] sys_create(1) by simp
  have e: "sy_tracker s' = reserve_create st d addr len (sy_tracker s)" "sy_readers s' = sy_readers s"
    "sy_unsignalled s' = sy_unsignalled s"
    using sys_create by simp_all
  have b: "vw_base vw k \<le> d" using inv sys_create by (auto elim!: tr_invE dest: window_preD(7))
  note c = stream_create [OF assms(2) b sys_create(3)]
  have "in_flight_below vw (sy_tracker s') u" if "in_flight_below vw (sy_tracker s) u" for u
    using that sys_create(2) by (auto simp: e reserve_create_def in_flight_below_def c)
  then have "reader_ok vw (sy_tracker s') (sy_unsignalled s') r" if "reader_ok vw (sy_tracker s) (sy_unsignalled s) r" for r
    by (intro reader_ok_mono [OF that]) (simp_all add: e reserve_create_def)
  with t assms(3) show ?thesis by (simp add: system_inv_def e(2)) (simp add: e reserve_create_def)
next
  case (sys_publish k d sl oc)
  have inv: "tr_inv vw L (sy_tracker s)" using assms(3) by (simp add: system_inv_def)
  let ?t = "resolve_publish st d oc (sy_tracker s)"
  have t: "tr_inv vw L ?t" using tracker_step_inv [OF step_publish [OF sys_publish(2-4)] assms(2) inv] by blast
  have gate: "dt_gate ?t = dt_gate (sy_tracker s)"
    by (simp add: resolve_publish_def split_beta Let_def split: option.split)
  have "reader_ok vw ?t (Suc n) r" if "reader_ok vw (sy_tracker s) n r" for n r
    using that by (cases r) (simp_all add: gate)
  with t assms(3) show ?thesis unfolding sys_publish(1) by (simp add: system_inv_def gate)
next
  case sys_signal
  let ?t = "tracker_signal (sy_tracker s)"
  have inv: "tr_inv vw L (sy_tracker s)" "gt_waiters (dt_gate (sy_tracker s)) = waiting (sy_readers s)"
    "\<forall>r \<in> set (sy_readers s). reader_ok vw (sy_tracker s) (sy_unsignalled s) (snd (snd r))"
    using assms(3) by (simp_all add: system_inv_def)
  have "reader_ok vw ?t n (snd (snd r))" if r: "r \<in> set (sy_readers s)" for n r
  proof (cases "in_gate (snd (snd r))")
    case True
    then have "0 < gt_waiters (dt_gate (sy_tracker s))" using waiting_pos [OF r] inv(2) by simp
    then have "gt_cur (dt_gate ?t) = gt_cur (dt_gate (sy_tracker s)) + 1"
      by (simp add: tracker_signal_def gate_signal_def)
    with inv(3) r True show ?thesis by (cases "snd (snd r)") (auto simp: event_complete_def)
  next
    case False
    with inv(3) r show ?thesis
      by (cases "snd (snd r)") (auto simp: tracker_signal_def gate_signal_def)
  qed
  moreover have "gt_waiters (dt_gate ?t) = gt_waiters (dt_gate (sy_tracker s))"
    by (simp add: tracker_signal_def gate_signal_def)
  ultimately show ?thesis unfolding sys_signal(1) using inv by (simp add: system_inv_def)
next
  case (sys_read j addr len r r' t')
  have inv: "tr_inv vw L (sy_tracker s)" "gt_waiters (dt_gate (sy_tracker s)) = waiting (sy_readers s)"
    "\<forall>r \<in> set (sy_readers s). reader_ok vw (sy_tracker s) (sy_unsignalled s) (snd (snd r))"
    using assms(3) by (simp_all add: system_inv_def)
  note fr = plan_read_step_frame [OF sys_read(4)]
  have mem: "(addr, len, r) \<in> set (sy_readers s)" using sys_read(2,3) nth_mem by metis
  have t: "tr_inv vw L t'" using tr_inv_cong [OF fr(1-4) inv(1)] by blast
  have own: "reader_ok vw t' (sy_unsignalled s) r'"
    by (rule plan_read_step_ok [OF sys_read(4) assms(2) inv(1)]) (use inv(3) mem in force)
  have oth: "reader_ok vw t' (sy_unsignalled s) q" if "reader_ok vw (sy_tracker s) (sy_unsignalled s) q" for q
    by (rule reader_ok_mono [OF that]) (simp_all add: fr(5) in_flight_cong [OF fr(1,2,4)])
  have "gt_waiters (dt_gate (sy_tracker s)) \<noteq> 0 \<or> \<not> in_gate r" using waiting_pos [OF mem] inv(2) by auto
  then have "gt_waiters (dt_gate t') = waiting ((sy_readers s)[j := (addr, len, r')])"
    using fr(6) waiting_update [OF sys_read(2), of addr len r'] sys_read(3) inv(2) by (auto split: if_splits)
  moreover have "\<forall>q \<in> set ((sy_readers s)[j := (addr, len, r')]). reader_ok vw t' (sy_unsignalled s) (snd (snd q))"
    using own oth inv(3) set_update_subset_insert [of "sy_readers s" j "(addr, len, r')"] by fastforce
  ultimately show ?thesis unfolding sys_read(1) using t by (simp add: system_inv_def)
qed

lemma system_steps_inv:
  assumes "(system_step st vw)\<^sup>*\<^sup>* s s'" "stream_laws st vw" "system_inv vw L s"
  shows "system_inv vw L s'"
  using assms(1,3) by (induction rule: rtranclp_induct) (use system_step_inv [OF _ assms(2)] in blast)+

lemma start_system_inv:
  assumes "tr_inv vw L t" "gt_waiters (dt_gate t) = 0"
  shows "system_inv vw L (start_system t ranges)"
  using assms by (auto simp: system_inv_def start_system_def waiting_def filter_empty_conv)

section \<open>The example tracker of the witnesses\<close>

text \<open>
  Two blocks of 512 bytes. The write of both blocks is in flight at dLSN 0, and the write of the
  first block is acknowledged at dLSN 1.
\<close>

type_synonym ex_ref = "dlsn_slot ref_tracker dlsn_tracker"

definition ex_login :: ex_ref where
  "ex_login = reset_at ref_stream (-1) 512 (make_tracker 4)"

definition ex_issued :: ex_ref where
  "ex_issued = snd (reserve ref_stream 0 512 (snd (reserve ref_stream 0 1024 ex_login)))"

definition ex_tracker :: ex_ref where
  "ex_tracker = resolve_publish ref_stream 1 Acked ex_issued"

lemma ex_login_inv: "tr_inv ref_view (-1) ex_login"
  unfolding ex_login_def by (rule reset_at_inv [OF ref_stream_laws]) simp

lemma reserve_steps:
  assumes "stream_laws st vw" "tr_inv vw L t"
  shows "(tracker_step st vw)\<^sup>*\<^sup>* t (snd (reserve st addr len t))"
proof -
  obtain k where k: "dt_tracker t = Some k" "window_pre vw L k (dt_frontier t) (dt_next t) (dt_highest_acked t)"
    using assms(2) by (rule tr_invE)
  note D = window_preD [OF k(2)]
  have "vw_slot vw k (dt_next t) = None" using D(8) [of "dt_next t"] D(4,7) by (cases "vw_slot vw k (dt_next t)") auto
  then have "tracker_step st vw (snd (reserve_take t)) (reserve_create st (dt_next t) addr len (snd (reserve_take t)))"
    by (intro step_create [of _ k]) (use k D(4) in \<open>simp_all add: reserve_take_def\<close>)
  then show ?thesis using step_take [of st vw t]
    by (auto simp: reserve_def reserve_take_def intro: converse_rtranclp_into_rtranclp)
qed

abbreviation ex_window :: "(int \<times> dlsn_slot \<times> bool) list \<Rightarrow> int \<Rightarrow> int \<Rightarrow> ex_ref" where
  "ex_window slots nx Ha \<equiv>
     \<lparr>dt_next = nx, dt_frontier = -1, dt_highest_acked = Ha, dt_last_trunc = -1, dt_winner_scans = 0,
      dt_want = -1, dt_tracker = Some \<lparr>rt_base = 0, rt_slots = slots\<rparr>, dt_gate = \<lparr>gt_cur = 0, gt_waiters = 0\<rparr>,
      dt_lba_size = 512, dt_scan_cap = 1024\<rparr>"

lemmas ex_eval = rt_keys_def rt_done_def rt_slot_def Let_def active_at_def

lemma ex_login_eq: "ex_login = ex_window [] 0 (-1)"
  by (simp add: ex_login_def reset_at_def make_tracker_def k_scan_cap_floor_def k_scan_cap_per_inflight_def)

lemma ex_issued_eq:
  "ex_issued = ex_window [(1, \<lparr>ds_addr = 0, ds_len = 512, ds_outcome = In_flight\<rparr>, False),
     (0, \<lparr>ds_addr = 0, ds_len = 1024, ds_outcome = In_flight\<rparr>, False)] 2 (-1)"
  by (simp add: ex_issued_def ex_login_eq reserve_def reserve_take_def reserve_create_def)

lemma ex_tracker_eq:
  "ex_tracker = ex_window [(1, \<lparr>ds_addr = 0, ds_len = 512, ds_outcome = Acked\<rparr>, True),
     (1, \<lparr>ds_addr = 0, ds_len = 512, ds_outcome = In_flight\<rparr>, False),
     (0, \<lparr>ds_addr = 0, ds_len = 1024, ds_outcome = In_flight\<rparr>, False)] 2 1"
  by (simp add: ex_tracker_def resolve_publish_def ex_issued_eq resolve_slot_cb_def advance_frontier_def ex_eval)

lemma ex_issued_steps: "(tracker_step ref_stream ref_view)\<^sup>*\<^sup>* ex_login ex_issued"
  unfolding ex_issued_def
  using reserve_steps [OF ref_stream_laws ex_login_inv, of 0 1024]
    reserve_steps [OF ref_stream_laws reserve_inv [OF ref_stream_laws ex_login_inv, of 0 1024], of 0 512]
  by (rule rtranclp_trans)

lemma ex_tracker_step: "tracker_step ref_stream ref_view ex_issued ex_tracker"
proof -
  have "dt_tracker ex_issued = Some \<lparr>rt_base = 0, rt_slots =
     [(1, \<lparr>ds_addr = 0, ds_len = 512, ds_outcome = In_flight\<rparr>, False), (0, \<lparr>ds_addr = 0, ds_len = 1024, ds_outcome = In_flight\<rparr>, False)]\<rparr>"
    by (simp add: ex_issued_eq)
  then show ?thesis unfolding ex_tracker_def by (rule step_publish) (simp_all add: rt_slot_def)
qed

lemma ex_tracker_steps: "(tracker_step ref_stream ref_view)\<^sup>*\<^sup>* ex_login ex_tracker"
  using ex_issued_steps ex_tracker_step by (rule rtranclp.rtrancl_into_rtrancl)

lemma ex_tracker_inv: "tr_inv ref_view (-1) ex_tracker"
  using tracker_steps_inv [OF ex_tracker_steps ref_stream_laws ex_login_inv] by blast

lemma ex_tracker_range: "range_ok ref_view ex_tracker 0 1024"
  by (auto simp: range_ok_def ex_tracker_eq rt_slot_def slot_aligned_def split: if_splits)

text \<open>A tracker on which a read stalls: dLSN 0 is taken but its slot is not created yet.\<close>

definition ex_stalled :: ex_ref where
  "ex_stalled = resolve_publish ref_stream 1 Acked (snd (reserve ref_stream 0 512 (snd (reserve_take ex_login))))"

lemma ex_stalled_eq:
  "ex_stalled = ex_window [(1, \<lparr>ds_addr = 0, ds_len = 512, ds_outcome = Acked\<rparr>, True),
     (1, \<lparr>ds_addr = 0, ds_len = 512, ds_outcome = In_flight\<rparr>, False)] 2 1"
  by (simp add: ex_stalled_def reserve_def reserve_take_def reserve_create_def ex_login_eq resolve_publish_def
      resolve_slot_cb_def advance_frontier_def ex_eval)

lemma ex_stalled_inv: "tr_inv ref_view (-1) ex_stalled"
  by (auto simp: tr_inv_def window_pre_def ex_stalled_eq rt_slot_def rt_done_def split: if_splits)

definition ex_parked :: "dlsn_slot ref_tracker system" where
  "ex_parked = \<lparr>sy_tracker = set_gate gate_enter ex_stalled, sy_readers = [(0, 512, R_parked 0)], sy_unsignalled = 0\<rparr>"

lemma ex_stalled_compute: "compute ref_stream 0 512 (set_gate f ex_stalled) = (fenced False, set_gate f ex_stalled)"
  by (simp add: ex_stalled_eq set_gate_def compute_def scan_gaps.simps ex_eval note_gap_def)

lemma ex_parked_steps: "(system_step ref_stream ref_view)\<^sup>*\<^sup>* (start_system ex_stalled [(0, 512)]) ex_parked"
proof -
  let ?s = "\<lambda>t r. \<lparr>sy_tracker = t, sy_readers = [(0, 512, r)], sy_unsignalled = 0\<rparr>"
  have step: "system_step ref_stream ref_view (?s t r) (?s t' r')"
    if "plan_read_step ref_stream 0 512 (r, t) = (r', t')" for t t' r r'
    using sys_read [of 0 "?s t r" 0 512 r ref_stream r' t' ref_view] that by simp
  have id: "set_gate (\<lambda>g. g) ex_stalled = ex_stalled" by (simp add: set_gate_def)
  have "system_step ref_stream ref_view (?s ex_stalled R_start) (?s ex_stalled R_stalled)"
    using ex_stalled_compute [of "\<lambda>g. g"] by (intro step) (simp add: id fenced_def plan_stall_def)
  moreover have "system_step ref_stream ref_view (?s ex_stalled R_stalled) (?s ex_stalled (R_armed 0))"
    by (rule step) (simp add: gate_arm_def ex_stalled_eq)
  moreover have "system_step ref_stream ref_view (?s ex_stalled (R_armed 0)) (?s (set_gate gate_enter ex_stalled) (R_entered 0))"
    by (rule step) simp
  moreover have "system_step ref_stream ref_view (?s (set_gate gate_enter ex_stalled) (R_entered 0))
      (?s (set_gate gate_enter ex_stalled) (R_parked 0))"
    by (rule step) (simp add: ex_stalled_compute fenced_def plan_stall_def)
  ultimately show ?thesis
    unfolding ex_parked_def start_system_def by (simp add: converse_rtranclp_into_rtranclp)
qed

section \<open>Properties\<close>

text \<open>C1: A read plan is safe. In every state the client's threads can reach, a plan cuts the range
  into at most eight consecutive segments that cover it exactly. Each segment's horizon lies
  between the commit frontier and the read horizon, every acknowledged write of a byte of the
  segment is at or below it, and an unresolved write at or below it that covers the byte lies
  beneath an acknowledged one: a replica serving the highest dLSN up to the horizon never
  returns a write that might not be durable.\<close>

theorem plan_read_safe:
  assumes "stream_laws st vw" "-1 \<le> L" "(tracker_step st vw)\<^sup>*\<^sup>* (reset_at st L lba t0) t"
    and "range_ok vw t addr len" "po_segs (fst (compute st addr len t)) \<noteq> []"
  shows "plan_safe vw t addr len (po_segs (fst (compute st addr len t)))"
  using tracker_steps_inv [OF assms(3,1) reset_at_inv [OF assms(1,2)]] compute_safe [OF assms(1) _ assms(4,5)] by blast

theorem plan_read_safe_witness:
  "po_segs (fst (compute ref_stream 0 1024 ex_tracker)) =
     [\<lparr>sg_addr = 0, sg_len = 512, sg_H = 1\<rparr>, \<lparr>sg_addr = 512, sg_len = 512, sg_H = -1\<rparr>] \<and>
   plan_safe ref_view ex_tracker 0 1024 (po_segs (fst (compute ref_stream 0 1024 ex_tracker)))"
proof -
  have e: "po_segs (fst (compute ref_stream 0 1024 ex_tracker)) =
      [\<lparr>sg_addr = 0, sg_len = 512, sg_H = 1\<rparr>, \<lparr>sg_addr = 512, sg_len = 512, sg_H = -1\<rparr>]"
    by (simp add: ex_tracker_eq compute_def scan_gaps.simps ex_eval note_gap_def overlaps_def split_read_def k_max_blocks_def
        winner_step_def mark_blocks_def mark_block_def horizon_of_def k_max_segments_def upt_rec)
  with plan_read_safe [OF ref_stream_laws, of "-1" 512 "make_tracker 4" ex_tracker 0 1024] ex_tracker_steps ex_tracker_range
  show ?thesis by (simp add: ex_login_def)
qed

text \<open>C3: The commit frontier is honest and final. In every reachable state each slot of the window up
  to the frontier is resolved and the next one is not; between two reachable states the
  frontier, the highest acknowledged dLSN and the next dLSN never move back, and a resolved
  slot keeps its outcome.\<close>

theorem tracker_reachable:
  assumes "stream_laws st vw" "-1 \<le> L" "(tracker_step st vw)\<^sup>*\<^sup>* (reset_at st L lba t0) t" "(tracker_step st vw)\<^sup>*\<^sup>* t t'"
  shows "\<exists>k. dt_tracker t = Some k \<and> vw_base vw k \<le> dt_frontier t + 1 \<and>
      (\<forall>i. vw_base vw k \<le> i \<and> i \<le> dt_frontier t \<longrightarrow> (\<exists>s. vw_slot vw k i = Some s \<and> is_resolved (ds_outcome s))) \<and>
      \<not> (\<exists>s. vw_slot vw k (dt_frontier t + 1) = Some s \<and> is_resolved (ds_outcome s)) \<and>
      tracker_le vw t t'"
proof -
  have inv: "tr_inv vw L t" using tracker_steps_inv [OF assms(3,1) reset_at_inv [OF assms(1,2)]] by blast
  from inv obtain k where k: "dt_tracker t = Some k" "window_pre vw L k (dt_frontier t) (dt_next t) (dt_highest_acked t)"
    "\<not> vw_done vw k (dt_frontier t + 1)" by (rule tr_invE)
  note D = window_preD [OF k(2)] and di = window_done_iff [OF k(2)]
  show ?thesis
    using k D(7,12) di tracker_steps_inv [OF assms(4,1) inv] by (intro exI [of _ k]) auto
qed

theorem tracker_reachable_witness:
  "\<exists>k. dt_tracker ex_issued = Some k \<and> vw_base ref_view k \<le> dt_frontier ex_issued + 1 \<and> tracker_le ref_view ex_issued ex_tracker"
  using tracker_reachable [OF ref_stream_laws, of "-1" 512 "make_tracker 4" ex_issued ex_tracker]
    ex_issued_steps ex_tracker_step by (fastforce simp: ex_login_def)

text \<open>C5: Retiring off a resolution round ends and is complete: the walk terminates, resolves every
  created slot up to the bound that was unresolved, as Empty when the round listed it and
  as acknowledged otherwise, leaves the others alone, and reports exactly the filled ones,
  in order, to the router.\<close>

theorem retire_upto_complete:
  assumes "stream_laws st vw" "tr_inv vw L t" "dt_tracker t = Some k" "sorted empties"
  shows "\<exists>t' k'. retire_upto st lim empties on_filled t r =
        Some (t', fold on_filled (filter (\<lambda>i. vw_slot vw k i \<noteq> None \<and> i \<notin> set empties)
                    (unresolved vw k (dt_frontier t + 1) (min lim (dt_next t - 1)))) r) \<and>
      dt_tracker t' = Some k' \<and> tr_inv vw L t' \<and> tracker_le vw t t' \<and>
      (\<forall>i s. vw_base vw k' \<le> i \<and> vw_slot vw k i = Some s \<longrightarrow> vw_slot vw k' i =
         Some (if dt_frontier t < i \<and> i \<le> lim \<and> \<not> is_resolved (ds_outcome s)
               then s\<lparr>ds_outcome := (if i \<in> set empties then Empty else Acked)\<rparr> else s))"
proof -
  have pre: "window_pre vw L k (dt_frontier t) (dt_next t) (dt_highest_acked t)" using assms(2,3) by (auto elim: tr_invE)
  note D = window_preD [OF pre]
  let ?us = "unresolved vw k (dt_frontier t + 1) (min lim (dt_next t - 1))"
  have m: "max (dt_frontier t + 1) (vw_base vw k) = dt_frontier t + 1" using D(7) by simp
  obtain t' k' where *: "retire_loop st (min lim (dt_next t - 1)) empties on_filled (dt_frontier t + 1) (t, r) =
        Some (t', fold on_filled (filter (\<lambda>i. vw_slot vw k i \<noteq> None \<and> i \<notin> set empties) ?us) r)"
      "dt_tracker t' = Some k'" "tr_inv vw L t'" "tracker_le vw t t'"
      "\<And>i. vw_base vw k' \<le> i \<Longrightarrow> vw_slot vw k' i = (if i \<in> set ?us
          then map_option (\<lambda>s. s\<lparr>ds_outcome := (if i \<in> set empties then Empty else Acked)\<rparr>) (vw_slot vw k i)
          else vw_slot vw k i)"
    using retire_loop_spec [OF assms(1,4,2,3), of "min lim (dt_next t - 1)" on_filled "dt_frontier t + 1" r] unfolding m by blast
  have base: "vw_base vw k \<le> vw_base vw k'" using *(2,4) assms(3) by (auto simp: tracker_le_def)
  have "i \<in> set ?us \<longleftrightarrow> dt_frontier t < i \<and> i \<le> lim \<and> \<not> is_resolved (ds_outcome s)"
    if "vw_base vw k' \<le> i" "vw_slot vw k i = Some s" for i s
    using that base D(8,9) [of i s] by (auto simp: set_unresolved)
  then show ?thesis using * assms(3) by (intro exI [of _ t'] exI [of _ k']) (auto simp: retire_upto_def)
qed

theorem retire_upto_complete_witness:
  "\<exists>t' k'. retire_upto ref_stream 0 [] Cons ex_tracker [] = Some (t', [0]) \<and> dt_tracker t' = Some k' \<and> tr_inv ref_view (-1) t'"
proof -
  obtain k where k: "dt_tracker ex_tracker = Some k" by (simp add: ex_tracker_eq)
  have e: "filter (\<lambda>i. vw_slot ref_view k i \<noteq> None \<and> i \<notin> set [])
      (unresolved ref_view k (dt_frontier ex_tracker + 1) (min 0 (dt_next ex_tracker - 1))) = [0]"
    using k by (auto simp: ex_tracker_eq unresolved_def ex_eval)
  have "fold Cons [0::int] [] = [0]" by simp
  with retire_upto_complete [OF ref_stream_laws ex_tracker_inv k, of "[]" 0 Cons "[]"] show ?thesis
    unfolding e by (metis sorted0)
qed

text \<open>C6: The statistics are exact. The gap-to-gap walk ends, counts the issued slots that are not
  resolved, and samples the first of them in ascending order.\<close>

theorem tracker_snapshot_exact:
  assumes "stream_laws st vw" "tr_inv vw L t" "dt_tracker t = Some k"
  shows "\<exists>s. tracker_snapshot st sample_limit t = Some s \<and> ts_issued s = dt_next t - 1 \<and>
      ts_unresolved_count s = card {i. dt_frontier t < i \<and> i < dt_next t \<and> \<not> vw_done vw k i} \<and>
      ts_unresolved_sample s = take sample_limit (filter (\<lambda>i. \<not> vw_done vw k i) [dt_frontier t + 1..dt_next t - 1])"
proof -
  have pre: "window_pre vw L k (dt_frontier t) (dt_next t) (dt_highest_acked t)" using assms(2,3) by (auto elim: tr_invE)
  let ?us = "unresolved vw k (dt_frontier t + 1) (dt_next t - 1)"
  have dis: "distinct ?us" using sorted_unresolved [of vw k "dt_frontier t + 1" "dt_next t - 1"] by (simp add: strict_sorted_iff)
  have s: "set ?us = {i. dt_frontier t < i \<and> i < dt_next t \<and> \<not> vw_done vw k i}" by (auto simp: set_unresolved)
  have c: "card {i. dt_frontier t < i \<and> i < dt_next t \<and> \<not> vw_done vw k i} = length ?us"
    unfolding s [symmetric] by (rule distinct_card [OF dis])
  have loop: "stats_loop st k (dt_next t - 1) sample_limit (dt_frontier t + 1) 0 [] = Some (length ?us, take sample_limit ?us)"
    using stats_loop_exact [OF assms(1) window_preD(7) [OF pre], of "dt_next t - 1" sample_limit 0 "[]"] by simp
  show ?thesis
    unfolding c tracker_snapshot_def Let_def assms(3) option.case loop by (simp add: unresolved_def)
qed

theorem tracker_snapshot_exact_witness:
  "\<exists>s. tracker_snapshot ref_stream 4 ex_tracker = Some s \<and> ts_unresolved_sample s = [0]"
proof -
  obtain k where k: "dt_tracker ex_tracker = Some k" by (simp add: ex_tracker_eq)
  have "take 4 (filter (\<lambda>i. \<not> vw_done ref_view k i) [dt_frontier ex_tracker + 1..dt_next ex_tracker - 1]) = [0]"
    using k upto_rec1 [of 0 1] by (auto simp: ex_tracker_eq ex_eval)
  with tracker_snapshot_exact [OF ref_stream_laws ex_tracker_inv k, of 4] show ?thesis by auto
qed

text \<open>C4: No wakeup is lost. In every interleaving of readers with threads that issue, publish and
  signal, a reader parked on an event that is not complete, when no signal is still owed,
  waits for a slot that is in flight, so a resolution of it is still to come; and the next
  signal completes the reader's event.\<close>

theorem no_lost_wakeup:
  assumes "stream_laws st vw" "tr_inv vw L t" "gt_waiters (dt_gate t) = 0"
    and "(system_step st vw)\<^sup>*\<^sup>* (start_system t ranges) s"
    and "(addr, len, R_parked ev) \<in> set (sy_readers s)" "\<not> event_complete (dt_gate (sy_tracker s)) ev"
  shows "(sy_unsignalled s = 0 \<longrightarrow> (\<exists>u. in_flight_below vw (sy_tracker s) u)) \<and>
    event_complete (dt_gate (tracker_signal (sy_tracker s))) ev"
proof -
  have inv: "system_inv vw L s" by (rule system_steps_inv [OF assms(4,1) start_system_inv [OF assms(2,3)]])
  then have ok: "reader_ok vw (sy_tracker s) (sy_unsignalled s) (R_parked ev)"
    and w: "gt_waiters (dt_gate (sy_tracker s)) = waiting (sy_readers s)"
    using assms(5) by (force simp: system_inv_def)+
  have "0 < gt_waiters (dt_gate (sy_tracker s))" using waiting_pos [OF assms(5)] w by simp
  with ok assms(6) show ?thesis by (auto simp: tracker_signal_def gate_signal_def event_complete_def)
qed

theorem no_lost_wakeup_witness:
  "(\<exists>u. in_flight_below ref_view (sy_tracker ex_parked) u) \<and> event_complete (dt_gate (tracker_signal (sy_tracker ex_parked))) 0"
  using no_lost_wakeup [OF ref_stream_laws ex_stalled_inv _ ex_parked_steps, of 0 512 0]
  by (simp add: ex_parked_def ex_stalled_eq event_complete_def gate_enter_def)

end
