(* ===== verification/RouteMap.thy ===== *)
theory RouteMap
  imports SlotStream Types
begin

text \<open>
  The client's read router (\<open>src/read_route_map.hpp\<close>): who holds what. Above the folded frontier a
  slot window carries the holder bitset of every dLSN; below it each member has a map from
  byte ranges to the dLSN it is known to miss.

  The window is a \<open>sisl::StreamTracker\<close> (\<open>SlotStream\<close>). The per-member map is a
  \<open>boost::icl::interval_map\<close>, also another library's code: its operations are the argument
  \<open>icl_ops\<close> and its documented behaviour is \<open>icl_laws\<close>, stated on the function from bytes to
  values the map represents.
\<close>

section \<open>Interval maps\<close>

record 'm icl_ops =
  im_none :: 'm
  im_set :: "nat \<times> nat \<Rightarrow> int \<Rightarrow> 'm \<Rightarrow> 'm"
  im_erase :: "nat \<times> nat \<Rightarrow> 'm \<Rightarrow> 'm"
  im_intersects :: "'m \<Rightarrow> nat \<times> nat \<Rightarrow> bool"
  im_segments :: "'m \<Rightarrow> ((nat \<times> nat) \<times> int) list"
  im_is_empty :: "'m \<Rightarrow> bool"

definition in_ivl :: "nat \<times> nat \<Rightarrow> nat \<Rightarrow> bool" where
  "in_ivl iv x \<longleftrightarrow> fst iv \<le> x \<and> x < snd iv"

definition icl_laws :: "'m icl_ops \<Rightarrow> ('m \<Rightarrow> nat \<Rightarrow> int option) \<Rightarrow> bool" where
  "icl_laws im look \<longleftrightarrow>
     (\<forall>x. look (im_none im) x = None) \<and>
     (\<forall>iv d m x. look (im_set im iv d m) x = (if in_ivl iv x then Some d else look m x)) \<and>
     (\<forall>iv m x. look (im_erase im iv m) x = (if in_ivl iv x then None else look m x)) \<and>
     (\<forall>m iv. im_intersects im m iv \<longleftrightarrow> (\<exists>x. in_ivl iv x \<and> look m x \<noteq> None)) \<and>
     (\<forall>m x d. look m x = Some d \<longleftrightarrow> (\<exists>iv. (iv, d) \<in> set (im_segments im m) \<and> in_ivl iv x)) \<and>
     (\<forall>m. im_is_empty im m \<longleftrightarrow> (\<forall>x. look m x = None))"

section \<open>State\<close>

unbundle bit_operations_syntax

record route_slot =
  rl_dlsn :: int
  rl_addr :: nat
  rl_len :: nat
  rl_holders :: "64 word"
  rl_completed :: "64 word"
  rl_verdict :: nat

record pending_miss =
  pm_dlsn :: int
  pm_held :: "64 word"
  pm_addr :: nat
  pm_len :: nat

record ('o, 'm) read_route_map =
  rm_overlay :: "'o option"
  rm_miss :: "'m list"
  rm_synced :: "int list"
  rm_ka_inflight :: "bool list"
  rm_rr_inflight :: "bool list"
  rm_pending :: "pending_miss list"
  rm_pending_hint :: int
  rm_n :: nat
  rm_quorum :: nat
  rm_login_dlsn :: int
  rm_all_committed :: int
  rm_folded :: int
  rm_last_trunc :: int
  rm_all_mask :: "64 word"

type_synonym 'o overlay_ops = "('o, route_slot, pending_miss list \<times> int) stream_ops"

definition kNever :: int where "kNever = 2 ^ 63 - 1"
definition route_trunc_batch :: int where "route_trunc_batch = 512"
definition k_unsynced :: int where "k_unsynced = -1"
definition k_max_members :: nat where "k_max_members = 16"

definition bit_of :: "nat \<Rightarrow> 64 word" where
  "bit_of i = push_bit i 1"

definition mask_of :: "nat \<Rightarrow> 64 word" where
  "mask_of n = (if 64 \<le> n then NOT 0 else push_bit n 1 - 1)"

definition popcount :: "64 word \<Rightarrow> nat" where
  "popcount w = length (filter (bit w) [0..<64])"

definition route_overlaps :: "nat \<Rightarrow> nat \<Rightarrow> nat \<Rightarrow> nat \<Rightarrow> bool" where
  "route_overlaps a0 l0 a1 l1 \<longleftrightarrow> a0 < u64 (a1 + l1) \<and> a1 < u64 (a0 + l0)"

definition byte_ivl :: "nat \<Rightarrow> nat \<Rightarrow> nat \<times> nat" where
  "byte_ivl a l = (a, u64 (a + l))"

definition make_route_map :: "'m icl_ops \<Rightarrow> ('o, 'm) read_route_map" where
  "make_route_map im =
     \<lparr>rm_overlay = None, rm_miss = replicate k_max_members (im_none im), rm_synced = replicate k_max_members 0,
      rm_ka_inflight = replicate k_max_members False, rm_rr_inflight = replicate k_max_members False,
      rm_pending = [], rm_pending_hint = kNever, rm_n = 0, rm_quorum = 1, rm_login_dlsn = -1,
      rm_all_committed = -1, rm_folded = -1, rm_last_trunc = -1, rm_all_mask = 0\<rparr>"

section \<open>Operations\<close>

text \<open>\<open>over n f xs\<close> applies \<open>f i\<close> to the first \<open>n\<close> entries of an array.\<close>

definition over :: "nat \<Rightarrow> (nat \<Rightarrow> 'a \<Rightarrow> 'a) \<Rightarrow> 'a list \<Rightarrow> 'a list" where
  "over n f xs = fold (\<lambda>i ys. ys[i := f i (ys ! i)]) [0..<n] xs"

definition route_reset ::
  "'o overlay_ops \<Rightarrow> 'm icl_ops \<Rightarrow> nat \<Rightarrow> int \<Rightarrow> ('o, 'm) read_route_map \<Rightarrow> ('o, 'm) read_route_map" where
  "route_reset st im n login_dlsn m =
     m\<lparr>rm_n := n, rm_quorum := n div 2 + 1, rm_all_mask := mask_of n, rm_login_dlsn := login_dlsn,
       rm_miss := over n (\<lambda>_ _. im_none im) (rm_miss m),
       rm_synced := over n (\<lambda>_ _. k_unsynced) (rm_synced m),
       rm_ka_inflight := over n (\<lambda>_ _. False) (rm_ka_inflight m),
       rm_rr_inflight := over n (\<lambda>_ _. False) (rm_rr_inflight m),
       rm_all_committed := k_unsynced, rm_pending := [], rm_pending_hint := kNever,
       rm_folded := login_dlsn, rm_last_trunc := login_dlsn,
       rm_overlay := Some (st_emplace st login_dlsn)\<rparr>"

definition route_create ::
  "'o overlay_ops \<Rightarrow> int \<Rightarrow> nat \<Rightarrow> nat \<Rightarrow> ('o, 'm) read_route_map \<Rightarrow> ('o, 'm) read_route_map" where
  "route_create st d addr len m =
     m\<lparr>rm_overlay := map_option (st_create st d
         \<lparr>rl_dlsn = d, rl_addr = addr, rl_len = len, rl_holders = 0, rl_completed = 0, rl_verdict = 0\<rparr>) (rm_overlay m)\<rparr>"

text \<open>Handing a slot over to the fold: the entry is queued and the hint lowered to it.\<close>

definition hand_over :: "route_slot \<Rightarrow> 64 word \<Rightarrow> pending_miss list \<times> int \<Rightarrow> pending_miss list \<times> int" where
  "hand_over s held q =
     (fst q @ [\<lparr>pm_dlsn = rl_dlsn s, pm_held = held, pm_addr = rl_addr s, pm_len = rl_len s\<rparr>], min (rl_dlsn s) (snd q))"

definition completion_cb ::
  "64 word \<Rightarrow> nat \<Rightarrow> 64 word \<Rightarrow> bool \<Rightarrow> route_slot \<Rightarrow> pending_miss list \<times> int
     \<Rightarrow> route_slot \<times> bool \<times> (pending_miss list \<times> int)" where
  "completion_cb all_mask q b acked s p =
     (let held = (if acked then rl_holders s OR b else rl_holders s);
          nc = rl_completed s OR b;
          s' = s\<lparr>rl_holders := held, rl_completed := nc\<rparr>
      in if nc \<noteq> all_mask then (s', False, p)
         else (s', True, if q \<le> popcount held \<and> held \<noteq> all_mask then hand_over s' held p else p))"

definition with_overlay ::
  "('o \<Rightarrow> pending_miss list \<times> int \<Rightarrow> 'o \<times> pending_miss list \<times> int) \<Rightarrow> ('o, 'm) read_route_map \<Rightarrow> ('o, 'm) read_route_map" where
  "with_overlay f m =
     (case rm_overlay m of
        None \<Rightarrow> m
      | Some ov \<Rightarrow> let (ov', pend, hint) = f ov (rm_pending m, rm_pending_hint m)
                  in m\<lparr>rm_overlay := Some ov', rm_pending := pend, rm_pending_hint := hint\<rparr>)"

definition record_completion ::
  "'o overlay_ops \<Rightarrow> int \<Rightarrow> nat \<Rightarrow> bool \<Rightarrow> ('o, 'm) read_route_map \<Rightarrow> ('o, 'm) read_route_map" where
  "record_completion st d idx acked m =
     with_overlay (st_update st d (completion_cb (rm_all_mask m) (rm_quorum m) (bit_of idx) acked)) m"

definition filled_cb ::
  "64 word \<Rightarrow> 64 word \<Rightarrow> route_slot \<Rightarrow> pending_miss list \<times> int \<Rightarrow> route_slot \<times> bool \<times> (pending_miss list \<times> int)" where
  "filled_cb all_mask lb s p =
     (let held = rl_holders s OR lb;
          s' = s\<lparr>rl_holders := held, rl_verdict := 1\<rparr>
      in (s', False, if held \<noteq> all_mask then hand_over s' held p else p))"

definition note_filled :: "'o overlay_ops \<Rightarrow> int \<Rightarrow> nat \<Rightarrow> ('o, 'm) read_route_map \<Rightarrow> ('o, 'm) read_route_map" where
  "note_filled st d leader_idx m = with_overlay (st_update st d (filled_cb (rm_all_mask m) (bit_of leader_idx))) m"

definition maybe_truncate :: "'o overlay_ops \<Rightarrow> int \<Rightarrow> ('o, 'm) read_route_map \<Rightarrow> ('o, 'm) read_route_map" where
  "maybe_truncate st target m =
     (if route_trunc_batch \<le> target - rm_last_trunc m
      then m\<lparr>rm_last_trunc := target, rm_overlay := map_option (st_truncate st target) (rm_overlay m)\<rparr> else m)"

definition advance_folded :: "int \<Rightarrow> ('o, 'm) read_route_map \<Rightarrow> ('o, 'm) read_route_map" where
  "advance_folded target m = m\<lparr>rm_folded := max (rm_folded m) target\<rparr>"

definition apply_miss :: "'m icl_ops \<Rightarrow> nat \<Rightarrow> pending_miss \<Rightarrow> 'm list \<Rightarrow> 'm list" where
  "apply_miss im n e miss =
     over n (\<lambda>i. if pm_held e AND bit_of i \<noteq> 0 then im_erase im (byte_ivl (pm_addr e) (pm_len e))
                 else im_set im (byte_ivl (pm_addr e) (pm_len e)) (pm_dlsn e)) miss"

text \<open>
  The slow path re-reads the frontier and the target under the fold lock; nothing moves between
  the two reads here. \<open>fold_batch\<close> are the entries it applies, in the order it applies them.
\<close>

definition fold_target :: "'o overlay_ops \<Rightarrow> int \<Rightarrow> ('o, 'm) read_route_map \<Rightarrow> int" where
  "fold_target st F m =
     (case rm_overlay m of None \<Rightarrow> rm_folded m | Some ov \<Rightarrow> min F (st_completed_upto st ov (rm_folded m + 1)))"

definition fold_batch :: "int \<Rightarrow> ('o, 'm) read_route_map \<Rightarrow> pending_miss list" where
  "fold_batch target m = sort_key pm_dlsn (filter (\<lambda>e. pm_dlsn e \<le> target) (rm_pending m))"

definition fold_to :: "'o overlay_ops \<Rightarrow> 'm icl_ops \<Rightarrow> int \<Rightarrow> ('o, 'm) read_route_map \<Rightarrow> ('o, 'm) read_route_map" where
  "fold_to st im F m =
     (if F \<le> rm_folded m then m
      else let target = fold_target st F m in
        if target \<le> rm_folded m then m
        else if target < rm_pending_hint m then maybe_truncate st target (advance_folded target m)
        else let keep = filter (\<lambda>e. target < pm_dlsn e) (rm_pending m);
                 m1 = m\<lparr>rm_pending := keep,
                        rm_pending_hint := fold (\<lambda>e h. min h (pm_dlsn e)) keep kNever,
                        rm_miss := fold (apply_miss im (rm_n m)) (fold_batch target m) (rm_miss m)\<rparr>
             in maybe_truncate st target (advance_folded target m1))"

definition slot_durable :: "nat \<Rightarrow> route_slot \<Rightarrow> bool" where
  "slot_durable q s \<longleftrightarrow> q \<le> popcount (rl_holders s) \<or> rl_verdict s \<noteq> 0"

definition eligible ::
  "'o overlay_ops \<Rightarrow> 'm icl_ops \<Rightarrow> nat \<Rightarrow> nat \<Rightarrow> nat \<Rightarrow> int \<Rightarrow> ('o, 'm) read_route_map \<Rightarrow> bool" where
  "eligible st im idx addr len Hmax m =
     (if rm_synced m ! idx < rm_login_dlsn m then False
      else if im_intersects im (rm_miss m ! idx) (byte_ivl addr len) then False
      else case rm_overlay m of
        None \<Rightarrow> True
      | Some ov \<Rightarrow>
          list_all (\<lambda>e. \<not> (slot_durable (rm_quorum m) (snd e) \<and>
                          route_overlaps addr len (rl_addr (snd e)) (rl_len (snd e)) \<and>
                          rl_holders (snd e) AND bit_of idx = 0))
            (takeWhile (\<lambda>e. fst e \<le> Hmax) (st_active_from st ov (rm_folded m + 1))))"

definition min_synced :: "nat \<Rightarrow> int list \<Rightarrow> int" where
  "min_synced n synced = fold (\<lambda>i fl. min fl (synced ! i)) [1..<n] (synced ! 0)"

definition advance_synced :: "'m icl_ops \<Rightarrow> nat \<Rightarrow> int \<Rightarrow> ('o, 'm) read_route_map \<Rightarrow> ('o, 'm) read_route_map" where
  "advance_synced im idx C m =
     (if C \<le> rm_synced m ! idx then m
      else let synced = (rm_synced m)[idx := C];
               drop = map fst (filter (\<lambda>seg. snd seg \<le> C) (im_segments im (rm_miss m ! idx)))
           in m\<lparr>rm_synced := synced, rm_all_committed := min_synced (rm_n m) synced,
                rm_miss := (rm_miss m)[idx := fold (im_erase im) drop (rm_miss m ! idx)]\<rparr>)"

definition try_begin_keepalive :: "nat \<Rightarrow> ('o, 'm) read_route_map \<Rightarrow> bool \<times> ('o, 'm) read_route_map" where
  "try_begin_keepalive idx m = (\<not> rm_ka_inflight m ! idx, m\<lparr>rm_ka_inflight := (rm_ka_inflight m)[idx := True]\<rparr>)"

definition end_keepalive :: "nat \<Rightarrow> ('o, 'm) read_route_map \<Rightarrow> ('o, 'm) read_route_map" where
  "end_keepalive idx m = m\<lparr>rm_ka_inflight := (rm_ka_inflight m)[idx := False]\<rparr>"

definition try_begin_resolution :: "nat \<Rightarrow> ('o, 'm) read_route_map \<Rightarrow> bool \<times> ('o, 'm) read_route_map" where
  "try_begin_resolution idx m = (\<not> rm_rr_inflight m ! idx, m\<lparr>rm_rr_inflight := (rm_rr_inflight m)[idx := True]\<rparr>)"

definition end_resolution :: "nat \<Rightarrow> ('o, 'm) read_route_map \<Rightarrow> ('o, 'm) read_route_map" where
  "end_resolution idx m = m\<lparr>rm_rr_inflight := (rm_rr_inflight m)[idx := False]\<rparr>"

definition caught_up :: "'m icl_ops \<Rightarrow> nat \<Rightarrow> ('o, 'm) read_route_map \<Rightarrow> bool" where
  "caught_up im idx m \<longleftrightarrow> \<not> rm_synced m ! idx < rm_login_dlsn m \<and> im_is_empty im (rm_miss m ! idx)"

section \<open>Bitsets and arrays\<close>

lemma bit_bit_of [simp]: "bit (bit_of i) j \<longleftrightarrow> i = j \<and> j < 64"
  by (auto simp: bit_of_def bit_exp_iff)

lemma and_bit_of [simp]: "i < 64 \<Longrightarrow> w AND bit_of i = 0 \<longleftrightarrow> \<not> bit w i"
  unfolding bit_eq_iff [of "w AND bit_of i"] by (simp add: bit_and_iff) blast

lemma bit_mask_of [simp]: "bit (mask_of n) j \<longleftrightarrow> j < n \<and> j < 64"
proof (cases "64 \<le> n")
  case True
  then show ?thesis by (auto simp: mask_of_def bit_not_iff)
next
  case False
  have "push_bit n 1 - 1 = (mask n :: 64 word)" by (simp add: mask_eq_exp_minus_1 push_bit_of_1)
  with False show ?thesis by (auto simp: mask_of_def bit_mask_iff)
qed

text \<open>\<open>bits_le a b\<close>: the members of bitset \<open>a\<close> are members of \<open>b\<close>.\<close>

definition bits_le :: "64 word \<Rightarrow> 64 word \<Rightarrow> bool" where
  "bits_le a b \<longleftrightarrow> (\<forall>i. bit a i \<longrightarrow> bit b i)"

lemma bits_le_refl [simp]: "bits_le a a" and bits_le_or [simp]: "bits_le a (a OR b)"
  and bits_le_trans: "bits_le a b \<Longrightarrow> bits_le b c \<Longrightarrow> bits_le a c"
  by (auto simp: bits_le_def bit_or_iff)

lemma bits_le_antisym: "bits_le a b \<Longrightarrow> bits_le b a \<Longrightarrow> a = b"
  by (auto simp: bits_le_def bit_eq_iff)

lemma popcount_mono: "bits_le a b \<Longrightarrow> popcount a \<le> popcount b"
proof -
  assume "bits_le a b"
  then have "set (filter (bit a) [0..<64]) \<subseteq> set (filter (bit b) [0..<64])" by (auto simp: bits_le_def)
  then have "card (set (filter (bit a) [0..<64])) \<le> card (set (filter (bit b) [0..<64]))" by (intro card_mono) auto
  moreover have "popcount w = card (set (filter (bit w) [0..<64]))" for w
    unfolding popcount_def by (rule distinct_card [symmetric]) simp
  ultimately show ?thesis by simp
qed

lemma length_over [simp]: "length (over n f xs) = length xs"
proof -
  have "length (fold (\<lambda>i ys. ys[i := f i (ys ! i)]) is xs) = length xs" for "is"
    by (induction "is" arbitrary: xs) simp_all
  then show ?thesis by (simp add: over_def)
qed

lemma nth_over:
  assumes "i < length xs"
  shows "over n f xs ! i = (if i < n then f i (xs ! i) else xs ! i)"
proof -
  have "fold (\<lambda>i ys. ys[i := f i (ys ! i)]) js xs ! i = (if i \<in> set js then f i (xs ! i) else xs ! i)"
    if "distinct js" "i < length xs" for js xs
    using that
  proof (induction js arbitrary: xs)
    case (Cons c js)
    then show ?case by (cases "c = i") (simp_all add: nth_list_update)
  qed simp
  from this [of "[0..<n]" xs] assms show ?thesis by (simp add: over_def)
qed

section \<open>One member's missing map\<close>

definition miss_covers :: "pending_miss \<Rightarrow> nat \<Rightarrow> bool" where
  "miss_covers e x \<longleftrightarrow> in_ivl (byte_ivl (pm_addr e) (pm_len e)) x"

text \<open>
  What member \<open>i\<close>'s map says after the entries \<open>A\<close> were applied. A byte marked with \<open>d\<close> has no entry
  above \<open>d\<close>. On an unmarked byte, every entry the member did not hold is at or below the
  commit LSN it has reported, or lies beneath an entry that it holds.
\<close>

definition miss_ok :: "('m \<Rightarrow> nat \<Rightarrow> int option) \<Rightarrow> pending_miss list \<Rightarrow> nat \<Rightarrow> int \<Rightarrow> 'm \<Rightarrow> bool" where
  "miss_ok look A i syn mi \<longleftrightarrow>
     (\<forall>x d e. look mi x = Some d \<and> e \<in> set A \<and> miss_covers e x \<longrightarrow> pm_dlsn e \<le> d) \<and>
     (\<forall>x e. look mi x = None \<and> e \<in> set A \<and> miss_covers e x \<and> \<not> bit (pm_held e) i \<longrightarrow>
        pm_dlsn e \<le> syn \<or> (\<exists>e' \<in> set A. miss_covers e' x \<and> pm_dlsn e \<le> pm_dlsn e' \<and> bit (pm_held e') i))"

lemma icl_lawsD:
  assumes "icl_laws im look"
  shows "look (im_none im) x = None"
    "look (im_set im iv d m) x = (if in_ivl iv x then Some d else look m x)"
    "look (im_erase im iv m) x = (if in_ivl iv x then None else look m x)"
    "im_intersects im m iv \<longleftrightarrow> (\<exists>x. in_ivl iv x \<and> look m x \<noteq> None)"
    "look m x = Some d \<longleftrightarrow> (\<exists>iv. (iv, d) \<in> set (im_segments im m) \<and> in_ivl iv x)"
    "im_is_empty im m \<longleftrightarrow> (\<forall>x. look m x = None)"
  using assms unfolding icl_laws_def by - ((elim conjE, (drule spec)+, assumption)+)

lemma miss_ok_apply:
  assumes laws: "icl_laws im look" and ok: "miss_ok look A i syn mi" and le: "\<forall>e' \<in> set A. pm_dlsn e' \<le> pm_dlsn e"
  shows "miss_ok look (A @ [e]) i syn
    (if bit (pm_held e) i then im_erase im (byte_ivl (pm_addr e) (pm_len e)) mi
     else im_set im (byte_ivl (pm_addr e) (pm_len e)) (pm_dlsn e) mi)"
  using ok le unfolding miss_ok_def
  by (auto simp: icl_lawsD(2,3) [OF laws] miss_covers_def split: if_splits; blast)

lemma miss_ok_batch:
  assumes "icl_laws im look" "miss_ok look A i syn mi"
    and "sorted (map pm_dlsn es)" "\<forall>e \<in> set A. \<forall>e' \<in> set es. pm_dlsn e \<le> pm_dlsn e'"
  shows "miss_ok look (A @ es) i syn
    (fold (\<lambda>e mi. if bit (pm_held e) i then im_erase im (byte_ivl (pm_addr e) (pm_len e)) mi
                  else im_set im (byte_ivl (pm_addr e) (pm_len e)) (pm_dlsn e) mi) es mi)"
  using assms(2-4)
proof (induction es arbitrary: A mi)
  case (Cons e es)
  let ?mi = "if bit (pm_held e) i then im_erase im (byte_ivl (pm_addr e) (pm_len e)) mi
    else im_set im (byte_ivl (pm_addr e) (pm_len e)) (pm_dlsn e) mi"
  have "miss_ok look (A @ [e]) i syn ?mi" by (rule miss_ok_apply [OF assms(1) Cons.prems(1)]) (use Cons.prems(3) in simp)
  from Cons.IH [OF this] Cons.prems(2,3) show ?case by auto
qed simp

lemma fold_erase:
  assumes "icl_laws im look"
  shows "look (fold (im_erase im) ivs mi) x = (if \<exists>iv \<in> set ivs. in_ivl iv x then None else look mi x)"
  by (induction ivs arbitrary: mi) (auto simp: icl_lawsD(3) [OF assms])

lemma miss_ok_synced:
  assumes laws: "icl_laws im look" and ok: "miss_ok look A i syn mi" and "syn \<le> C"
  shows "miss_ok look A i C (fold (im_erase im) (map fst (filter (\<lambda>seg. snd seg \<le> C) (im_segments im mi))) mi)"
proof -
  let ?ivs = "map fst (filter (\<lambda>seg. snd seg \<le> C) (im_segments im mi))"
  have hit: "(\<exists>iv \<in> set ?ivs. in_ivl iv x) \<longleftrightarrow> (\<exists>d. look mi x = Some d \<and> d \<le> C)" for x
    unfolding icl_lawsD(5) [OF laws] by force
  have look': "look (fold (im_erase im) ?ivs mi) x = (case look mi x of None \<Rightarrow> None | Some d \<Rightarrow> if d \<le> C then None else Some d)" for x
    unfolding fold_erase [OF laws] hit by (auto split: option.split)
  show ?thesis
    unfolding miss_ok_def look'
  proof (intro conjI allI impI)
    fix x d e
    assume "(case look mi x of None \<Rightarrow> None | Some d \<Rightarrow> if d \<le> C then None else Some d) = Some d \<and> e \<in> set A \<and> miss_covers e x"
    then show "pm_dlsn e \<le> d" using ok unfolding miss_ok_def by (auto split: option.splits if_splits)
  next
    fix x e
    assume h: "(case look mi x of None \<Rightarrow> None | Some d \<Rightarrow> if d \<le> C then None else Some d) = None \<and>
      e \<in> set A \<and> miss_covers e x \<and> \<not> bit (pm_held e) i"
    show "pm_dlsn e \<le> C \<or> (\<exists>e' \<in> set A. miss_covers e' x \<and> pm_dlsn e \<le> pm_dlsn e' \<and> bit (pm_held e') i)"
    proof (cases "look mi x")
      case None
      with h ok assms(3) show ?thesis unfolding miss_ok_def by force
    next
      case (Some d)
      then have "d \<le> C" using h by (simp split: if_splits)
      moreover have "pm_dlsn e \<le> d" using ok h Some unfolding miss_ok_def by blast
      ultimately show ?thesis by simp
    qed
  qed
qed

section \<open>Histories of a session\<close>

text \<open>
  The states a session's router can reach, with their history: \<open>H\<close> gives every slot created so far
  its latest contents, also after the window has dropped it, \<open>A\<close> lists the entries folded
  into the maps, and \<open>R\<close> the commit LSNs the members have reported, latest first. Members complete a slot once; a slot is filled by a resolution round only
  while it is above the folded frontier, because the round retires unresolved slots.
\<close>

definition fresh_slot :: "int \<Rightarrow> nat \<Rightarrow> nat \<Rightarrow> route_slot" where
  "fresh_slot d addr len =
     \<lparr>rl_dlsn = d, rl_addr = addr, rl_len = len, rl_holders = 0, rl_completed = 0, rl_verdict = 0\<rparr>"

definition folded_entries :: "'o overlay_ops \<Rightarrow> int \<Rightarrow> ('o, 'm) read_route_map \<Rightarrow> pending_miss list" where
  "folded_entries st F m =
     (let target = fold_target st F m in
      if F \<le> rm_folded m \<or> target \<le> rm_folded m \<or> target < rm_pending_hint m then [] else fold_batch target m)"

inductive route_run ::
  "'o overlay_ops \<Rightarrow> 'm icl_ops \<Rightarrow> nat \<Rightarrow> int \<Rightarrow> ('o, 'm) read_route_map \<Rightarrow> (int \<rightharpoonup> route_slot) \<Rightarrow> pending_miss list
     \<Rightarrow> (nat \<times> int) list \<Rightarrow> bool"
  for st im n L where
  run_reset: "route_run st im n L (route_reset st im n L (make_route_map im)) (\<lambda>_. None) [] []"
| run_create: "route_run st im n L m H A R \<Longrightarrow> H d = None \<Longrightarrow> rm_folded m < d \<Longrightarrow> d < kNever \<Longrightarrow> addr + len < 2 ^ 64 \<Longrightarrow>
    route_run st im n L (route_create st d addr len m) (H(d \<mapsto> fresh_slot d addr len)) A R"
| run_complete: "route_run st im n L m H A R \<Longrightarrow> H d = Some s \<Longrightarrow> idx < n \<Longrightarrow> \<not> bit (rl_completed s) idx \<Longrightarrow>
    route_run st im n L (record_completion st d idx acked m)
      (H(d \<mapsto> fst (completion_cb (rm_all_mask m) (rm_quorum m) (bit_of idx) acked s (rm_pending m, rm_pending_hint m)))) A R"
| run_filled: "route_run st im n L m H A R \<Longrightarrow> H d = Some s \<Longrightarrow> idx < n \<Longrightarrow> rm_folded m < d \<Longrightarrow>
    route_run st im n L (note_filled st d idx m)
      (H(d \<mapsto> fst (filled_cb (rm_all_mask m) (bit_of idx) s (rm_pending m, rm_pending_hint m)))) A R"
| run_fold: "route_run st im n L m H A R \<Longrightarrow>
    route_run st im n L (fold_to st im F m) H (A @ folded_entries st F m) R"
| run_synced: "route_run st im n L m H A R \<Longrightarrow> idx < n \<Longrightarrow>
    route_run st im n L (advance_synced im idx C m) H A ((idx, C) # R)"

text \<open>The largest commit LSN a member has reported in the session, \<open>k_unsynced\<close> before its first report.\<close>

definition reported :: "(nat \<times> int) list \<Rightarrow> nat \<Rightarrow> int" where
  "reported R i = Max (set (k_unsynced # map snd (filter (\<lambda>e. fst e = i) R)))"

text \<open>
  An entry comes from a slot of the history that is durable: a quorum of members holds it, or a
  resolution round has filled it.
\<close>

definition entry_of :: "nat \<Rightarrow> (int \<rightharpoonup> route_slot) \<Rightarrow> pending_miss \<Rightarrow> bool" where
  "entry_of q H e \<longleftrightarrow> (\<exists>s. H (pm_dlsn e) = Some s \<and> rl_addr s = pm_addr e \<and> rl_len s = pm_len e \<and>
     bits_le (pm_held e) (rl_holders s) \<and> slot_durable q s)"

lemma slot_durable_grow:
  "slot_durable q s \<Longrightarrow> bits_le (rl_holders s) (rl_holders s') \<Longrightarrow> (rl_verdict s \<noteq> 0 \<Longrightarrow> rl_verdict s' \<noteq> 0) \<Longrightarrow>
   slot_durable q s'"
  using popcount_mono [of "rl_holders s" "rl_holders s'"] by (auto simp: slot_durable_def)

text \<open>A durable slot that some member misses, once it can fold, has been handed over.\<close>

definition must_hand :: "nat \<Rightarrow> 64 word \<Rightarrow> route_slot \<Rightarrow> bool" where
  "must_hand q all_mask s \<longleftrightarrow> rl_holders s \<noteq> all_mask \<and>
     (rl_verdict s \<noteq> 0 \<or> q \<le> popcount (rl_holders s) \<and> rl_completed s = all_mask)"

definition slots_ok :: "nat \<Rightarrow> int \<Rightarrow> (int \<rightharpoonup> route_slot) \<Rightarrow> pending_miss set \<Rightarrow> bool" where
  "slots_ok n L H E \<longleftrightarrow>
     (\<forall>d s. H d = Some s \<longrightarrow> L < d \<and> d < kNever \<and> rl_dlsn s = d \<and> rl_addr s + rl_len s < 2 ^ 64 \<and>
        bits_le (rl_holders s) (mask_of n) \<and> bits_le (rl_completed s) (mask_of n)) \<and>
     (\<forall>e \<in> E. entry_of (n div 2 + 1) H e) \<and>
     (\<forall>d s. H d = Some s \<and> must_hand (n div 2 + 1) (mask_of n) s \<longrightarrow> (\<exists>e \<in> E. pm_dlsn e = d))"

definition overlay_ok ::
  "('o, route_slot) stream_view \<Rightarrow> nat \<Rightarrow> int \<Rightarrow> 'o \<Rightarrow> int \<Rightarrow> (int \<rightharpoonup> route_slot) \<Rightarrow> bool" where
  "overlay_ok vw n L ov fd H \<longleftrightarrow> L \<le> fd \<and> L < vw_base vw ov \<and> vw_base vw ov \<le> fd + 1 \<and>
     (\<forall>d. vw_base vw ov \<le> d \<longrightarrow> vw_slot vw ov d = H d \<and>
        (vw_done vw ov d \<longleftrightarrow> (\<exists>s. H d = Some s \<and> rl_completed s = mask_of n))) \<and>
     (\<forall>d. L < d \<and> d \<le> fd \<longrightarrow> (\<exists>s. H d = Some s \<and> rl_completed s = mask_of n))"

definition queue_ok :: "pending_miss list \<Rightarrow> int \<Rightarrow> int \<Rightarrow> pending_miss list \<Rightarrow> bool" where
  "queue_ok pend hint fd A \<longleftrightarrow>
     (\<forall>e \<in> set pend. fd < pm_dlsn e \<and> hint \<le> pm_dlsn e) \<and> (\<forall>e \<in> set A. pm_dlsn e \<le> fd)"

definition route_inv ::
  "('o, route_slot) stream_view \<Rightarrow> ('m \<Rightarrow> nat \<Rightarrow> int option) \<Rightarrow> nat \<Rightarrow> int \<Rightarrow> ('o, 'm) read_route_map \<Rightarrow> (int \<rightharpoonup> route_slot)
     \<Rightarrow> pending_miss list \<Rightarrow> bool" where
  "route_inv vw look n L m H A \<longleftrightarrow>
     rm_n m = n \<and> rm_quorum m = n div 2 + 1 \<and> rm_all_mask m = mask_of n \<and> rm_login_dlsn m = L \<and>
     length (rm_miss m) = k_max_members \<and> length (rm_synced m) = k_max_members \<and>
     (\<exists>ov. rm_overlay m = Some ov \<and> overlay_ok vw n L ov (rm_folded m) H) \<and>
     slots_ok n L H (set (rm_pending m) \<union> set A) \<and>
     queue_ok (rm_pending m) (rm_pending_hint m) (rm_folded m) A \<and>
     (\<forall>i < n. miss_ok look A i (rm_synced m ! i) (rm_miss m ! i)) \<and>
     rm_all_committed m = min_synced n (rm_synced m)"

lemma min_synced_const:
  assumes "0 < n" "\<And>i. i < n \<Longrightarrow> xs ! i = c"
  shows "min_synced n xs = c"
proof -
  have "fold (\<lambda>i fl. min fl (xs ! i)) js c = c" if "\<forall>j \<in> set js. j < n" for js
    using that assms(2) by (induction js) simp_all
  then show ?thesis using assms by (simp add: min_synced_def)
qed

lemma reset_route_inv:
  assumes laws: "stream_laws st vw" "icl_laws im look" and n: "1 \<le> n" "n \<le> k_max_members"
  shows "route_inv vw look n L (route_reset st im n L (make_route_map im)) (\<lambda>_. None) []"
proof -
  have nth: "over n (\<lambda>_ _. c) (replicate k_max_members x) ! i = c" if "i < n" for i and c x :: 'a
    using that n by (simp add: nth_over)
  have syn: "over n (\<lambda>_ _. k_unsynced) (replicate k_max_members 0) ! i = k_unsynced" if "i < n" for i
    using that n by (simp add: nth_over)
  have "k_unsynced = min_synced n (over n (\<lambda>_ _. k_unsynced) (replicate k_max_members 0))"
    by (rule min_synced_const [symmetric]) (use n syn in simp_all)
  then show ?thesis
    by (simp add: route_inv_def route_reset_def make_route_map_def overlay_ok_def slots_ok_def queue_ok_def miss_ok_def
        stream_emplace [OF laws(1)])
qed

lemma bits_le_bit_of: "i < n \<Longrightarrow> bits_le a (mask_of n) \<Longrightarrow> bits_le (a OR bit_of i) (mask_of n)"
  by (auto simp: bits_le_def bit_or_iff)

text \<open>Replacing one slot by a grown version, with the entries it hands over.\<close>

lemma slots_ok_grow:
  assumes ok: "slots_ok n L H E" and s: "H d = Some s"
    and grow: "rl_dlsn s' = rl_dlsn s" "rl_addr s' = rl_addr s" "rl_len s' = rl_len s"
      "bits_le (rl_holders s) (rl_holders s')" "bits_le (rl_holders s') (mask_of n)" "bits_le (rl_completed s') (mask_of n)"
      "rl_verdict s \<noteq> 0 \<Longrightarrow> rl_verdict s' \<noteq> 0"
    and new: "\<forall>e \<in> N. pm_dlsn e = d \<and> pm_addr e = rl_addr s \<and> pm_len e = rl_len s \<and> bits_le (pm_held e) (rl_holders s') \<and>
        slot_durable (n div 2 + 1) s'"
    and hand: "must_hand (n div 2 + 1) (mask_of n) s' \<Longrightarrow> must_hand (n div 2 + 1) (mask_of n) s \<or> N \<noteq> {}"
  shows "slots_ok n L (H(d \<mapsto> s')) (E \<union> N)"
proof -
  have A: "\<And>d s. H d = Some s \<Longrightarrow> L < d \<and> d < kNever \<and> rl_dlsn s = d \<and> rl_addr s + rl_len s < 2 ^ 64 \<and>
        bits_le (rl_holders s) (mask_of n) \<and> bits_le (rl_completed s) (mask_of n)"
    and B: "\<And>e. e \<in> E \<Longrightarrow> entry_of (n div 2 + 1) H e"
    and C: "\<And>d s. H d = Some s \<Longrightarrow> must_hand (n div 2 + 1) (mask_of n) s \<Longrightarrow> \<exists>e \<in> E. pm_dlsn e = d"
    using ok unfolding slots_ok_def by blast+
  have "entry_of (n div 2 + 1) (H(d \<mapsto> s')) e" if eE: "e \<in> E \<union> N" for e
  proof (cases "e \<in> N")
    case True
    with new grow show ?thesis by (auto simp: entry_of_def)
  next
    case False
    then obtain q where "H (pm_dlsn e) = Some q" "rl_addr q = pm_addr e" "rl_len q = pm_len e" "bits_le (pm_held e) (rl_holders q)"
      "slot_durable (n div 2 + 1) q"
      using eE B [of e] unfolding entry_of_def by blast
    with grow s show ?thesis by (auto simp: entry_of_def intro: bits_le_trans slot_durable_grow)
  qed
  moreover have "\<exists>e \<in> E \<union> N. pm_dlsn e = d'"
    if "(H(d \<mapsto> s')) d' = Some q" "must_hand (n div 2 + 1) (mask_of n) q" for d' q
  proof (cases "d' = d")
    case True
    then have q: "q = s'" using that(1) by simp
    with hand that(2) C [OF s] new True show ?thesis by blast
  next
    case False
    with that C [of d' q] show ?thesis by auto
  qed
  ultimately show ?thesis using A [OF s] grow A unfolding slots_ok_def by auto
qed

section \<open>Every step keeps the invariant\<close>

lemma route_invE:
  assumes "route_inv vw look n L m H A"
  obtains ov where "rm_overlay m = Some ov" "overlay_ok vw n L ov (rm_folded m) H"
    "slots_ok n L H (set (rm_pending m) \<union> set A)" "queue_ok (rm_pending m) (rm_pending_hint m) (rm_folded m) A"
    "rm_n m = n" "rm_quorum m = n div 2 + 1" "rm_all_mask m = mask_of n"
  using assms unfolding route_inv_def by blast

lemma overlay_okD:
  assumes "overlay_ok vw n L ov fd H"
  shows "L \<le> fd" "L < vw_base vw ov" "vw_base vw ov \<le> fd + 1"
    "vw_base vw ov \<le> d \<Longrightarrow> vw_slot vw ov d = H d"
    "vw_base vw ov \<le> d \<Longrightarrow> vw_done vw ov d \<longleftrightarrow> (\<exists>s. H d = Some s \<and> rl_completed s = mask_of n)"
    "L < d \<Longrightarrow> d \<le> fd \<Longrightarrow> \<exists>s. H d = Some s \<and> rl_completed s = mask_of n"
  using assms unfolding overlay_ok_def by blast+

lemma slots_okD:
  assumes "slots_ok n L H E" "H d = Some s"
  shows "L < d" "d < kNever" "rl_dlsn s = d" "rl_addr s + rl_len s < 2 ^ 64" "bits_le (rl_holders s) (mask_of n)"
    "bits_le (rl_completed s) (mask_of n)"
  using assms unfolding slots_ok_def by blast+

lemma popcount_0 [simp]: "popcount 0 = 0"
  by (simp add: popcount_def)

lemma mask_of_pos: "0 < n \<Longrightarrow> mask_of n \<noteq> 0"
proof
  assume n: "0 < n" and "mask_of n = 0"
  then have "bit (mask_of n) 0 = bit (0 :: 64 word) 0" by simp
  with n show False by simp
qed

lemma route_inv_create:
  assumes st: "stream_laws st vw" and inv: "route_inv vw look n L m H A" and n: "0 < n"
    and d: "H d = None" "rm_folded m < d" "d < kNever" and rng: "addr + len < 2 ^ 64"
  shows "route_inv vw look n L (route_create st d addr len m) (H(d \<mapsto> fresh_slot d addr len)) A"
proof -
  obtain ov where ov: "rm_overlay m = Some ov" "overlay_ok vw n L ov (rm_folded m) H"
    and so: "slots_ok n L H (set (rm_pending m) \<union> set A)" and q: "queue_ok (rm_pending m) (rm_pending_hint m) (rm_folded m) A"
    using inv by (rule route_invE)
  note O = overlay_okD [OF ov(2)]
  have b: "vw_base vw ov \<le> d" using O(3) d(2) by simp
  have none: "vw_slot vw ov d = None" using O(4) [OF b] d(1) by simp
  note c = stream_create [OF st b none, of "fresh_slot d addr len"]
  have nd: "\<not> vw_done vw ov d" using O(5) [OF b] d(1) by simp
  have fresh: "rl_completed (fresh_slot d addr len) \<noteq> mask_of n" using mask_of_pos [OF n] by (simp add: fresh_slot_def)
  have "overlay_ok vw n L (st_create st d (fresh_slot d addr len) ov) (rm_folded m) (H(d \<mapsto> fresh_slot d addr len))"
    using O(1-3) nd fresh d(2) unfolding overlay_ok_def c by (auto simp: O(4,5) dest: O(6))
  moreover have "slots_ok n L (H(d \<mapsto> fresh_slot d addr len)) (set (rm_pending m) \<union> set A)"
  proof -
    have "entry_of (n div 2 + 1) (H(d \<mapsto> fresh_slot d addr len)) e" if "e \<in> set (rm_pending m) \<union> set A" for e
    proof -
      have "entry_of (n div 2 + 1) H e" using so that unfolding slots_ok_def by blast
      then show ?thesis using d(1) by (auto simp: entry_of_def)
    qed
    moreover have "\<not> must_hand (n div 2 + 1) (mask_of n) (fresh_slot d addr len)"
      by (simp add: must_hand_def fresh_slot_def)
    ultimately show ?thesis using so O(1) d(2,3) rng unfolding slots_ok_def
      by (auto simp: fresh_slot_def bits_le_def)
  qed
  ultimately show ?thesis using inv ov(1) q
    unfolding route_inv_def route_create_def fresh_slot_def [symmetric] by simp
qed

text \<open>An update of one slot of the window that is still above the folded frontier.\<close>

lemma route_inv_update:
  assumes st: "stream_laws st vw" and inv: "route_inv vw look n L m H A"
    and d: "H d = Some s" "rm_folded m < d"
    and cb: "cb s (rm_pending m, rm_pending_hint m) = (s', c, pend', hint')"
    and queue: "set pend' = set (rm_pending m) \<union> N" "\<forall>e \<in> N. pm_dlsn e = d \<and> pm_addr e = rl_addr s \<and> pm_len e = rl_len s \<and>
        bits_le (pm_held e) (rl_holders s') \<and> slot_durable (n div 2 + 1) s'"
      "hint' \<le> rm_pending_hint m" "N \<noteq> {} \<Longrightarrow> hint' \<le> d"
    and grow: "rl_dlsn s' = rl_dlsn s" "rl_addr s' = rl_addr s" "rl_len s' = rl_len s"
      "bits_le (rl_holders s) (rl_holders s')" "bits_le (rl_holders s') (mask_of n)" "bits_le (rl_completed s') (mask_of n)"
      "rl_verdict s \<noteq> 0 \<Longrightarrow> rl_verdict s' \<noteq> 0"
    and hand: "must_hand (n div 2 + 1) (mask_of n) s' \<Longrightarrow> must_hand (n div 2 + 1) (mask_of n) s \<or> N \<noteq> {}"
    and comp: "(rl_completed s = mask_of n \<or> c) \<longleftrightarrow> rl_completed s' = mask_of n"
  shows "route_inv vw look n L (with_overlay (st_update st d cb) m) (H(d \<mapsto> s')) A"
proof -
  obtain ov where ov: "rm_overlay m = Some ov" "overlay_ok vw n L ov (rm_folded m) H"
    and so: "slots_ok n L H (set (rm_pending m) \<union> set A)" and q: "queue_ok (rm_pending m) (rm_pending_hint m) (rm_folded m) A"
    using inv by (rule route_invE)
  note O = overlay_okD [OF ov(2)]
  have b: "vw_base vw ov \<le> d" using O(3) d(2) by simp
  have sl: "vw_slot vw ov d = Some s" using O(4) [OF b] d(1) by simp
  define ov' where "ov' = fst (st_update st d cb ov (rm_pending m, rm_pending_hint m))"
  note U = stream_update [OF st b sl, where f = cb and a = "(rm_pending m, rm_pending_hint m)", unfolded cb, folded ov'_def]
  have upd: "st_update st d cb ov (rm_pending m, rm_pending_hint m) = (ov', pend', hint')"
    using U(4) by (simp add: ov'_def prod_eq_iff)
  have dn: "vw_done vw ov d \<longleftrightarrow> rl_completed s = mask_of n" using O(5) [OF b] d(1) by simp
  have "overlay_ok vw n L ov' (rm_folded m) (H(d \<mapsto> s'))"
    using O(1-3) d(2) dn comp unfolding overlay_ok_def U by (auto simp: O(4,5) dest: O(6))
  moreover have "slots_ok n L (H(d \<mapsto> s')) (set pend' \<union> set A)"
    using slots_ok_grow [OF so d(1) grow queue(2) hand] unfolding queue(1) by (simp add: Un_assoc Un_left_commute Un_commute)
  moreover have "queue_ok pend' hint' (rm_folded m) A"
    using q queue d(2) unfolding queue_ok_def by force
  ultimately show ?thesis using inv ov(1) upd unfolding route_inv_def with_overlay_def by simp
qed

lemma hand_over_simps:
  assumes "hand_over s held (pend, hint) = (pend', hint')"
  shows "set pend' = set pend \<union> {\<lparr>pm_dlsn = rl_dlsn s, pm_held = held, pm_addr = rl_addr s, pm_len = rl_len s\<rparr>}"
    "hint' \<le> hint" "hint' \<le> rl_dlsn s"
  using assms by (auto simp: hand_over_def)

lemma route_inv_complete:
  assumes st: "stream_laws st vw" and inv: "route_inv vw look n L m H A" and n: "n \<le> k_max_members"
    and d: "H d = Some s" "idx < n" "\<not> bit (rl_completed s) idx"
  shows "route_inv vw look n L (record_completion st d idx acked m)
    (H(d \<mapsto> fst (completion_cb (rm_all_mask m) (rm_quorum m) (bit_of idx) acked s (rm_pending m, rm_pending_hint m)))) A"
proof -
  obtain ov where ov: "overlay_ok vw n L ov (rm_folded m) H"
    and so: "slots_ok n L H (set (rm_pending m) \<union> set A)"
    and nm: "rm_quorum m = n div 2 + 1" "rm_all_mask m = mask_of n"
    using inv by (rule route_invE)
  note S = slots_okD [OF so d(1)]
  have ncomp: "rl_completed s \<noteq> mask_of n" using d(2,3) n by (auto simp: k_max_members_def)
  have fd: "rm_folded m < d"
    using overlay_okD(6) [OF ov S(1)] d(1) ncomp by force
  define held where "held = (if acked then rl_holders s OR bit_of idx else rl_holders s)"
  define nc where "nc = rl_completed s OR bit_of idx"
  define s' where "s' = s\<lparr>rl_holders := held, rl_completed := nc\<rparr>"
  let ?cb = "completion_cb (rm_all_mask m) (rm_quorum m) (bit_of idx) acked"
  let ?hand = "nc = mask_of n \<and> n div 2 + 1 \<le> popcount held \<and> held \<noteq> mask_of n"
  define q where "q = (if ?hand then hand_over s' held (rm_pending m, rm_pending_hint m) else (rm_pending m, rm_pending_hint m))"
  have cb: "?cb s (rm_pending m, rm_pending_hint m) = (s', nc = mask_of n, fst q, snd q)"
    by (simp add: completion_cb_def Let_def nm held_def nc_def s'_def q_def)
  let ?N = "if ?hand then {\<lparr>pm_dlsn = d, pm_held = held, pm_addr = rl_addr s, pm_len = rl_len s\<rparr>} else {}"
  have hb: "bits_le (rl_holders s) held" "bits_le held (mask_of n)" "bits_le nc (mask_of n)"
    using S(5,6) d(2) by (simp_all add: held_def nc_def bits_le_bit_of)
  have "route_inv vw look n L (with_overlay (st_update st d ?cb) m) (H(d \<mapsto> s')) A"
  proof (rule route_inv_update [where cb = ?cb and N = ?N, OF st inv d(1) fd cb])
    show "set (fst q) = set (rm_pending m) \<union> ?N"
      using S(3) by (simp add: q_def hand_over_def s'_def)
    show "snd q \<le> rm_pending_hint m" "?N \<noteq> {} \<Longrightarrow> snd q \<le> d"
      using S(3) by (auto simp: q_def hand_over_def s'_def split: if_splits)
    show "must_hand (n div 2 + 1) (mask_of n) s' \<Longrightarrow> must_hand (n div 2 + 1) (mask_of n) s \<or> ?N \<noteq> {}"
    proof -
      assume h: "must_hand (n div 2 + 1) (mask_of n) s'"
      then have ne: "rl_holders s \<noteq> mask_of n" using hb bits_le_antisym by (auto simp: must_hand_def s'_def)
      from h show ?thesis by (auto simp: must_hand_def s'_def ne)
    qed
  qed (use hb ncomp in \<open>auto simp: s'_def slot_durable_def\<close>)
  then show ?thesis by (simp add: record_completion_def cb)
qed

lemma route_inv_filled:
  assumes st: "stream_laws st vw" and inv: "route_inv vw look n L m H A"
    and d: "H d = Some s" "idx < n" "rm_folded m < d"
  shows "route_inv vw look n L (note_filled st d idx m)
    (H(d \<mapsto> fst (filled_cb (rm_all_mask m) (bit_of idx) s (rm_pending m, rm_pending_hint m)))) A"
proof -
  obtain ov where so: "slots_ok n L H (set (rm_pending m) \<union> set A)" and nm: "rm_all_mask m = mask_of n"
    using inv by (rule route_invE)
  note S = slots_okD [OF so d(1)]
  define held where "held = rl_holders s OR bit_of idx"
  define s' where "s' = s\<lparr>rl_holders := held, rl_verdict := 1\<rparr>"
  let ?cb = "filled_cb (rm_all_mask m) (bit_of idx)"
  define q where "q = (if held \<noteq> mask_of n then hand_over s' held (rm_pending m, rm_pending_hint m) else (rm_pending m, rm_pending_hint m))"
  have cb: "?cb s (rm_pending m, rm_pending_hint m) = (s', False, fst q, snd q)"
    by (simp add: filled_cb_def Let_def nm held_def s'_def q_def)
  let ?N = "if held \<noteq> mask_of n then {\<lparr>pm_dlsn = d, pm_held = held, pm_addr = rl_addr s, pm_len = rl_len s\<rparr>} else {}"
  have hb: "bits_le (rl_holders s) held" "bits_le held (mask_of n)"
    using S(5) d(2) by (simp_all add: held_def bits_le_bit_of)
  have "route_inv vw look n L (with_overlay (st_update st d ?cb) m) (H(d \<mapsto> s')) A"
  proof (rule route_inv_update [where cb = ?cb and N = ?N, OF st inv d(1,3) cb])
    show "set (fst q) = set (rm_pending m) \<union> ?N"
      using S(3) by (simp add: q_def hand_over_def s'_def)
    show "snd q \<le> rm_pending_hint m" "?N \<noteq> {} \<Longrightarrow> snd q \<le> d"
      using S(3) by (auto simp: q_def hand_over_def s'_def split: if_splits)
    show "must_hand (n div 2 + 1) (mask_of n) s' \<Longrightarrow> must_hand (n div 2 + 1) (mask_of n) s \<or> ?N \<noteq> {}"
      by (auto simp: must_hand_def s'_def)
  qed (use hb S(6) in \<open>auto simp: s'_def slot_durable_def\<close>)
  then show ?thesis by (simp add: note_filled_def cb)
qed

lemma apply_miss_nth:
  assumes "i < length miss" "n \<le> 64"
  shows "fold (apply_miss im n) es miss ! i =
    (if i < n then fold (\<lambda>e mi. if bit (pm_held e) i then im_erase im (byte_ivl (pm_addr e) (pm_len e)) mi
       else im_set im (byte_ivl (pm_addr e) (pm_len e)) (pm_dlsn e) mi) es (miss ! i) else miss ! i)"
    "length (fold (apply_miss im n) es miss) = length miss"
  using assms(1)
proof (induction es arbitrary: miss)
  case (Cons e es)
  {
    case 1
    then show ?case using Cons(1) [of "apply_miss im n e miss"] assms(2) by (simp add: apply_miss_def nth_over)
  next
    case 2
    then show ?case using Cons(2) [of "apply_miss im n e miss"] by (simp add: apply_miss_def)
  }
qed simp_all

lemma fold_min:
  "fold (\<lambda>e h. min h (f e)) xs (c :: int) \<le> c" "e \<in> set xs \<Longrightarrow> fold (\<lambda>e h. min h (f e)) xs c \<le> f e"
proof (induction xs arbitrary: c)
  case (Cons a xs)
  {
    case 1
    show ?case using Cons(1) [of "min c (f a)"] by simp
  next
    case 2
    then show ?case using Cons(1) [of "min c (f a)"] Cons(2) [of "min c (f a)"] by auto
  }
qed simp_all

text \<open>Advancing the frontier over completed slots, with the window trimmed behind it.\<close>

lemma overlay_ok_advance:
  assumes st: "stream_laws st vw" and ov: "overlay_ok vw n L ov fd H"
    and tg: "fd < target" "target \<le> st_completed_upto st ov (fd + 1)"
  shows "overlay_ok vw n L ov target H" "overlay_ok vw n L (st_truncate st target ov) target H"
proof -
  note O = overlay_okD [OF ov] and T = stream_truncate [OF st, where k = ov and u = target]
  have fin: "\<exists>s. H d = Some s \<and> rl_completed s = mask_of n" if "fd < d" "d \<le> target" for d
    using stream_completed(2) [OF st O(3), of d] O(5) [of d] O(3) tg that by auto
  have all: "\<exists>s. H d = Some s \<and> rl_completed s = mask_of n" if "L < d" "d \<le> target" for d
    using that O(6) [of d] fin [of d] by (cases "d \<le> fd") auto
  show a: "overlay_ok vw n L ov target H"
    using O(1-5) tg(1) all unfolding overlay_ok_def by auto
  show "overlay_ok vw n L (st_truncate st target ov) target H"
    using a T(1,2) unfolding overlay_ok_def by (auto simp: T(3,4))
qed

lemma route_inv_advance:
  assumes st: "stream_laws st vw" and ov: "rm_overlay m = Some ov" "overlay_ok vw n L ov (rm_folded m) H"
    and tg: "rm_folded m < target" "target \<le> st_completed_upto st ov (rm_folded m + 1)"
    and rest: "rm_n m = n" "rm_quorum m = n div 2 + 1" "rm_all_mask m = mask_of n" "rm_login_dlsn m = L"
      "length (rm_miss m) = k_max_members" "length (rm_synced m) = k_max_members"
      "slots_ok n L H (set (rm_pending m) \<union> set A)" "queue_ok (rm_pending m) (rm_pending_hint m) target A"
      "\<forall>i < n. miss_ok look A i (rm_synced m ! i) (rm_miss m ! i)" "rm_all_committed m = min_synced n (rm_synced m)"
  shows "route_inv vw look n L (maybe_truncate st target (advance_folded target m)) H A"
  using overlay_ok_advance [OF st ov(2) tg] ov(1) tg(1) rest
  by (simp add: route_inv_def maybe_truncate_def advance_folded_def)

lemma route_inv_fold:
  assumes st: "stream_laws st vw" and im: "icl_laws im look" and inv: "route_inv vw look n L m H A" and n: "n \<le> k_max_members"
  shows "route_inv vw look n L (fold_to st im F m) H (A @ folded_entries st F m)"
proof -
  obtain ov where ov: "rm_overlay m = Some ov" "overlay_ok vw n L ov (rm_folded m) H"
    and so: "slots_ok n L H (set (rm_pending m) \<union> set A)" and q: "queue_ok (rm_pending m) (rm_pending_hint m) (rm_folded m) A"
    and nm: "rm_n m = n"
    using inv by (rule route_invE)
  define target where "target = fold_target st F m"
  have tg: "target \<le> st_completed_upto st ov (rm_folded m + 1)" by (simp add: target_def fold_target_def ov(1))
  consider (stop) "F \<le> rm_folded m \<or> target \<le> rm_folded m" | (fast) "\<not> F \<le> rm_folded m" "rm_folded m < target" "target < rm_pending_hint m"
    | (slow) "\<not> F \<le> rm_folded m" "rm_folded m < target" "rm_pending_hint m \<le> target" by linarith
  then show ?thesis
  proof cases
    case stop
    then have "fold_to st im F m = m" "folded_entries st F m = []"
      by (auto simp: fold_to_def folded_entries_def Let_def target_def)
    with inv show ?thesis by simp
  next
    case fast
    then have e: "fold_to st im F m = maybe_truncate st target (advance_folded target m)" "folded_entries st F m = []"
      by (simp_all add: fold_to_def folded_entries_def Let_def target_def)
    have "queue_ok (rm_pending m) (rm_pending_hint m) target A" using q fast(2,3) unfolding queue_ok_def by force
    with inv show ?thesis unfolding e using so
      by (intro route_inv_advance [OF st ov fast(2) tg]) (simp_all add: route_inv_def)
  next
    case slow
    define keep where "keep = filter (\<lambda>e. target < pm_dlsn e) (rm_pending m)"
    define m1 where "m1 = m\<lparr>rm_pending := keep, rm_pending_hint := fold (\<lambda>e h. min h (pm_dlsn e)) keep kNever,
        rm_miss := fold (apply_miss im (rm_n m)) (fold_batch target m) (rm_miss m)\<rparr>"
    have e: "fold_to st im F m = maybe_truncate st target (advance_folded target m1)"
        "folded_entries st F m = fold_batch target m"
      using slow by (simp_all add: fold_to_def folded_entries_def Let_def target_def m1_def keep_def)
    let ?es = "fold_batch target m"
    have es: "set ?es = {e \<in> set (rm_pending m). pm_dlsn e \<le> target}" "sorted (map pm_dlsn ?es)"
      by (auto simp: fold_batch_def)
    have ent: "set keep \<union> set (A @ ?es) = set (rm_pending m) \<union> set A" by (auto simp: keep_def es)
    have "queue_ok keep (rm_pending_hint m1) target (A @ ?es)"
      using q slow(2) fold_min(2) [of _ keep pm_dlsn kNever] by (fastforce simp: queue_ok_def keep_def m1_def es)
    moreover have "miss_ok look (A @ ?es) i (rm_synced m1 ! i) (rm_miss m1 ! i)" if "i < n" for i
    proof -
      have "i < length (rm_miss m)" "n \<le> 64" using that inv n by (simp_all add: route_inv_def k_max_members_def)
      note nth = apply_miss_nth [OF this, of im ?es]
      have old: "miss_ok look A i (rm_synced m ! i) (rm_miss m ! i)" using inv that by (simp add: route_inv_def)
      have "\<forall>e \<in> set A. \<forall>e' \<in> set ?es. pm_dlsn e \<le> pm_dlsn e'" using q by (fastforce simp: queue_ok_def es)
      from miss_ok_batch [OF im old es(2) this] show ?thesis using that nth by (simp add: m1_def nm)
    qed
    moreover have "length (rm_miss m1) = k_max_members"
    proof -
      have "length (rm_miss m) = k_max_members" using inv by (simp add: route_inv_def)
      then show ?thesis using apply_miss_nth(2) [of 0 "rm_miss m" n im ?es] n by (simp add: m1_def nm k_max_members_def)
    qed
    ultimately show ?thesis
      unfolding e using inv so slow(2) tg ov
      by (intro route_inv_advance [OF st, of m1 ov]) (simp_all add: route_inv_def m1_def ent [simplified])
  qed
qed

lemma route_inv_synced:
  assumes im: "icl_laws im look" and inv: "route_inv vw look n L m H A" and n: "n \<le> k_max_members" and idx: "idx < n"
  shows "route_inv vw look n L (advance_synced im idx C m) H A"
proof (cases "C \<le> rm_synced m ! idx")
  case True
  then show ?thesis using inv by (simp add: advance_synced_def)
next
  case False
  have len: "idx < length (rm_miss m)" "idx < length (rm_synced m)" using inv idx n by (simp_all add: route_inv_def)
  have "miss_ok look A i (rm_synced (advance_synced im idx C m) ! i) (rm_miss (advance_synced im idx C m) ! i)" if "i < n" for i
  proof (cases "i = idx")
    case True
    have "miss_ok look A idx (rm_synced m ! idx) (rm_miss m ! idx)" using inv idx by (simp add: route_inv_def)
    from miss_ok_synced [OF im this, of C] False len True show ?thesis by (simp add: advance_synced_def Let_def)
  next
    case other: False
    with False inv that show ?thesis by (simp add: advance_synced_def Let_def route_inv_def)
  qed
  with inv False show ?thesis by (simp add: route_inv_def advance_synced_def Let_def)
qed

lemma route_run_inv:
  assumes "route_run st im n L m H A R" "stream_laws st vw" "icl_laws im look" "1 \<le> n" "n \<le> k_max_members"
  shows "route_inv vw look n L m H A"
  using assms(1)
proof (induction rule: route_run.induct)
  case run_reset
  show ?case by (rule reset_route_inv [OF assms(2-5)])
next
  case (run_create m H A R d addr len)
  show ?case by (rule route_inv_create [OF assms(2) run_create.IH]) (use assms(4) run_create.hyps in simp_all)
next
  case (run_complete m H A R d s idx acked)
  then show ?case by (intro route_inv_complete [OF assms(2) _ assms(5)])
next
  case (run_filled m H A R d s idx)
  then show ?case by (intro route_inv_filled [OF assms(2)])
next
  case (run_fold m H A R F)
  then show ?case by (intro route_inv_fold [OF assms(2,3) _ assms(5)])
next
  case (run_synced m H A R idx C)
  then show ?case by (intro route_inv_synced [OF assms(3) _ assms(5)])
qed

section \<open>What the members have reported\<close>

lemma reported_Nil [simp]: "reported [] i = k_unsynced"
  by (simp add: reported_def)

lemma reported_Cons [simp]: "reported ((j, C) # R) i = (if j = i then max C (reported R i) else reported R i)"
  by (simp add: reported_def Max_insert2 insert_commute [of k_unsynced] del: Max_insert) (simp add: Max_insert [of "insert k_unsynced X" for X])

lemma rm_synced_frame [simp]:
  "rm_synced (route_create st d addr len m) = rm_synced m" "rm_synced (with_overlay f m) = rm_synced m"
  "rm_synced (fold_to st im F m) = rm_synced m"
  by (simp_all add: route_create_def with_overlay_def fold_to_def maybe_truncate_def advance_folded_def Let_def split_beta
      split: option.split)

text \<open>The synced array holds exactly the reports, and nothing else moves it.\<close>

lemma route_run_reported:
  assumes "route_run st im n L m H A R" "n \<le> k_max_members"
  shows "length (rm_synced m) = k_max_members \<and> (\<forall>i < n. rm_synced m ! i = reported R i)"
  using assms(1)
proof (induction rule: route_run.induct)
  case run_reset
  show ?case using assms(2) by (simp add: route_reset_def make_route_map_def nth_over)
next
  case (run_synced m H A R idx C)
  with assms(2) show ?case by (auto simp: advance_synced_def Let_def nth_list_update max_def)
qed (simp_all add: record_completion_def note_filled_def)

section \<open>Eligibility is sound\<close>

definition slot_has :: "route_slot \<Rightarrow> nat \<Rightarrow> bool" where
  "slot_has s x \<longleftrightarrow> rl_addr s \<le> x \<and> x < rl_addr s + rl_len s"

lemma eligible_inv_sound:
  assumes st: "stream_laws st vw" and im: "icl_laws im look" and inv: "route_inv vw look n L m H A"
    and idx: "idx < n" "n \<le> k_max_members" and el: "eligible st im idx addr len Hmax m" and rng: "addr + len < 2 ^ 64"
    and d: "H d = Some s" "d \<le> Hmax" "slot_durable (n div 2 + 1) s" and x: "addr \<le> x" "x < addr + len" "slot_has s x"
  shows "L \<le> rm_synced m ! idx \<and>
    (bit (rl_holders s) idx \<or> d \<le> rm_folded m \<and>
      (d \<le> rm_synced m ! idx \<or> (\<exists>d' s'. d < d' \<and> d' \<le> rm_folded m \<and> H d' = Some s' \<and> slot_durable (n div 2 + 1) s' \<and>
        slot_has s' x \<and> bit (rl_holders s') idx)))"
proof -
  obtain ov where ov: "rm_overlay m = Some ov" "overlay_ok vw n L ov (rm_folded m) H"
    and so: "slots_ok n L H (set (rm_pending m) \<union> set A)" and q: "queue_ok (rm_pending m) (rm_pending_hint m) (rm_folded m) A"
    and nm: "rm_quorum m = n div 2 + 1"
    using inv by (rule route_invE)
  note O = overlay_okD [OF ov(2)] and S = slots_okD [OF so d(1)]
  have i64: "idx < 64" using idx by (simp add: k_max_members_def)
  have login: "L \<le> rm_synced m ! idx" using el inv by (auto simp: eligible_def route_inv_def split: if_splits)
  have miss: "look (rm_miss m ! idx) x = None"
    using el x(1,2) rng unfolding eligible_def icl_lawsD(4) [OF im] by (auto simp: in_ivl_def byte_ivl_def split: if_splits)
  show ?thesis
  proof (cases "bit (rl_holders s) idx")
    case True
    with login show ?thesis by simp
  next
    case nh: False
    have fd: "d \<le> rm_folded m"
    proof (rule ccontr)
      assume gt: "\<not> d \<le> rm_folded m"
      let ?l = "st_active_from st ov (rm_folded m + 1)"
      note A = stream_active [OF st O(3)]
      have "(d, s) \<in> set ?l" using A(2) O(3) O(4) [of d] d(1) gt by auto
      moreover have "takeWhile (\<lambda>e. fst e \<le> Hmax) ?l = filter (\<lambda>e. fst e \<le> Hmax) ?l"
        using takeWhile_upto [of ?l Hmax] A(1) by (simp add: om_ok_def om_upto_def)
      ultimately have mem: "(d, s) \<in> set (takeWhile (\<lambda>e. fst e \<le> Hmax) ?l)" using d(2) by simp
      have "route_overlaps addr len (rl_addr s) (rl_len s)"
        using x S(4) rng by (simp add: route_overlaps_def slot_has_def)
      then show False
        using el mem d(3) nh i64 by (auto simp: eligible_def ov(1) nm list_all_iff split: if_splits)
    qed
    then obtain s0 where "H d = Some s0" "rl_completed s0 = mask_of n" using O(6) [OF S(1)] by blast
    then have comp: "rl_completed s = mask_of n" using d(1) by simp
    have "rl_holders s \<noteq> mask_of n" using nh idx i64 by auto
    then have "must_hand (n div 2 + 1) (mask_of n) s" using comp d(3) by (auto simp: must_hand_def slot_durable_def)
    then obtain e where e: "e \<in> set (rm_pending m) \<union> set A" "pm_dlsn e = d" using so d(1) unfolding slots_ok_def by blast
    have eA: "e \<in> set A" using e fd q by (auto simp: queue_ok_def)
    have ent: "entry_of (n div 2 + 1) H e'" if "e' \<in> set A" for e' using so that unfolding slots_ok_def by blast
    have cov: "miss_covers e' x \<longleftrightarrow> slot_has s' x" if "e' \<in> set A" "H (pm_dlsn e') = Some s'" for e' s'
      using ent [OF that(1)] slots_okD(4) [OF so that(2)] that(2)
      by (auto simp: entry_of_def miss_covers_def slot_has_def in_ivl_def byte_ivl_def)
    have "\<not> bit (pm_held e) idx" using ent [OF eA] e(2) d(1) nh by (auto simp: entry_of_def bits_le_def)
    moreover have "miss_covers e x" using cov [OF eA] e(2) d(1) x(3) by simp
    moreover have "miss_ok look A idx (rm_synced m ! idx) (rm_miss m ! idx)" using inv idx(1) by (simp add: route_inv_def)
    ultimately consider "d \<le> rm_synced m ! idx"
      | e' where "e' \<in> set A" "miss_covers e' x" "d \<le> pm_dlsn e'" "bit (pm_held e') idx"
      using miss eA e(2) unfolding miss_ok_def by blast
    then show ?thesis
    proof cases
      case 1
      with login fd show ?thesis by simp
    next
      case 2
      obtain s' where s': "H (pm_dlsn e') = Some s'" "bits_le (pm_held e') (rl_holders s')" "slot_durable (n div 2 + 1) s'"
        using ent [OF 2(1)] unfolding entry_of_def by blast
      then have hb: "bit (rl_holders s') idx" using 2(4) by (simp add: bits_le_def)
      have "d \<noteq> pm_dlsn e'" using s'(1) d(1) hb nh by auto
      moreover have "pm_dlsn e' \<le> rm_folded m" using q 2(1) by (auto simp: queue_ok_def)
      moreover have "slot_has s' x" using cov [OF 2(1) s'(1)] 2(2) by simp
      ultimately show ?thesis using login fd 2(3) s'(1,3) hb by auto
    qed
  qed
qed

lemma min_synced_le:
  assumes "i < n"
  shows "min_synced n xs \<le> xs ! i"
proof (cases "i = 0")
  case True
  then show ?thesis using fold_min(1) [where f = "\<lambda>i. xs ! i"] by (simp add: min_synced_def)
next
  case False
  then have "i \<in> set [1..<n]" using assms by simp
  then show ?thesis using fold_min(2) [where f = "\<lambda>i. xs ! i"] by (simp add: min_synced_def)
qed

lemma min_synced_attained:
  assumes "0 < n"
  shows "\<exists>i < n. min_synced n xs = xs ! i"
proof -
  have "fold (\<lambda>i fl. min fl (xs ! i)) js c = c \<or> (\<exists>j \<in> set js. fold (\<lambda>i fl. min fl (xs ! i)) js c = xs ! j)" for js and c :: int
  proof (induction js arbitrary: c)
    case (Cons a js)
    from Cons [of "min c (xs ! a)"] show ?case by (auto simp: min_def split: if_splits)
  qed simp
  from this [of "[1..<n]" "xs ! 0"] assms show ?thesis by (auto simp: min_synced_def)
qed

section \<open>An interval map that satisfies the contract\<close>

definition ref_look :: "(nat \<times> int) list \<Rightarrow> nat \<Rightarrow> int option" where
  "ref_look = map_of"

definition ref_icl :: "(nat \<times> int) list icl_ops" where
  "ref_icl =
     \<lparr>im_none = [],
      im_set = (\<lambda>iv d m. map (\<lambda>x. (x, d)) [fst iv..<snd iv] @ m),
      im_erase = (\<lambda>iv m. filter (\<lambda>e. \<not> in_ivl iv (fst e)) m),
      im_intersects = (\<lambda>m iv. list_ex (\<lambda>e. in_ivl iv (fst e)) m),
      im_segments = (\<lambda>m. map (\<lambda>x. ((x, x + 1), the (map_of m x))) (remdups (map fst m))),
      im_is_empty = (\<lambda>m. m = [])\<rparr>"

lemma map_of_const: "map_of (map (\<lambda>x. (x, d)) xs @ m) x = (if x \<in> set xs then Some d else map_of m x)"
  by (induction xs) auto

lemma ref_icl_laws: "icl_laws ref_icl ref_look"
  unfolding icl_laws_def ref_look_def
proof (intro conjI allI)
  fix iv m x d
  show "map_of (im_none ref_icl) x = None" by (simp add: ref_icl_def)
  show "map_of (im_set ref_icl iv d m) x = (if in_ivl iv x then Some d else map_of m x)"
    by (simp add: ref_icl_def map_of_const in_ivl_def del: map_of_append)
  show "map_of (im_erase ref_icl iv m) x = (if in_ivl iv x then None else map_of m x)"
    using map_of_filter_key [of "\<lambda>y. \<not> in_ivl iv y" m x] by (simp add: ref_icl_def)
  show "im_intersects ref_icl m iv \<longleftrightarrow> (\<exists>x. in_ivl iv x \<and> map_of m x \<noteq> None)"
    by (force simp: ref_icl_def list_ex_iff map_of_eq_None_iff)
  show "map_of m x = Some d \<longleftrightarrow> (\<exists>iv. (iv, d) \<in> set (im_segments ref_icl m) \<and> in_ivl iv x)"
  proof
    assume *: "map_of m x = Some d"
    then have "x \<in> fst ` set m" by (force dest: map_of_SomeD)
    with * show "\<exists>iv. (iv, d) \<in> set (im_segments ref_icl m) \<and> in_ivl iv x"
      by (intro exI [of _ "(x, x + 1)"]) (force simp: ref_icl_def in_ivl_def)
  next
    assume "\<exists>iv. (iv, d) \<in> set (im_segments ref_icl m) \<and> in_ivl iv x"
    then obtain y where y: "y \<in> fst ` set m" "d = the (map_of m y)" "in_ivl (y, y + 1) x"
      by (auto simp: ref_icl_def)
    then have "x = y" by (simp add: in_ivl_def)
    moreover have "map_of m y \<noteq> None" using y(1) by (simp add: map_of_eq_None_iff)
    ultimately show "map_of m x = Some d" using y(2) by auto
  qed
  show "im_is_empty ref_icl m \<longleftrightarrow> (\<forall>x. map_of m x = None)"
    by (cases m) (auto simp: ref_icl_def fun_eq_iff split: if_splits)
qed

section \<open>Properties\<close>

text \<open>C2: Routing is sound. In every state of a session, a member that is eligible to serve a read
  of a range at a horizon has reported a commit LSN that covers the login prefix, and for
  every durable slot (a quorum of members holds it, or a resolution round filled it) at or
  below the horizon and every byte of the range the slot covers, the member holds the slot; or
  the slot is below the folded frontier and either the member has reported a commit LSN that
  passes it or a later slot below the frontier, itself durable, covers the byte and the
  member holds that one.\<close>

theorem eligible_sound:
  assumes "stream_laws st vw" "icl_laws im look" "route_run st im n L m H A R" "1 \<le> n" "n \<le> k_max_members"
    and "idx < n" "eligible st im idx addr len Hmax m" "addr + len < 2 ^ 64"
    and "H d = Some s" "d \<le> Hmax" "slot_durable (n div 2 + 1) s" "addr \<le> x" "x < addr + len" "slot_has s x"
  shows "L \<le> reported R idx \<and>
    (bit (rl_holders s) idx \<or> d \<le> rm_folded m \<and>
      (d \<le> reported R idx \<or> (\<exists>d' s'. d < d' \<and> d' \<le> rm_folded m \<and> H d' = Some s' \<and> slot_durable (n div 2 + 1) s' \<and>
        slot_has s' x \<and> bit (rl_holders s') idx)))"
proof -
  have "rm_synced m ! idx = reported R idx" using route_run_reported [OF assms(3,5)] assms(6) by simp
  with eligible_inv_sound [OF assms(1,2) route_run_inv [OF assms(3,1,2,4,5)] assms(6,5,7-)] show ?thesis by simp
qed

definition ex_created :: "(route_slot ref_tracker, (nat \<times> int) list) read_route_map" where
  "ex_created = route_create ref_stream 0 0 512 (route_reset ref_stream ref_icl 3 (-1) (make_route_map ref_icl))"

definition ex_filled :: "(route_slot ref_tracker, (nat \<times> int) list) read_route_map" where
  "ex_filled = note_filled ref_stream 0 1 ex_created"

definition ex_filled_slot :: route_slot where
  "ex_filled_slot = (fresh_slot 0 0 512)\<lparr>rl_holders := bit_of 1, rl_verdict := 1\<rparr>"

lemma ex_filled_run: "\<exists>A. route_run ref_stream ref_icl 3 (-1) ex_filled [0 \<mapsto> ex_filled_slot] A []"
proof -
  have "route_run ref_stream ref_icl 3 (-1) ex_created [0 \<mapsto> fresh_slot 0 0 512] [] []"
    unfolding ex_created_def by (rule run_create [OF run_reset]) (simp_all add: route_reset_def kNever_def)
  then have "route_run ref_stream ref_icl 3 (-1) ex_filled
      ([0 \<mapsto> fresh_slot 0 0 512](0 \<mapsto> fst (filled_cb (rm_all_mask ex_created) (bit_of 1) (fresh_slot 0 0 512)
        (rm_pending ex_created, rm_pending_hint ex_created)))) [] []"
    unfolding ex_filled_def by (rule run_filled) (simp_all add: ex_created_def route_create_def route_reset_def)
  moreover have "fst (filled_cb (rm_all_mask ex_created) (bit_of 1) (fresh_slot 0 0 512)
        (rm_pending ex_created, rm_pending_hint ex_created)) = ex_filled_slot"
    by (simp add: filled_cb_def Let_def ex_filled_slot_def fresh_slot_def)
  ultimately show ?thesis by auto
qed

lemma ex_filled_eligible: "eligible ref_stream ref_icl 1 0 512 0 ex_filled"
proof -
  have syn: "rm_synced ex_filled ! 1 = -1"
    by (simp add: ex_filled_def ex_created_def note_filled_def with_overlay_def route_create_def route_reset_def make_route_map_def
        split_beta nth_over k_max_members_def k_unsynced_def)
  have mis: "rm_miss ex_filled ! 1 = []"
    by (simp add: ex_filled_def ex_created_def note_filled_def with_overlay_def route_create_def route_reset_def make_route_map_def
        split_beta nth_over k_max_members_def ref_icl_def)
  have ov: "rm_overlay ex_filled = Some \<lparr>rt_base = 0, rt_slots = [(0, ex_filled_slot, False), (0, fresh_slot 0 0 512, False)]\<rparr>"
    by (simp add: ex_filled_def ex_created_def note_filled_def with_overlay_def route_create_def route_reset_def
        filled_cb_def Let_def ex_filled_slot_def fresh_slot_def split_beta)
  have fd: "rm_folded ex_filled = -1" "rm_login_dlsn ex_filled = -1"
    by (simp_all add: ex_filled_def ex_created_def note_filled_def with_overlay_def route_create_def route_reset_def split_beta)
  show ?thesis
    by (simp add: eligible_def syn [simplified] mis [simplified] ov fd rt_keys_def rt_slot_def ex_filled_slot_def) (simp add: ref_icl_def)
qed

theorem eligible_sound_witness:
  "\<exists>A. route_run ref_stream ref_icl 3 (-1) ex_filled [0 \<mapsto> ex_filled_slot] A [] \<and>
     eligible ref_stream ref_icl 1 0 512 0 ex_filled \<and>
     (bit (rl_holders ex_filled_slot) 1 \<or> 0 \<le> rm_folded ex_filled)"
proof -
  obtain A where A: "route_run ref_stream ref_icl 3 (-1) ex_filled [0 \<mapsto> ex_filled_slot] A []" using ex_filled_run by blast
  from eligible_sound [OF ref_stream_laws ref_icl_laws A, of 1 0 512 0 0 ex_filled_slot 0] ex_filled_eligible
  have "bit (rl_holders ex_filled_slot) 1 \<or> 0 \<le> rm_folded ex_filled"
    by (auto simp: k_max_members_def ex_filled_slot_def fresh_slot_def slot_has_def slot_durable_def)
  with A ex_filled_eligible show ?thesis by blast
qed

text \<open>C20: The reclaim floor the client stamps on every request is the smallest commit LSN any member
  has reported. In every state of a session the LSN kept for a member is the largest it has
  reported, \<open>k_unsynced\<close> before its first report, whatever order the reports arrive in; and the
  floor is the minimum of those over the members, so it never passes what a member has
  reported as applied.\<close>

theorem all_committed_is_min:
  assumes "stream_laws st vw" "icl_laws im look" "route_run st im n L m H A R" "1 \<le> n" "n \<le> k_max_members"
  shows "(\<forall>i < n. rm_synced m ! i = Max (insert k_unsynced {C. (i, C) \<in> set R})) \<and>
    rm_all_committed m = Min ((\<lambda>i. Max (insert k_unsynced {C. (i, C) \<in> set R})) ` {..<n})"
proof -
  have rep: "Max (insert k_unsynced {C. (i, C) \<in> set R}) = reported R i" for i
    unfolding reported_def by (rule arg_cong [where f = Max]) force
  have syn: "rm_synced m ! i = reported R i" if "i < n" for i using route_run_reported [OF assms(3,5)] that by simp
  have "rm_all_committed m = min_synced n (rm_synced m)"
    using route_run_inv [OF assms(3,1,2,4,5)] by (simp add: route_inv_def)
  moreover have "min_synced n (rm_synced m) = Min (reported R ` {..<n})"
  proof (rule Min_eqI [symmetric])
    show "min_synced n (rm_synced m) \<in> reported R ` {..<n}"
      using min_synced_attained [of n "rm_synced m"] assms(4) syn by auto
    show "min_synced n (rm_synced m) \<le> y" if "y \<in> reported R ` {..<n}" for y
      using that min_synced_le [of _ n "rm_synced m"] syn by auto
  qed simp
  ultimately show ?thesis unfolding rep using syn by simp
qed

definition ex_synced :: "(route_slot ref_tracker, (nat \<times> int) list) read_route_map" where
  "ex_synced = advance_synced ref_icl 0 4 (advance_synced ref_icl 2 7 (advance_synced ref_icl 1 3 (advance_synced ref_icl 0 5
     (route_reset ref_stream ref_icl 3 (-1) (make_route_map ref_icl)))))"

lemma ex_synced_run:
  "route_run ref_stream ref_icl 3 (-1) ex_synced (\<lambda>_. None) [] [(0, 4), (2, 7), (1, 3), (0, 5)]"
  unfolding ex_synced_def by (intro run_synced run_reset) simp_all

theorem all_committed_is_min_witness:
  "route_run ref_stream ref_icl 3 (-1) ex_synced (\<lambda>_. None) [] [(0, 4), (2, 7), (1, 3), (0, 5)] \<and>
   rm_synced ex_synced ! 0 = 5 \<and> rm_synced ex_synced ! 1 = 3 \<and> rm_synced ex_synced ! 2 = 7 \<and> rm_all_committed ex_synced = 3"
proof -
  let ?R = "[(0, 4), (2, 7), (1, 3), (0, 5)] :: (nat \<times> int) list"
  have sets: "{C. (i, C) \<in> set ?R} = (if i = 0 then {4, 5} else if i = 1 then {3} else if i = 2 then {7} else {})" for i
    by auto
  have "{..<3} = {0, 1, 2 :: nat}" by auto
  then show ?thesis
    using all_committed_is_min [OF ref_stream_laws ref_icl_laws ex_synced_run, unfolded sets] ex_synced_run
    by (simp add: k_max_members_def k_unsynced_def)
qed

end
