(* ===== verification/Client.thy ===== *)
theory Client
  imports DlsnTracker RouteMap
begin

text \<open>
  The CRAFT client (\<open>src/client_impl.hpp\<close>, \<open>src/client.cpp\<close>): the session, the quorum write, the
  routed read, flush, keep-alives, the resolution round and logout, over the dLSN tracker and
  the read router.

  A verb that awaits its legs is split at the await. The part before it produces the requests;
  the part after it takes the legs' answers. \<open>when_all\<close> hands over every answer. \<open>when_quorum\<close>
  hands over the number of acknowledgements it has seen, and resumes when that reaches the
  quorum or when every leg has answered. The stream tracker's and interval map's operations
  are arguments, as in the theories below.
\<close>

section \<open>State\<close>

record ('t, 'o, 'm) craft_client =
  cc_n :: nat
  cc_leader :: nat
  cc_term :: nat
  cc_client_token :: nat
  cc_lba_size :: nat
  cc_capacity :: nat
  cc_max_tx :: nat
  cc_tracker :: "'t dlsn_tracker"
  cc_route :: "('o, 'm) read_route_map"

definition k_fold_batch :: int where "k_fold_batch = 512"

definition make_client :: "'m icl_ops \<Rightarrow> nat \<Rightarrow> nat \<Rightarrow> nat \<Rightarrow> ('t, 'o, 'm) craft_client" where
  "make_client im n leader max_inflight =
     \<lparr>cc_n = n, cc_leader = leader, cc_term = 0, cc_client_token = 0, cc_lba_size = 0, cc_capacity = 0, cc_max_tx = 0,
      cc_tracker = make_tracker max_inflight, cc_route = make_route_map im\<rparr>"

definition client_quorum :: "('t, 'o, 'm) craft_client \<Rightarrow> nat" where
  "client_quorum c = cc_n c div 2 + 1"

definition maybe_fold :: "'o overlay_ops \<Rightarrow> 'm icl_ops \<Rightarrow> ('t, 'o, 'm) craft_client \<Rightarrow> ('t, 'o, 'm) craft_client" where
  "maybe_fold so im c =
     (let F = dt_frontier (cc_tracker c) in
      if k_fold_batch \<le> F - rm_folded (cc_route c) then c\<lparr>cc_route := fold_to so im F (cc_route c)\<rparr> else c)"

definition make_hdr :: "('t, 'o, 'm) craft_client \<Rightarrow> client_hdr" where
  "make_hdr c = \<lparr>ch_term = cc_term c, ch_commit_lsn = dt_frontier (cc_tracker c),
     ch_all_committed_lsn = rm_all_committed (cc_route c), ch_client_token = cc_client_token c\<rparr>"

definition precheck :: "nat \<Rightarrow> nat \<Rightarrow> ('t, 'o, 'm) craft_client \<Rightarrow> error_condition option" where
  "precheck addr len c =
     (if cc_term c = 0 then Some (Errc not_connected)
      else if \<not> (cc_lba_size c \<noteq> 0 \<and> len \<noteq> 0 \<and> addr mod cc_lba_size c = 0 \<and> len mod cc_lba_size c = 0)
      then Some (Errc invalid_argument)
      else None)"

section \<open>Login\<close>

text \<open>
  Feeding one round of probe answers to the router: how many members acknowledged, and whether
  one of them holds the login prefix.
\<close>

fun probe_round ::
  "'m icl_ops \<Rightarrow> int \<Rightarrow> nat \<Rightarrow> lsn_pair result list \<Rightarrow> ('o, 'm) read_route_map \<Rightarrow> nat \<times> bool \<times> ('o, 'm) read_route_map" where
  "probe_round im L i [] m = (0, False, m)"
| "probe_round im L i (Inl e # acks) m = probe_round im L (i + 1) acks m"
| "probe_round im L i (Inr p # acks) m =
     (let (acked, holder, m') = probe_round im L (i + 1) acks (advance_synced im i (lp_commit_lsn p) m)
      in (acked + 1, holder \<or> L \<le> lp_commit_lsn p, m'))"

text \<open>
  The admission loop. A round is what the members answer to the header it is sent, with whether
  the deadline had passed when the answers were evaluated. \<open>None\<close>: the rounds given so far do
  not decide it.
\<close>

fun admit ::
  "'m icl_ops \<Rightarrow> int \<Rightarrow> (client_hdr \<Rightarrow> lsn_pair result list \<times> bool) list \<Rightarrow> ('t, 'o, 'm) craft_client
     \<Rightarrow> unit result option \<times> ('t, 'o, 'm) craft_client" where
  "admit im L [] c = (None, c)"
| "admit im L (round # rounds) c =
     (let (acks, expired) = round (make_hdr c);
          (acked, holder, m) = probe_round im L 0 acks (cc_route c);
          c1 = c\<lparr>cc_route := m\<rparr>
      in if client_quorum c \<le> acked \<and> holder then (Some (Inr ()), c1)
         else if expired then (Some (Inl (Craft NO_QUORUM)), c1)
         else admit im L rounds c1)"

definition establish ::
  "'t tracker_ops \<Rightarrow> 'o overlay_ops \<Rightarrow> 'm icl_ops \<Rightarrow> nat \<Rightarrow> nat \<Rightarrow> LoginResult \<Rightarrow> ('t, 'o, 'm) craft_client \<Rightarrow> ('t, 'o, 'm) craft_client" where
  "establish st so im target client_token lr c =
     c\<lparr>cc_leader := target, cc_term := lr_term lr, cc_client_token := client_token, cc_lba_size := lr_lba_size lr,
       cc_capacity := lr_capacity lr, cc_max_tx := lr_max_tx lr,
       cc_tracker := reset_at st (lr_dLSN lr) (lr_lba_size lr) (cc_tracker c),
       cc_route := route_reset so im (cc_n c) (lr_dLSN lr) (make_route_map im)\<rparr>"

text \<open>
  The walk over the backends, from the last known leader. \<open>resp target\<close> is the answer of backend
  \<open>target\<close> to the client's token; each backend is asked at most once.
\<close>

fun login_walk ::
  "'t tracker_ops \<Rightarrow> 'o overlay_ops \<Rightarrow> 'm icl_ops \<Rightarrow> nat \<Rightarrow> (nat \<Rightarrow> nat \<Rightarrow> LoginResult result)
     \<Rightarrow> (client_hdr \<Rightarrow> lsn_pair result list \<times> bool) list \<Rightarrow> nat list \<Rightarrow> error_condition option \<Rightarrow> ('t, 'o, 'm) craft_client
     \<Rightarrow> unit result option \<times> ('t, 'o, 'm) craft_client" where
  "login_walk st so im client_token resp rounds [] last_err c =
     (Some (Inl (case last_err of None \<Rightarrow> Craft NOT_LEADER | Some e \<Rightarrow> e)), c)"
| "login_walk st so im client_token resp rounds (hop # hops) last_err c =
     (let target = (cc_leader c + hop) mod cc_n c in
      case resp target client_token of
        Inl e \<Rightarrow> login_walk st so im client_token resp rounds hops (Some e) c
      | Inr lr \<Rightarrow>
          if lr_term lr = 0 then login_walk st so im client_token resp rounds hops last_err c
          else admit im (lr_dLSN lr) rounds (establish st so im target client_token lr c))"

definition login ::
  "'t tracker_ops \<Rightarrow> 'o overlay_ops \<Rightarrow> 'm icl_ops \<Rightarrow> nat \<Rightarrow> (nat \<Rightarrow> nat \<Rightarrow> LoginResult result)
     \<Rightarrow> (client_hdr \<Rightarrow> lsn_pair result list \<times> bool) list \<Rightarrow> ('t, 'o, 'm) craft_client
     \<Rightarrow> unit result option \<times> ('t, 'o, 'm) craft_client" where
  "login st so im client_token resp rounds c = login_walk st so im client_token resp rounds [0..<cc_n c] None c"

section \<open>Write\<close>

record write_request =
  wq_hdr :: client_hdr
  wq_dlsn :: int
  wq_addr :: nat
  wq_len :: nat
  wq_data :: sg_list

text \<open>Everything before the legs are awaited: the request every leg sends, or the refusal.\<close>

definition write_issue ::
  "'t tracker_ops \<Rightarrow> 'o overlay_ops \<Rightarrow> nat \<Rightarrow> nat \<Rightarrow> sg_list \<Rightarrow> ('t, 'o, 'm) craft_client
     \<Rightarrow> write_request result \<times> ('t, 'o, 'm) craft_client" where
  "write_issue st so addr len data c =
     (case precheck addr len c of
        Some e \<Rightarrow> (Inl e, c)
      | None \<Rightarrow>
          let (dlsn, t) = reserve st addr len (cc_tracker c);
              c1 = c\<lparr>cc_tracker := t, cc_route := route_create so dlsn addr len (cc_route c)\<rparr>
          in (Inr \<lparr>wq_hdr = make_hdr c1, wq_dlsn = dlsn, wq_addr = addr, wq_len = len, wq_data = data\<rparr>, c1))"

text \<open>What a leg does with its answer; a leg that throws reports \<open>REPLICA_DOWN\<close>.\<close>

definition write_leg ::
  "'o overlay_ops \<Rightarrow> 'm icl_ops \<Rightarrow> int \<Rightarrow> nat \<Rightarrow> lsn_pair result \<Rightarrow> ('o, 'm) read_route_map \<Rightarrow> ('o, 'm) read_route_map" where
  "write_leg so im dlsn idx r m =
     (let m1 = record_completion so dlsn idx (\<not> isl r) m in
      case r of Inl e \<Rightarrow> m1 | Inr p \<Rightarrow> advance_synced im idx (lp_commit_lsn p) m1)"

definition deterministic_reject :: "error_condition \<Rightarrow> bool" where
  "deterministic_reject e \<longleftrightarrow> e = Errc invalid_argument \<or> e = Craft REPLICA_DOWN"

definition refused_count :: "lsn_pair result list \<Rightarrow> nat" where
  "refused_count results = length (filter (\<lambda>r. case r of Inl e \<Rightarrow> deterministic_reject e | Inr p \<Rightarrow> False) results)"

definition last_error :: "'a result list \<Rightarrow> error_condition option" where
  "last_error results = fold (\<lambda>r e. case r of Inl x \<Rightarrow> Some x | Inr p \<Rightarrow> e) results None"

text \<open>Begin a resolution round on every member that has none outstanding.\<close>

fun begin_on :: "(nat \<Rightarrow> ('o, 'm) read_route_map \<Rightarrow> bool \<times> ('o, 'm) read_route_map) \<Rightarrow> nat list \<Rightarrow> ('o, 'm) read_route_map
     \<Rightarrow> nat list \<times> ('o, 'm) read_route_map" where
  "begin_on take_flag [] m = ([], m)"
| "begin_on take_flag (i # is) m =
     (let (ok, m1) = take_flag i m; (fired, m2) = begin_on take_flag is m1 in (if ok then i # fired else fired, m2))"

definition request_resolution_round ::
  "int \<Rightarrow> ('t, 'o, 'm) craft_client \<Rightarrow> nat list \<times> ('t, 'o, 'm) craft_client" where
  "request_resolution_round lim c =
     (let (fired, m) = begin_on try_begin_resolution [0..<cc_n c] (cc_route c)
      in (fired, c\<lparr>cc_tracker := note_resolution_want lim (cc_tracker c), cc_route := m\<rparr>))"

text \<open>
  Everything after the latch: \<open>acks\<close> is the latch's count, \<open>results\<close> the answers, read only when
  the count is short of the quorum. Also returns the members a resolution leg is started on.
\<close>

definition write_finish ::
  "'t tracker_ops \<Rightarrow> 'o overlay_ops \<Rightarrow> 'm icl_ops \<Rightarrow> int \<Rightarrow> nat \<Rightarrow> nat \<Rightarrow> lsn_pair result list \<Rightarrow> ('t, 'o, 'm) craft_client
     \<Rightarrow> nat result \<times> nat list \<times> ('t, 'o, 'm) craft_client" where
  "write_finish st so im dlsn len acks results c =
     (if client_quorum c \<le> acks
      then (Inr len, [], maybe_fold so im (c\<lparr>cc_tracker := resolve st dlsn Acked (cc_tracker c)\<rparr>))
      else let provably_empty = (refused_count results = cc_n c);
               c1 = maybe_fold so im (c\<lparr>cc_tracker := resolve st dlsn (if provably_empty then Empty else Failed) (cc_tracker c)\<rparr>);
               (fired, c2) = (if provably_empty then ([], c1) else request_resolution_round dlsn c1)
           in (Inl (case last_error results of None \<Rightarrow> Craft NO_QUORUM | Some e \<Rightarrow> e), fired, c2))"

text \<open>
  The whole verb. \<open>ans\<close> is what the members answer to the request, \<open>ord\<close> the legs that have finished
  when the latch releases the caller, in that order; the others finish later, each by a
  \<open>write_leg\<close> of its own.
\<close>

definition acked_of :: "lsn_pair result list \<Rightarrow> nat list \<Rightarrow> nat" where
  "acked_of results ord = length (filter (\<lambda>i. \<not> isl (results ! i)) ord)"

definition client_write ::
  "'t tracker_ops \<Rightarrow> 'o overlay_ops \<Rightarrow> 'm icl_ops \<Rightarrow> nat \<Rightarrow> nat \<Rightarrow> sg_list \<Rightarrow> (write_request \<Rightarrow> lsn_pair result list) \<Rightarrow> nat list
     \<Rightarrow> ('t, 'o, 'm) craft_client \<Rightarrow> nat result \<times> nat list \<times> ('t, 'o, 'm) craft_client" where
  "client_write st so im addr len data ans ord c =
     (case write_issue st so addr len data c of
        (Inl e, c1) \<Rightarrow> (Inl e, [], c1)
      | (Inr rq, c1) \<Rightarrow>
          let results = ans rq;
              m = fold (\<lambda>i. write_leg so im (wq_dlsn rq) i (results ! i)) ord (cc_route c1)
          in write_finish st so im (wq_dlsn rq) len (acked_of results ord) results (c1\<lparr>cc_route := m\<rparr>))"

section \<open>The resolution leg\<close>

text \<open>
  One detached leg to member \<open>idx\<close>, with the term, tracker and router it captured. It peeks the want
  and sends a request; \<open>resolution_reply\<close> handles the answer. When the want is gone,
  \<open>resolution_idle\<close> releases the member's flag; the leg continues only if a new want is pending and
  the flag can be taken again. The boolean says whether the leg goes on.
\<close>

definition resolution_request ::
  "nat \<Rightarrow> 't dlsn_tracker \<Rightarrow> ('o, 'm) read_route_map \<Rightarrow> (client_hdr \<times> int) option" where
  "resolution_request term1 t m =
     map_option (\<lambda>want. (\<lparr>ch_term = term1, ch_commit_lsn = dt_frontier t, ch_all_committed_lsn = rm_all_committed m,
         ch_client_token = 0\<rparr>, want)) (resolution_want t)"

definition resolution_reply ::
  "'t tracker_ops \<Rightarrow> 'o overlay_ops \<Rightarrow> nat \<Rightarrow> resolution_result result \<Rightarrow> 't dlsn_tracker \<times> ('o, 'm) read_route_map
     \<Rightarrow> (bool \<times> 't dlsn_tracker \<times> ('o, 'm) read_route_map) option" where
  "resolution_reply st so idx r tm =
     (case r of
        Inl e \<Rightarrow> Some (False, fst tm, end_resolution idx (snd tm))
      | Inr rr \<Rightarrow>
          map_option (\<lambda>(t, m). (True, clear_resolution_want (rs_resolved_upto rr) t, m))
            (retire_upto st (rs_resolved_upto rr) (rs_empty_slots rr) (\<lambda>d. note_filled so d idx) (fst tm) (snd tm)))"

definition resolution_idle ::
  "nat \<Rightarrow> 't dlsn_tracker \<times> ('o, 'm) read_route_map \<Rightarrow> bool \<times> 't dlsn_tracker \<times> ('o, 'm) read_route_map" where
  "resolution_idle idx tm =
     (let m = end_resolution idx (snd tm) in
      if resolution_want (fst tm) = None then (False, fst tm, m)
      else let (ok, m1) = try_begin_resolution idx m in (ok, fst tm, m1))"

text \<open>The leg as a loop over the member's answers, one per request.\<close>

fun fire_resolution ::
  "'t tracker_ops \<Rightarrow> 'o overlay_ops \<Rightarrow> nat \<Rightarrow> nat \<Rightarrow> (client_hdr \<Rightarrow> int \<Rightarrow> resolution_result result) list
     \<Rightarrow> 't dlsn_tracker \<times> ('o, 'm) read_route_map \<Rightarrow> (bool \<times> 't dlsn_tracker \<times> ('o, 'm) read_route_map) option" where
  "fire_resolution st so idx term1 [] tm =
     (if resolution_request term1 (fst tm) (snd tm) = None then Some (resolution_idle idx tm) else Some (True, tm))"
| "fire_resolution st so idx term1 (answer # answers) tm =
     (case resolution_request term1 (fst tm) (snd tm) of
        None \<Rightarrow>
          (let (again, tm1) = resolution_idle idx tm in
           if again then fire_resolution st so idx term1 answers tm1 else Some (False, tm1))
      | Some (hdr, want) \<Rightarrow>
          (case resolution_reply st so idx (answer hdr want) tm of
             None \<Rightarrow> None
           | Some (again, tm1) \<Rightarrow> if again then fire_resolution st so idx term1 answers tm1 else Some (False, tm1)))"

section \<open>Read\<close>

text \<open>
  The requests of a plan to one member: \<open>(H, addr, len)\<close> each. A plan of one segment is sent as the
  caller's whole range.
\<close>

definition plan_requests :: "read_segment list \<Rightarrow> nat \<Rightarrow> nat \<Rightarrow> (int \<times> nat \<times> nat) list" where
  "plan_requests plan addr len =
     (if length plan = 1 then [(sg_H (hd plan), addr, len)] else map (\<lambda>s. (sg_H s, sg_addr s, sg_len s)) plan)"

fun merge_lsns :: "read_result result list \<Rightarrow> lsn_pair \<Rightarrow> lsn_pair result" where
  "merge_lsns [] p = Inr p"
| "merge_lsns (Inl e # rs) p = Inl e"
| "merge_lsns (Inr r # rs) p =
     merge_lsns rs \<lparr>lp_commit_lsn = max (lp_commit_lsn p) (lp_commit_lsn (rr_lsns r)),
                    lp_last_append_lsn = max (lp_last_append_lsn p) (lp_last_append_lsn (rr_lsns r))\<rparr>"

definition plan_outcome_of :: "read_segment list \<Rightarrow> read_result result list \<Rightarrow> lsn_pair result" where
  "plan_outcome_of plan results =
     (if length plan = 1
      then (case hd results of Inl e \<Rightarrow> Inl e | Inr r \<Rightarrow> Inr (rr_lsns r))
      else merge_lsns results \<lparr>lp_commit_lsn = -1, lp_last_append_lsn = -1\<rparr>)"

definition transport_failure :: "error_condition \<Rightarrow> bool" where
  "transport_failure e \<longleftrightarrow> e = Craft REPLICA_DOWN \<or> e = Errc timed_out"

definition drive_keepalives ::
  "nat \<Rightarrow> ('t, 'o, 'm) craft_client \<Rightarrow> (client_hdr \<times> nat list) \<times> ('t, 'o, 'm) craft_client" where
  "drive_keepalives exclude_idx c =
     (if cc_term c = 0 then ((make_hdr c, []), c)
      else let (fired, m) = begin_on try_begin_keepalive (filter (\<lambda>m. m \<noteq> exclude_idx) [0..<cc_n c]) (cc_route c)
           in ((make_hdr c, fired), c\<lparr>cc_route := m\<rparr>))"

definition fire_keepalive ::
  "'m icl_ops \<Rightarrow> nat \<Rightarrow> lsn_pair result \<Rightarrow> ('o, 'm) read_route_map \<Rightarrow> ('o, 'm) read_route_map" where
  "fire_keepalive im idx r m =
     end_keepalive idx (case r of Inl e \<Rightarrow> m | Inr p \<Rightarrow> advance_synced im idx (lp_commit_lsn p) m)"

text \<open>
  A whole plan at one member: \<open>serve hdr H addr len\<close> is what the member answers to one request.
\<close>

definition issue_plan ::
  "(client_hdr \<Rightarrow> int \<Rightarrow> nat \<Rightarrow> nat \<Rightarrow> read_result result) \<Rightarrow> client_hdr \<Rightarrow> read_segment list \<Rightarrow> nat \<Rightarrow> nat \<Rightarrow> lsn_pair result" where
  "issue_plan serve hdr plan addr len =
     plan_outcome_of plan (map (\<lambda>(H, a, l). serve hdr H a l) (plan_requests plan addr len))"

text \<open>
  The search over the members in the order the rotor gives; \<open>serve idx\<close> answers for member \<open>idx\<close>.
\<close>

record ('t, 'o, 'm) read_done =
  rd_result :: "nat result"
  rd_served :: "nat option"
  rd_rotor :: nat
  rd_client :: "('t, 'o, 'm) craft_client"

fun read_walk ::
  "'o overlay_ops \<Rightarrow> 'm icl_ops \<Rightarrow> nat \<Rightarrow> nat \<Rightarrow> int \<Rightarrow> (nat \<Rightarrow> lsn_pair result) \<Rightarrow> nat list \<Rightarrow> bool \<Rightarrow> nat
     \<Rightarrow> ('t, 'o, 'm) craft_client \<Rightarrow> ('t, 'o, 'm) read_done" where
  "read_walk so im addr len Hmax issue [] any_eligible rotor c =
     \<lparr>rd_result = Inl (Craft (if any_eligible then NO_QUORUM else NOT_ELIGIBLE)), rd_served = None, rd_rotor = rotor, rd_client = c\<rparr>"
| "read_walk so im addr len Hmax issue (idx # is) any_eligible rotor c =
     (if \<not> eligible so im idx addr len Hmax (cc_route c)
      then read_walk so im addr len Hmax issue is any_eligible rotor c
      else let rotor' = (if any_eligible then rotor else idx + 1) in
        case issue idx of
          Inr p \<Rightarrow>
            let c1 = c\<lparr>cc_route := advance_synced im idx (lp_commit_lsn p) (cc_route c)\<rparr>
            in \<lparr>rd_result = Inr len, rd_served = Some idx, rd_rotor = rotor', rd_client = snd (drive_keepalives idx c1)\<rparr>
        | Inl e \<Rightarrow>
            if \<not> transport_failure e
            then \<lparr>rd_result = Inl e, rd_served = None, rd_rotor = rotor', rd_client = c\<rparr>
            else read_walk so im addr len Hmax issue is True rotor' c)"

definition plan_hmax :: "int \<Rightarrow> read_segment list \<Rightarrow> int" where
  "plan_hmax F plan = fold (\<lambda>s h. max h (sg_H s)) plan F"

text \<open>The whole verb; \<open>plan\<close> is what \<open>plan_read\<close> resolved to.\<close>

definition client_read ::
  "'o overlay_ops \<Rightarrow> 'm icl_ops \<Rightarrow> nat \<Rightarrow> nat \<Rightarrow> read_segment list result
     \<Rightarrow> (nat \<Rightarrow> client_hdr \<Rightarrow> int \<Rightarrow> nat \<Rightarrow> nat \<Rightarrow> read_result result) \<Rightarrow> nat
     \<Rightarrow> ('t, 'o, 'm) craft_client \<Rightarrow> ('t, 'o, 'm) read_done" where
  "client_read so im addr len plan serve rotor c =
     (case precheck addr len c of
        Some e \<Rightarrow> \<lparr>rd_result = Inl e, rd_served = None, rd_rotor = rotor, rd_client = c\<rparr>
      | None \<Rightarrow>
          (case plan of
             Inl e \<Rightarrow> \<lparr>rd_result = Inl e, rd_served = None, rd_rotor = rotor, rd_client = c\<rparr>
           | Inr segs \<Rightarrow>
               let hdr = make_hdr c;
                   F = dt_frontier (cc_tracker c);
                   c1 = c\<lparr>cc_route := fold_to so im F (cc_route c)\<rparr>;
                   n = cc_n c;
                   start = rotor mod n
               in read_walk so im addr len (plan_hmax F segs) (\<lambda>idx. issue_plan (serve idx) hdr segs addr len)
                    (map (\<lambda>hop. (start + hop) mod n) [0..<n]) False rotor c1))"

section \<open>Flush and logout\<close>

fun feed_replies ::
  "'m icl_ops \<Rightarrow> nat \<Rightarrow> lsn_pair result list \<Rightarrow> ('o, 'm) read_route_map \<Rightarrow> ('o, 'm) read_route_map" where
  "feed_replies im i [] m = m"
| "feed_replies im i (r # rs) m =
     feed_replies im (i + 1) rs (case r of Inl e \<Rightarrow> m | Inr p \<Rightarrow> advance_synced im i (lp_commit_lsn p) m)"

definition flush ::
  "'m icl_ops \<Rightarrow> (client_hdr \<Rightarrow> lsn_pair result list) \<Rightarrow> ('t, 'o, 'm) craft_client \<Rightarrow> unit result \<times> ('t, 'o, 'm) craft_client" where
  "flush im ans c =
     (let results = ans (make_hdr c);
          c1 = c\<lparr>cc_route := feed_replies im 0 results (cc_route c)\<rparr> in
      if list_ex (\<lambda>r. \<not> isl r) results then (Inr (), c1)
      else (Inl (case last_error results of None \<Rightarrow> Craft NO_QUORUM | Some e \<Rightarrow> e), c1))"

definition end_session :: "('t, 'o, 'm) craft_client \<Rightarrow> ('t, 'o, 'm) craft_client" where
  "end_session c = c\<lparr>cc_term := 0, cc_lba_size := 0, cc_capacity := 0, cc_max_tx := 0\<rparr>"

fun logout_walk ::
  "(nat \<Rightarrow> client_hdr \<Rightarrow> unit result) \<Rightarrow> nat list \<Rightarrow> error_condition option \<Rightarrow> ('t, 'o, 'm) craft_client \<Rightarrow> unit result \<times> ('t, 'o, 'm) craft_client" where
  "logout_walk resp [] last_err c = (Inl (case last_err of None \<Rightarrow> Craft NOT_LEADER | Some e \<Rightarrow> e), c)"
| "logout_walk resp (hop # hops) last_err c =
     (let target = (cc_leader c + hop) mod cc_n c in
      case resp target (make_hdr c) of
        Inr u \<Rightarrow> (Inr (), end_session (c\<lparr>cc_leader := target\<rparr>))
      | Inl e \<Rightarrow> if e = Craft STALE_TERM then (Inr (), end_session c) else logout_walk resp hops (Some e) c)"

definition logout :: "(nat \<Rightarrow> client_hdr \<Rightarrow> unit result) \<Rightarrow> ('t, 'o, 'm) craft_client \<Rightarrow> unit result \<times> ('t, 'o, 'm) craft_client" where
  "logout resp c = (if cc_term c = 0 then (Inr (), c) else logout_walk resp [0..<cc_n c] None c)"

section \<open>The latch and the verdict of a write\<close>

text \<open>
  What \<open>when_quorum\<close> promises: each leg finishes at most once, and the caller resumes once a
  quorum has acknowledged or every leg has finished.
\<close>

definition latched :: "nat \<Rightarrow> nat \<Rightarrow> lsn_pair result list \<Rightarrow> nat list \<Rightarrow> bool" where
  "latched n q results ord \<longleftrightarrow> length results = n \<and> distinct ord \<and> set ord \<subseteq> {..<n} \<and>
     (q \<le> acked_of results ord \<or> set ord = {..<n})"

definition acked_members :: "lsn_pair result list \<Rightarrow> nat set" where
  "acked_members results = {i. i < length results \<and> \<not> isl (results ! i)}"

definition verdict_of :: "nat \<Rightarrow> lsn_pair result list \<Rightarrow> slot_outcome" where
  "verdict_of q results =
     (if q \<le> card (acked_members results) then Acked
      else if list_all (\<lambda>r. case r of Inl e \<Rightarrow> deterministic_reject e | Inr p \<Rightarrow> False) results then Empty
      else Failed)"

lemma acked_of_card:
  assumes "distinct ord"
  shows "acked_of results ord = card {i \<in> set ord. \<not> isl (results ! i)}"
  using distinct_card [OF distinct_filter [OF assms]] by (simp add: acked_of_def)

lemma latched_quorum:
  assumes l: "latched n q results ord"
  shows "q \<le> acked_of results ord \<longleftrightarrow> q \<le> card (acked_members results)"
proof -
  let ?A = "{i \<in> set ord. \<not> isl (results ! i)}"
  have sub: "?A \<subseteq> acked_members results" and fin: "finite (acked_members results)"
    using l by (auto simp: latched_def acked_members_def)
  have "?A = acked_members results" if "set ord = {..<n}"
    using l that by (auto simp: latched_def acked_members_def)
  moreover have "acked_of results ord = card ?A"
    using l by (intro acked_of_card) (simp add: latched_def)
  ultimately show ?thesis
    using l card_mono [OF fin sub] by (auto simp: latched_def)
qed

lemma refused_all:
  "refused_count results = length results \<longleftrightarrow> list_all (\<lambda>r. case r of Inl e \<Rightarrow> deterministic_reject e | Inr p \<Rightarrow> False) results"
proof -
  have "length (filter P xs) = length xs \<longleftrightarrow> list_all P xs" for P :: "lsn_pair result \<Rightarrow> bool" and xs
    using length_filter_less [of _ xs P] by (force simp: list_all_iff)
  then show ?thesis by (simp add: refused_count_def)
qed

lemma last_error_cases:
  assumes "last_error results = Some e"
  shows "Inl e \<in> set results"
proof -
  have "fold (\<lambda>r e. case r of Inl x \<Rightarrow> Some x | Inr p \<Rightarrow> e) xs e0 = Some e \<Longrightarrow> Inl e \<in> set xs \<or> e0 = Some e"
    for xs :: "'a result list" and e0
    by (induction xs arbitrary: e0) (fastforce split: sum.splits)+
  then show ?thesis using assms by (fastforce simp: last_error_def)
qed

lemma last_error_none:
  "last_error results = None \<longleftrightarrow> (\<forall>r \<in> set results. \<not> isl r)"
proof -
  have "fold (\<lambda>r e. case r of Inl x \<Rightarrow> Some x | Inr p \<Rightarrow> e) xs e0 = None \<longleftrightarrow> e0 = None \<and> (\<forall>r \<in> set xs. \<not> isl r)"
    for xs :: "'a result list" and e0
    by (induction xs arbitrary: e0) (auto split: sum.splits)
  then show ?thesis by (simp add: last_error_def)
qed

lemma maybe_fold_fields [simp]:
  "cc_tracker (maybe_fold so im c) = cc_tracker c" "cc_n (maybe_fold so im c) = cc_n c"
  "cc_term (maybe_fold so im c) = cc_term c" "client_quorum (maybe_fold so im c) = client_quorum c"
  by (simp_all add: maybe_fold_def Let_def client_quorum_def)

lemma request_resolution_round_fields [simp]:
  "cc_tracker (snd (request_resolution_round d c)) = note_resolution_want d (cc_tracker c)"
  by (simp add: request_resolution_round_def split: prod.splits)

lemma client_quorum_route [simp]:
  "client_quorum (c\<lparr>cc_tracker := t\<rparr>) = client_quorum c" "client_quorum (c\<lparr>cc_route := m\<rparr>) = client_quorum c"
  by (simp_all add: client_quorum_def)

lemma begin_on_fired:
  assumes other: "\<And>i j m. j \<noteq> i \<Longrightarrow> flags (snd (take_flag i m)) ! j = (flags m ! j :: bool)"
    and ok: "\<And>i m. fst (take_flag i m) \<longleftrightarrow> \<not> flags m ! i"
    and "distinct is"
  shows "fst (begin_on take_flag is m) = filter (\<lambda>i. \<not> flags m ! i) is"
  using \<open>distinct is\<close>
proof (induction "is" arbitrary: m)
  case (Cons i "is")
  have "filter (\<lambda>j. \<not> flags (snd (take_flag i m)) ! j) is = filter (\<lambda>j. \<not> flags m ! j) is"
    using Cons.prems by (intro filter_cong refl) (metis distinct.simps(2) other)
  with Cons.IH [of "snd (take_flag i m)"] Cons.prems ok [of i m] show ?case
    by (simp add: split_beta Let_def)
qed simp


lemmas resolution_fired =
  begin_on_fired [where take_flag = try_begin_resolution and flags = rm_rr_inflight]

lemmas keepalive_fired =
  begin_on_fired [where take_flag = try_begin_keepalive and flags = rm_ka_inflight]

lemma request_resolution_round_fired [simp]:
  "fst (request_resolution_round d c) = filter (\<lambda>i. \<not> rm_rr_inflight (cc_route c) ! i) [0..<cc_n c]"
proof -
  have "fst (begin_on try_begin_resolution [0..<cc_n c] (cc_route c)) = filter (\<lambda>i. \<not> rm_rr_inflight (cc_route c) ! i) [0..<cc_n c]"
    by (rule resolution_fired) (simp_all add: try_begin_resolution_def)
  then show ?thesis by (simp add: request_resolution_round_def split_beta)
qed

lemma drive_keepalives_fired:
  assumes "cc_term c \<noteq> 0"
  shows "snd (fst (drive_keepalives idx c)) = filter (\<lambda>i. i \<noteq> idx \<and> \<not> rm_ka_inflight (cc_route c) ! i) [0..<cc_n c]"
proof -
  have "fst (begin_on try_begin_keepalive (filter (\<lambda>m. m \<noteq> idx) [0..<cc_n c]) (cc_route c))
      = filter (\<lambda>i. \<not> rm_ka_inflight (cc_route c) ! i) (filter (\<lambda>m. m \<noteq> idx) [0..<cc_n c])"
    by (rule keepalive_fired) (simp_all add: try_begin_keepalive_def)
  then show ?thesis using assms by (simp add: drive_keepalives_def split_beta Let_def)
qed

text \<open>The verdict does not depend on the order in which the legs finish.\<close>

lemma write_finish_verdict:
  assumes l: "latched (cc_n c) (client_quorum c) results ord"
  shows "isl (fst (write_finish st so im d len (acked_of results ord) results c)) \<longleftrightarrow>
      verdict_of (client_quorum c) results \<noteq> Acked"
    and "fst (write_finish st so im d len (acked_of results ord) results c) = Inr k \<Longrightarrow> k = len"
    and "fst (write_finish st so im d len (acked_of results ord) results c) = Inl e \<Longrightarrow>
      Inl e \<in> set results \<or> e = Craft NO_QUORUM"
    and "cc_tracker (snd (snd (write_finish st so im d len (acked_of results ord) results c))) =
      (if verdict_of (client_quorum c) results = Failed then note_resolution_want d else (\<lambda>t. t))
        (resolve st d (verdict_of (client_quorum c) results) (cc_tracker c))"
proof -
  have n: "length results = cc_n c" using l by (simp add: latched_def)
  note [simp] = latched_quorum [OF l] refused_all [of results, unfolded n] write_finish_def Let_def verdict_of_def
  show "isl (fst (write_finish st so im d len (acked_of results ord) results c)) \<longleftrightarrow>
      verdict_of (client_quorum c) results \<noteq> Acked"
    by (simp add: split_beta)
  show "fst (write_finish st so im d len (acked_of results ord) results c) = Inr k \<Longrightarrow> k = len"
    by (simp add: split_beta split: if_splits)
  show "fst (write_finish st so im d len (acked_of results ord) results c) = Inl e \<Longrightarrow>
      Inl e \<in> set results \<or> e = Craft NO_QUORUM"
    using last_error_cases [of results] by (auto simp: split_beta split: if_splits option.splits)
  show "cc_tracker (snd (snd (write_finish st so im d len (acked_of results ord) results c))) =
      (if verdict_of (client_quorum c) results = Failed then note_resolution_want d else (\<lambda>t. t))
        (resolve st d (verdict_of (client_quorum c) results) (cc_tracker c))"
    by (simp add: split_beta)
qed

section \<open>The search of a read\<close>

definition passed_over :: "'o overlay_ops \<Rightarrow> 'm icl_ops \<Rightarrow> nat \<Rightarrow> nat \<Rightarrow> int \<Rightarrow> (nat \<Rightarrow> lsn_pair result) \<Rightarrow> ('o, 'm) read_route_map \<Rightarrow> nat \<Rightarrow> bool" where
  "passed_over so im addr len Hmax issue m idx \<longleftrightarrow>
     eligible so im idx addr len Hmax m \<longrightarrow> (case issue idx of Inl e \<Rightarrow> transport_failure e | Inr p \<Rightarrow> False)"

text \<open>Where the search stops, and with what.\<close>

lemma read_walk_cases:
  fixes so :: "'o overlay_ops" and im :: "'m icl_ops" and c :: "('t, 'o, 'm) craft_client" and addr len :: nat and Hmax :: int
    and issue :: "nat \<Rightarrow> lsn_pair result"
  defines "ok \<equiv> \<lambda>i. eligible so im i addr len Hmax (cc_route c)"
    and "passed \<equiv> passed_over so im addr len Hmax issue (cc_route c)"
  shows "(\<exists>pre idx post p rotor'. members = pre @ idx # post \<and> (\<forall>i \<in> set pre. passed i) \<and> ok idx \<and> issue idx = Inr p \<and>
            read_walk so im addr len Hmax issue members any rotor c =
              \<lparr>rd_result = Inr len, rd_served = Some idx, rd_rotor = rotor',
               rd_client = snd (drive_keepalives idx (c\<lparr>cc_route := advance_synced im idx (lp_commit_lsn p) (cc_route c)\<rparr>))\<rparr>)
       \<or> (\<exists>pre idx post e rotor'. members = pre @ idx # post \<and> (\<forall>i \<in> set pre. passed i) \<and> ok idx \<and> issue idx = Inl e \<and> \<not> transport_failure e \<and>
            read_walk so im addr len Hmax issue members any rotor c =
              \<lparr>rd_result = Inl e, rd_served = None, rd_rotor = rotor', rd_client = c\<rparr>)
       \<or> (\<exists>rotor'. (\<forall>i \<in> set members. passed i) \<and>
            read_walk so im addr len Hmax issue members any rotor c =
              \<lparr>rd_result = Inl (Craft (if any \<or> (\<exists>i \<in> set members. ok i) then NO_QUORUM else NOT_ELIGIBLE)), rd_served = None,
               rd_rotor = rotor', rd_client = c\<rparr>)"
    (is "?served members any rotor \<or> ?refused members any rotor \<or> ?exhausted members any rotor")
proof (induction members arbitrary: any rotor)
  case Nil
  have "?exhausted [] any rotor" by simp
  then show ?case by blast
next
  case (Cons idx members)
  let ?rotor = "if any then rotor else idx + 1"
  have lift: "?served (idx # members) any rotor \<or> ?refused (idx # members) any rotor \<or> ?exhausted (idx # members) any rotor"
    if p: "passed idx"
      and eq: "read_walk so im addr len Hmax issue (idx # members) any rotor c = read_walk so im addr len Hmax issue members any' rotor1 c"
      and any': "any' \<longleftrightarrow> any \<or> ok idx"
      for any' rotor1
    using Cons.IH [of any' rotor1]
  proof (elim disjE)
    assume "?served members any' rotor1"
    then have "?served (idx # members) any rotor" unfolding eq using p by (metis append_Cons set_ConsD)
    then show ?thesis by blast
  next
    assume "?refused members any' rotor1"
    then have "?refused (idx # members) any rotor" unfolding eq using p by (metis append_Cons set_ConsD)
    then show ?thesis by blast
  next
    assume "?exhausted members any' rotor1"
    then have "?exhausted (idx # members) any rotor" unfolding eq any' using p by auto
    then show ?thesis by blast
  qed
  show ?case
  proof (cases "ok idx")
    case False
    then show ?thesis by (intro lift [of any rotor]) (auto simp: passed_def passed_over_def ok_def)
  next
    case True
    show ?thesis
    proof (cases "issue idx")
      case (Inr p)
      have "?served (idx # members) any rotor"
        using True Inr by (intro exI [of _ "[]"] exI [of _ idx] exI [of _ members] exI [of _ p] exI [of _ ?rotor]) (simp add: ok_def Let_def)
      then show ?thesis by blast
    next
      case (Inl e)
      show ?thesis
      proof (cases "transport_failure e")
        case True': True
        show ?thesis using True True' Inl
          by (intro lift [of True ?rotor]) (auto simp: passed_def passed_over_def ok_def Let_def)
      next
        case False
        have "?refused (idx # members) any rotor"
          using True Inl False by (intro exI [of _ "[]"] exI [of _ idx] exI [of _ members] exI [of _ e] exI [of _ ?rotor]) (simp add: ok_def Let_def)
        then show ?thesis by blast
      qed
    qed
  qed
qed

lemma rotor_members:
  assumes "0 < n"
  shows "set (map (\<lambda>hop. (start + hop) mod n) [0..<n]) = {..<n}"
proof
  show "set (map (\<lambda>hop. (start + hop) mod n) [0..<n]) \<subseteq> {..<n}" using assms by auto
  show "{..<n} \<subseteq> set (map (\<lambda>hop. (start + hop) mod n) [0..<n])"
  proof
    fix i assume i: "i \<in> {..<n}"
    let ?hop = "(i + (n - start mod n)) mod n"
    have "(start + ?hop) mod n = (start mod n + (i + (n - start mod n))) mod n"
      by (simp add: mod_add_left_eq mod_add_right_eq)
    also have "start mod n + (i + (n - start mod n)) = i + n"
      using assms mod_less_divisor [of n start] by linarith
    finally have "(start + ?hop) mod n = i" using i by simp
    moreover have "?hop \<in> set [0..<n]" using assms by simp
    ultimately show "i \<in> set (map (\<lambda>hop. (start + hop) mod n) [0..<n])"
      by (metis (no_types, lifting) image_eqI set_map)
  qed
qed

lemma plan_hmax_ge: "F \<le> plan_hmax F segs" "s \<in> set segs \<Longrightarrow> sg_H s \<le> plan_hmax F segs"
proof -
  have "h \<le> fold (\<lambda>s h. max h (sg_H s)) xs h \<and> (\<forall>s \<in> set xs. sg_H s \<le> fold (\<lambda>s h. max h (sg_H s)) xs h)"
    for xs :: "read_segment list" and h
  proof (induction xs arbitrary: h)
    case (Cons x xs)
    show ?case using Cons.IH [of "max h (sg_H x)"] by auto
  qed simp
  then show "F \<le> plan_hmax F segs" "s \<in> set segs \<Longrightarrow> sg_H s \<le> plan_hmax F segs"
    by (auto simp: plan_hmax_def)
qed

section \<open>Login\<close>

lemma probe_round_spec:
  "probe_round im L i acks m = (acked, holder, m') \<Longrightarrow>
     acked = length (filter (\<lambda>r. \<not> isl r) acks) \<and> (holder \<longleftrightarrow> (\<exists>p. Inr p \<in> set acks \<and> L \<le> lp_commit_lsn p)) \<and>
     m' = feed_replies im i acks m"
proof (induction im L i acks m arbitrary: acked holder m' rule: probe_round.induct)
  case (3 im L i p acks m)
  then show ?case by (fastforce simp: Let_def split: prod.splits)
qed auto

text \<open>What an admission loop that ends has seen.\<close>

definition probe_decides :: "nat \<Rightarrow> int \<Rightarrow> unit result \<Rightarrow> (client_hdr \<Rightarrow> lsn_pair result list \<times> bool) \<Rightarrow> bool" where
  "probe_decides q L r round \<longleftrightarrow> (\<exists>hdr acks expired. round hdr = (acks, expired) \<and>
     (r = Inr () \<and> q \<le> length (filter (\<lambda>a. \<not> isl a) acks) \<and> (\<exists>p. Inr p \<in> set acks \<and> L \<le> lp_commit_lsn p) \<or>
      r = Inl (Craft NO_QUORUM) \<and> expired))"

lemma admit_outcome:
  assumes "admit im L rounds c = (Some r, c')"
  shows "(\<exists>m. c' = c\<lparr>cc_route := m\<rparr>) \<and> (\<exists>round \<in> set rounds. probe_decides (client_quorum c) L r round)"
  using assms
proof (induction rounds arbitrary: c)
  case (Cons round rounds)
  obtain acks expired where rd: "round (make_hdr c) = (acks, expired)" by fastforce
  obtain acked holder m1 where pr: "probe_round im L 0 acks (cc_route c) = (acked, holder, m1)" using prod_cases3 by blast
  note spec = probe_round_spec [OF pr]
  let ?c1 = "c\<lparr>cc_route := m1\<rparr>"
  have decides: "probe_decides (client_quorum c) L r round"
    if "r = Inr () \<and> client_quorum c \<le> length (filter (\<lambda>a. \<not> isl a) acks) \<and> (\<exists>p. Inr p \<in> set acks \<and> L \<le> lp_commit_lsn p) \<or>
      r = Inl (Craft NO_QUORUM) \<and> expired"
    unfolding probe_decides_def using rd that by (intro exI conjI)
  consider (admitted) "client_quorum c \<le> acked" holder | (late) "\<not> (client_quorum c \<le> acked \<and> holder)" expired
    | (again) "\<not> (client_quorum c \<le> acked \<and> holder)" "\<not> expired" by blast
  then show ?case
  proof cases
    case admitted
    then have "r = Inr ()" and c': "c' = ?c1" using Cons.prems rd pr by simp_all
    then show ?thesis using admitted spec decides by auto
  next
    case late
    then have "r = Inl (Craft NO_QUORUM)" and c': "c' = ?c1" using Cons.prems rd pr by (auto simp: Let_def split: if_splits)
    then show ?thesis using late decides by auto
  next
    case again
    then have "admit im L rounds ?c1 = (Some r, c')" using Cons.prems rd pr by (auto simp: Let_def split: if_splits)
    from Cons.IH [OF this] show ?thesis by auto
  qed
qed simp

text \<open>A hop that neither established the session nor ended the walk.\<close>

definition skipped :: "(nat \<Rightarrow> nat \<Rightarrow> LoginResult result) \<Rightarrow> nat \<Rightarrow> nat \<Rightarrow> bool" where
  "skipped resp token1 target \<longleftrightarrow> (case resp target token1 of Inl e \<Rightarrow> True | Inr lr \<Rightarrow> lr_term lr = 0)"

lemma login_walk_cases:
  "(\<exists>pre hop post lr. hops = pre @ hop # post \<and> (\<forall>h \<in> set pre. skipped resp token1 ((cc_leader c + h) mod cc_n c)) \<and>
      resp ((cc_leader c + hop) mod cc_n c) token1 = Inr lr \<and> lr_term lr \<noteq> 0 \<and>
      login_walk st so im token1 resp rounds hops last_err c =
        admit im (lr_dLSN lr) rounds (establish st so im ((cc_leader c + hop) mod cc_n c) token1 lr c))
   \<or> (\<exists>e. (\<forall>h \<in> set hops. skipped resp token1 ((cc_leader c + h) mod cc_n c)) \<and>
      login_walk st so im token1 resp rounds hops last_err c = (Some (Inl e), c) \<and>
      (e = Craft NOT_LEADER \<or> last_err = Some e \<or> (\<exists>h \<in> set hops. resp ((cc_leader c + h) mod cc_n c) token1 = Inl e)))"
    (is "?found hops last_err \<or> ?none hops last_err")
proof (induction hops arbitrary: last_err)
  case Nil
  have "?none [] last_err" by (simp split: option.split)
  then show ?case by blast
next
  case (Cons hop hops)
  let ?t = "(cc_leader c + hop) mod cc_n c"
  have lift: "?found (hop # hops) last_err \<or> ?none (hop # hops) last_err"
    if sk: "skipped resp token1 ?t"
      and eq: "login_walk st so im token1 resp rounds (hop # hops) last_err c = login_walk st so im token1 resp rounds hops last_err' c"
      and le: "\<And>e. last_err' = Some e \<Longrightarrow> last_err = Some e \<or> resp ?t token1 = Inl e" for last_err'
    using Cons.IH [of last_err']
  proof
    assume "?found hops last_err'"
    then have "?found (hop # hops) last_err" unfolding eq using sk by (metis append_Cons set_ConsD)
    then show ?thesis by blast
  next
    assume "?none hops last_err'"
    then have "?none (hop # hops) last_err" unfolding eq using sk le by fastforce
    then show ?thesis by blast
  qed
  show ?case
  proof (cases "resp ?t token1")
    case (Inl e)
    then show ?thesis by (intro lift [of "Some e"]) (auto simp: skipped_def)
  next
    case (Inr lr)
    show ?thesis
    proof (cases "lr_term lr = 0")
      case True
      then show ?thesis using Inr by (intro lift [of last_err]) (auto simp: skipped_def)
    next
      case False
      then have "?found (hop # hops) last_err"
        using Inr by (intro exI [of _ "[]"] exI [of _ hop] exI [of _ hops] exI [of _ lr]) simp
      then show ?thesis by blast
    qed
  qed
qed

section \<open>Fields an operation leaves alone\<close>

lemma route_create_flags [simp]: "rm_rr_inflight (route_create so d addr len m) = rm_rr_inflight m"
  by (simp add: route_create_def)

lemma record_completion_flags [simp]: "rm_rr_inflight (record_completion so d idx acked m) = rm_rr_inflight m"
  by (simp add: record_completion_def with_overlay_def Let_def split: prod.splits option.splits)

lemma advance_synced_flags [simp]: "rm_rr_inflight (advance_synced im idx C m) = rm_rr_inflight m"
  by (simp add: advance_synced_def Let_def)

lemma fold_to_flags [simp]: "rm_rr_inflight (fold_to so im F m) = rm_rr_inflight m"
  by (simp add: fold_to_def maybe_truncate_def advance_folded_def Let_def split: prod.splits option.splits)

lemma write_legs_flags [simp]:
  "rm_rr_inflight (fold (\<lambda>i. write_leg so im d i (results ! i)) ord m) = rm_rr_inflight m"
  by (induction ord arbitrary: m) (simp_all add: write_leg_def Let_def split: sum.split)

lemma maybe_fold_flags [simp]: "rm_rr_inflight (cc_route (maybe_fold so im c)) = rm_rr_inflight (cc_route c)"
  by (simp add: maybe_fold_def Let_def)

lemma write_issue_ready:
  assumes "precheck addr len c = None"
  shows "\<exists>rq c1. write_issue st so addr len data c = (Inr rq, c1) \<and> cc_n c1 = cc_n c \<and>
    rm_rr_inflight (cc_route c1) = rm_rr_inflight (cc_route c)"
  using assms by (simp add: write_issue_def split_beta Let_def)

lemma write_finish_fired:
  assumes l: "latched (cc_n c) (client_quorum c) results ord"
  shows "fst (snd (write_finish st so im d len (acked_of results ord) results c)) =
    (if verdict_of (client_quorum c) results = Failed then filter (\<lambda>i. \<not> rm_rr_inflight (cc_route c) ! i) [0..<cc_n c] else [])"
proof -
  have n: "length results = cc_n c" using l by (simp add: latched_def)
  show ?thesis
    by (simp add: latched_quorum [OF l] refused_all [of results, unfolded n] write_finish_def Let_def verdict_of_def split_beta)
qed

lemma refused_write_has_error:
  assumes "length results = cc_n c" "0 < cc_n c" "card (acked_members results) < client_quorum c"
  shows "\<exists>r \<in> set results. isl r"
proof (rule ccontr)
  assume "\<not> ?thesis"
  then have "acked_members results = {..<cc_n c}" using assms(1) by (auto simp: acked_members_def)
  then show False using assms by (simp add: client_quorum_def)
qed

text \<open>The members a read of the plan may be sent to, and what one answers to the whole plan.\<close>

definition routable :: "'o overlay_ops \<Rightarrow> 'm icl_ops \<Rightarrow> nat \<Rightarrow> nat \<Rightarrow> read_segment list \<Rightarrow> ('t, 'o, 'm) craft_client \<Rightarrow> nat set" where
  "routable so im addr len segs c =
     {i. i < cc_n c \<and> eligible so im i addr len (plan_hmax (dt_frontier (cc_tracker c)) segs)
                        (fold_to so im (dt_frontier (cc_tracker c)) (cc_route c))}"

definition answer_of ::
  "(nat \<Rightarrow> client_hdr \<Rightarrow> int \<Rightarrow> nat \<Rightarrow> nat \<Rightarrow> read_result result) \<Rightarrow> nat \<Rightarrow> nat \<Rightarrow> read_segment list \<Rightarrow> ('t, 'o, 'm) craft_client
     \<Rightarrow> nat \<Rightarrow> lsn_pair result" where
  "answer_of serve addr len segs c i = issue_plan (serve i) (make_hdr c) segs addr len"

lemma client_read_walk:
  assumes "precheck addr len c = None"
  shows "client_read so im addr len (Inr segs) serve rotor c =
    read_walk so im addr len (plan_hmax (dt_frontier (cc_tracker c)) segs) (answer_of serve addr len segs c)
      (map (\<lambda>hop. (rotor mod cc_n c + hop) mod cc_n c) [0..<cc_n c]) False rotor
      (c\<lparr>cc_route := fold_to so im (dt_frontier (cc_tracker c)) (cc_route c)\<rparr>)"
  using assms by (simp add: client_read_def Let_def answer_of_def [abs_def])

text \<open>The three ways a planned read ends, over the set of members it may go to.\<close>

lemma client_read_cases:
  assumes ready: "precheck addr len c = None" and n: "0 < cc_n c"
    and run: "rd = client_read so im addr len (Inr segs) serve rotor c"
    and R: "R = routable so im addr len segs c" and ask: "ask = answer_of serve addr len segs c"
  shows "(\<exists>i \<in> R. \<not> isl (ask i) \<and> rd_result rd = Inr len \<and> rd_served rd = Some i)
    \<or> (\<exists>i \<in> R. \<exists>e. ask i = Inl e \<and> \<not> transport_failure e \<and> rd_result rd = Inl e \<and> rd_served rd = None)
    \<or> (\<forall>i \<in> R. \<exists>e. ask i = Inl e \<and> transport_failure e) \<and>
      rd_result rd = Inl (Craft (if R = {} then NOT_ELIGIBLE else NO_QUORUM)) \<and> rd_served rd = None"
proof -
  let ?F = "dt_frontier (cc_tracker c)"
  let ?is = "map (\<lambda>hop. (rotor mod cc_n c + hop) mod cc_n c) [0..<cc_n c]"
  let ?c1 = "c\<lparr>cc_route := fold_to so im ?F (cc_route c)\<rparr>"
  have mem: "set ?is = {..<cc_n c}" by (rule rotor_members [OF n])
  have rd: "rd = read_walk so im addr len (plan_hmax ?F segs) ask ?is False rotor ?c1"
    unfolding run ask by (rule client_read_walk [OF ready])
  have elig: "eligible so im i addr len (plan_hmax ?F segs) (cc_route ?c1) \<longleftrightarrow> i \<in> R" if "i \<in> set ?is" for i
    using that unfolding mem R routable_def by simp
  have failed: "\<exists>e. ask i = Inl e \<and> transport_failure e"
    if "i \<in> R" "passed_over so im addr len (plan_hmax ?F segs) ask (cc_route ?c1) i" for i
    using that elig [of i] unfolding mem R routable_def passed_over_def by (cases "ask i") auto
  consider (served) idx where "idx \<in> set ?is" "eligible so im idx addr len (plan_hmax ?F segs) (cc_route ?c1)" "\<not> isl (ask idx)"
      "rd_result rd = Inr len" "rd_served rd = Some idx"
    | (refused) idx e where "idx \<in> set ?is" "eligible so im idx addr len (plan_hmax ?F segs) (cc_route ?c1)" "ask idx = Inl e"
      "\<not> transport_failure e" "rd_result rd = Inl e" "rd_served rd = None"
    | (exhausted) "\<forall>i \<in> set ?is. passed_over so im addr len (plan_hmax ?F segs) ask (cc_route ?c1) i"
      "rd_result rd = Inl (Craft (if \<exists>i \<in> set ?is. eligible so im i addr len (plan_hmax ?F segs) (cc_route ?c1) then NO_QUORUM else NOT_ELIGIBLE))"
      "rd_served rd = None"
    using read_walk_cases [where so = so and im = im and addr = addr and len = len and Hmax = "plan_hmax ?F segs"
        and issue = ask and members = ?is and any = False and rotor = rotor and c = ?c1, folded rd]
    by (elim disjE exE conjE) (simp_all only: set_append set_simps, auto)
  then show ?thesis
  proof cases
    case served
    then show ?thesis using elig by blast
  next
    case refused
    then show ?thesis using elig by blast
  next
    case exhausted
    have "(\<exists>i \<in> set ?is. eligible so im i addr len (plan_hmax ?F segs) (cc_route ?c1)) \<longleftrightarrow> R \<noteq> {}"
      using elig unfolding mem R routable_def by auto
    moreover have "\<forall>i \<in> R. \<exists>e. ask i = Inl e \<and> transport_failure e"
      using exhausted(1) failed unfolding mem R routable_def by blast
    ultimately show ?thesis using exhausted by (simp split: if_splits)
  qed
qed

section \<open>What the verbs promise\<close>

text \<open>C7: A write succeeds exactly when a quorum of the members acknowledged it, whatever order the
  legs finish in and however many are still running when the caller resumes. The slot is
  recorded Acked in that case, Empty when every member provably refused it, Failed
  otherwise, and a Failed slot, and no other, starts a resolution round on every member that has
  none outstanding. An error the caller sees is one a member gave.\<close>

theorem client_write_verdict:
  assumes ready: "precheck addr len c = None" and n: "0 < cc_n c"
    and issue: "write_issue st so addr len data c = (Inr rq, c1)"
    and latch: "latched (cc_n c) (client_quorum c) (ans rq) ord"
    and run: "client_write st so im addr len data ans ord c = (r, fired, c')"
  shows "(r = Inr len \<longleftrightarrow> client_quorum c \<le> card (acked_members (ans rq))) \<and>
    (\<forall>k. r = Inr k \<longrightarrow> k = len) \<and> (\<forall>e. r = Inl e \<longrightarrow> Inl e \<in> set (ans rq)) \<and>
    cc_tracker c' = (let v = verdict_of (client_quorum c) (ans rq);
                         t = resolve st (wq_dlsn rq) v (cc_tracker c1)
                     in if v = Failed then note_resolution_want (wq_dlsn rq) t else t) \<and>
    fired = (if verdict_of (client_quorum c) (ans rq) = Failed
             then filter (\<lambda>i. \<not> rm_rr_inflight (cc_route c) ! i) [0..<cc_n c] else [])"
proof -
  let ?rs = "ans rq"
  let ?m = "fold (\<lambda>i. write_leg so im (wq_dlsn rq) i (?rs ! i)) ord (cc_route c1)"
  let ?c2 = "c1\<lparr>cc_route := ?m\<rparr>"
  from write_issue_ready [OF ready, of st so data] issue
  have c1: "cc_n c1 = cc_n c" "rm_rr_inflight (cc_route c1) = rm_rr_inflight (cc_route c)" by auto
  then have q: "client_quorum ?c2 = client_quorum c" by (simp add: client_quorum_def)
  have l: "latched (cc_n ?c2) (client_quorum ?c2) ?rs ord" using latch c1 q by simp
  have w: "write_finish st so im (wq_dlsn rq) len (acked_of ?rs ord) ?rs ?c2 = (r, fired, c')"
    using run issue by (simp add: client_write_def Let_def)
  note facts = write_finish_verdict [OF l, where d = "wq_dlsn rq" and len = len and st = st and so = so and im = im,
      unfolded w q, simplified]
  note fired = write_finish_fired [OF l, where d = "wq_dlsn rq" and len = len and st = st and so = so and im = im,
      unfolded w q, simplified, unfolded c1]
  have len: "length ?rs = cc_n c" using latch by (simp add: latched_def)
  have v: "verdict_of (client_quorum c) ?rs = Acked \<longleftrightarrow> client_quorum c \<le> card (acked_members ?rs)"
    by (simp add: verdict_of_def)
  have ok: "\<not> isl r \<longleftrightarrow> client_quorum c \<le> card (acked_members ?rs)" using facts(1) v by simp
  have err: "Inl e \<in> set ?rs" if "r = Inl e" for e
  proof -
    from that ok have "card (acked_members ?rs) < client_quorum c" by simp
    with refused_write_has_error [OF len n] have "last_error ?rs \<noteq> None" by (simp add: last_error_none)
    then obtain x where x: "last_error ?rs = Some x" by blast
    have "r = Inl x" using w x that ok by (auto simp: write_finish_def Let_def q split_beta split: if_splits)
    with that last_error_cases [OF x] show ?thesis by simp
  qed
  show ?thesis using facts ok err fired c1 by (cases r) (auto simp: Let_def)
qed

text \<open>C8: A read that succeeds was served by a member the router found eligible at a horizon no lower
  than any segment's. It reports \<open>NOT_ELIGIBLE\<close> when no member is eligible and \<open>NO_QUORUM\<close> when
  every eligible member failed in transport; and as long as eligible members fail only in
  transport, one that answers is found.\<close>

theorem client_read_routing:
  assumes ready: "precheck addr len c = None" and n: "0 < cc_n c"
    and run: "rd = client_read so im addr len (Inr segs) serve rotor c"
    and R: "R = routable so im addr len segs c" and ask: "ask = answer_of serve addr len segs c"
  shows "(\<forall>k. rd_result rd = Inr k \<longrightarrow> k = len \<and> (\<exists>i \<in> R. rd_served rd = Some i \<and> \<not> isl (ask i))) \<and>
    (\<forall>s \<in> set segs. sg_H s \<le> plan_hmax (dt_frontier (cc_tracker c)) segs) \<and>
    (R = {} \<longrightarrow> rd_result rd = Inl (Craft NOT_ELIGIBLE)) \<and>
    (R \<noteq> {} \<and> (\<forall>i \<in> R. \<exists>e. ask i = Inl e \<and> transport_failure e) \<longrightarrow> rd_result rd = Inl (Craft NO_QUORUM)) \<and>
    ((\<exists>i \<in> R. \<not> isl (ask i)) \<and> (\<forall>i \<in> R. \<forall>e. ask i = Inl e \<longrightarrow> transport_failure e) \<longrightarrow> rd_result rd = Inr len)"
proof -
  have hm: "\<forall>s \<in> set segs. sg_H s \<le> plan_hmax (dt_frontier (cc_tracker c)) segs" using plan_hmax_ge(2) by blast
  have left: "isl (ask i) \<longleftrightarrow> (\<exists>e. ask i = Inl e)" for i by (cases "ask i") simp_all
  from client_read_cases [OF ready n run R ask] show ?thesis
  proof (elim disjE bexE conjE exE)
    fix i assume "i \<in> R" "\<not> isl (ask i)" "rd_result rd = Inr len" "rd_served rd = Some i"
    then show ?thesis using hm left [of i] by auto
  next
    fix i e assume "i \<in> R" "ask i = Inl e" "\<not> transport_failure e" "rd_result rd = Inl e" "rd_served rd = None"
    then show ?thesis using hm by auto
  next
    assume "\<forall>i \<in> R. \<exists>e. ask i = Inl e \<and> transport_failure e" "rd_served rd = None"
      "rd_result rd = Inl (Craft (if R = {} then NOT_ELIGIBLE else NO_QUORUM))"
    then show ?thesis using hm left by auto
  qed
qed

text \<open>C28: Login succeeds only once a leader established the session, a quorum of the members
  acknowledged a probe and one of them has committed through the login frontier; the session
  is then that leader's. A login that fails either found no leader and changed nothing, or
  established a session and failed its admission: the client then still holds the term.\<close>

theorem login_outcome:
  assumes "login st so im token1 resp rounds c = (Some r, c')"
  shows "(\<exists>target lr m. target < cc_n c \<and> resp target token1 = Inr lr \<and> lr_term lr \<noteq> 0 \<and>
        c' = (establish st so im target token1 lr c)\<lparr>cc_route := m\<rparr> \<and>
        (\<exists>round \<in> set rounds. probe_decides (client_quorum c) (lr_dLSN lr) r round) \<and>
        cc_leader c' = target \<and> cc_term c' = lr_term lr \<and> cc_client_token c' = token1)
    \<or> (\<forall>target < cc_n c. skipped resp token1 target) \<and> c' = c \<and>
        (r = Inl (Craft NOT_LEADER) \<or> (\<exists>target < cc_n c. \<exists>e. resp target token1 = Inl e \<and> r = Inl e))"
proof (rule disjE [OF login_walk_cases [where hops = "[0..<cc_n c]" and resp = resp and ?token1.0 = token1 and c = c and st = st
      and so = so and im = im and rounds = rounds and last_err = None]], goal_cases)
  case 1
  then obtain pre hop post lr where hops: "[0..<cc_n c] = pre @ hop # post"
    and lr: "resp ((cc_leader c + hop) mod cc_n c) token1 = Inr lr" "lr_term lr \<noteq> 0"
    and eq: "login_walk st so im token1 resp rounds [0..<cc_n c] None c =
      admit im (lr_dLSN lr) rounds (establish st so im ((cc_leader c + hop) mod cc_n c) token1 lr c)"
    by blast
  let ?t = "(cc_leader c + hop) mod cc_n c"
  have "hop \<in> set [0..<cc_n c]" unfolding hops by simp
  then have t: "?t < cc_n c" by simp
  from assms have "admit im (lr_dLSN lr) rounds (establish st so im ?t token1 lr c) = (Some r, c')"
    unfolding login_def eq .
  from admit_outcome [OF this] obtain m where m: "c' = (establish st so im ?t token1 lr c)\<lparr>cc_route := m\<rparr>"
    and "\<exists>round \<in> set rounds. probe_decides (client_quorum c) (lr_dLSN lr) r round"
    by (auto simp: establish_def client_quorum_def)
  with t lr show ?thesis by (intro disjI1 exI [of _ ?t] exI [of _ lr] exI [of _ m]) (simp add: establish_def)
next
  case 2
  then obtain e where sk: "\<forall>h \<in> set [0..<cc_n c]. skipped resp token1 ((cc_leader c + h) mod cc_n c)"
    and eq: "login_walk st so im token1 resp rounds [0..<cc_n c] None c = (Some (Inl e), c)"
    and e: "e = Craft NOT_LEADER \<or> (\<exists>h \<in> set [0..<cc_n c]. resp ((cc_leader c + h) mod cc_n c) token1 = Inl e)"
    by auto
  have "skipped resp token1 target" if t: "target < cc_n c" for target
  proof -
    from t have "target \<in> set (map (\<lambda>h. (cc_leader c + h) mod cc_n c) [0..<cc_n c])" using rotor_members [of "cc_n c" "cc_leader c"] by auto
    then show ?thesis using sk by auto
  qed
  moreover have "r = Inl e" "c' = c" using assms eq by (simp_all add: login_def)
  moreover have "e = Craft NOT_LEADER \<or> (\<exists>target < cc_n c. resp target token1 = Inl e)"
  proof -
    have "(cc_leader c + h) mod cc_n c < cc_n c" if "h \<in> set [0..<cc_n c]" for h using that by auto
    then show ?thesis using e by blast
  qed
  ultimately show ?thesis by blast
qed

lemma logout_walk_ok: "logout_walk resp hops le c = (Inr (), c') \<Longrightarrow> cc_term c' = 0"
proof (induction hops arbitrary: le)
  case (Cons h hops)
  then show ?case by (auto simp: end_session_def Let_def split: sum.splits if_splits)
qed simp

lemma logout_walk_error:
  "logout_walk resp hops le c = (Inl e, c') \<Longrightarrow> c' = c \<and>
     (\<forall>h \<in> set hops. \<exists>x. resp ((cc_leader c + h) mod cc_n c) (make_hdr c) = Inl x \<and> x \<noteq> Craft STALE_TERM)"
proof (induction hops arbitrary: le)
  case (Cons h hops)
  from Cons.prems obtain x where x: "resp ((cc_leader c + h) mod cc_n c) (make_hdr c) = Inl x" "x \<noteq> Craft STALE_TERM"
      "logout_walk resp hops (Some x) c = (Inl e, c')"
    by (auto simp: Let_def split: sum.splits if_splits)
  with Cons.IH [OF x(3)] show ?case by simp
qed simp

text \<open>C29: After a logout that succeeds the client refuses every write and read as not connected, without
  touching its state. A logout that fails was refused by every member, none of them because
  the session was already fenced, and changed nothing.\<close>

theorem logout_outcome:
  assumes "logout resp c = (r, c')"
  shows "(r = Inr () \<longrightarrow> write_issue st so addr len data c' = (Inl (Errc not_connected), c') \<and>
        rd_result (client_read so im addr len plan serve rotor c') = Inl (Errc not_connected)) \<and>
    (\<forall>e. r = Inl e \<longrightarrow> c' = c \<and> (\<forall>i < cc_n c. \<exists>x. resp i (make_hdr c) = Inl x \<and> x \<noteq> Craft STALE_TERM))"
proof -
  have refuse: "write_issue st so addr len data c' = (Inl (Errc not_connected), c') \<and>
      rd_result (client_read so im addr len plan serve rotor c') = Inl (Errc not_connected)" if "cc_term c' = 0"
    using that by (simp add: write_issue_def client_read_def precheck_def)
  show ?thesis
  proof (cases "cc_term c = 0")
    case True
    then show ?thesis using assms refuse by (auto simp: logout_def)
  next
    case False
    then have w: "logout_walk resp [0..<cc_n c] None c = (r, c')" using assms by (simp add: logout_def)
    have "c' = c \<and> (\<forall>i < cc_n c. \<exists>x. resp i (make_hdr c) = Inl x \<and> x \<noteq> Craft STALE_TERM)" if r: "r = Inl e" for e
    proof -
      from logout_walk_error [OF w [unfolded r]] have all: "c' = c"
        "\<forall>i \<in> set (map (\<lambda>h. (cc_leader c + h) mod cc_n c) [0..<cc_n c]). \<exists>x. resp i (make_hdr c) = Inl x \<and> x \<noteq> Craft STALE_TERM"
        by simp_all
      show ?thesis
      proof (cases "cc_n c = 0")
        case False
        with all show ?thesis using rotor_members [of "cc_n c" "cc_leader c"] by (simp only: lessThan_iff) blast
      qed (use all in simp)
    qed
    moreover have "cc_term c' = 0" if "r = Inr ()" using logout_walk_ok w that by blast
    ultimately show ?thesis using refuse by blast
  qed
qed

section \<open>Concrete runs\<close>

type_synonym ex_client = "(dlsn_slot ref_tracker, route_slot ref_tracker, (nat \<times> int) list) craft_client"

definition ex_grant :: LoginResult where
  "ex_grant = \<lparr>lr_members = [], lr_dLSN = -1, lr_term = 7, lr_lba_size = 512, lr_capacity = 4096, lr_leader_hint = [], lr_max_tx = 4096\<rparr>"

definition ex_lsns :: lsn_pair where
  "ex_lsns = \<lparr>lp_commit_lsn = -1, lp_last_append_lsn = 0\<rparr>"

definition ex_new :: ex_client where
  "ex_new = make_client ref_icl 3 0 4"

definition ex_session :: ex_client where
  "ex_session = establish ref_stream ref_stream ref_icl 1 42 ex_grant ex_new"

lemma ex_session_fields [simp]:
  "cc_n ex_new = 3" "cc_leader ex_new = 0" "cc_n ex_session = 3" "cc_term ex_session = 7" "cc_lba_size ex_session = 512"
  "client_quorum ex_session = 2" "client_quorum ex_new = 2" "cc_leader ex_session = 1"
  by (simp_all add: ex_session_def establish_def ex_new_def make_client_def ex_grant_def client_quorum_def)

lemma client_quorum_establish [simp]: "client_quorum (establish st so im target token1 lr c) = client_quorum c"
  by (simp add: establish_def client_quorum_def)

lemma ex_precheck [simp]: "precheck 0 512 ex_session = None"
  by (simp add: precheck_def)

lemma acked_members_list: "acked_members rs = set (filter (\<lambda>i. \<not> isl (rs ! i)) [0..<length rs])"
  by (auto simp: acked_members_def)

theorem client_write_verdict_witness:
  "fst (client_write ref_stream ref_stream ref_icl 0 512 \<lparr>sg_size = 512, sg_iovs = []\<rparr>
     (\<lambda>_. [Inr ex_lsns, Inl (Craft REPLICA_DOWN), Inr ex_lsns]) [2, 0] ex_session) = Inr 512"
proof -
  let ?rs = "[Inr ex_lsns, Inl (Craft REPLICA_DOWN), Inr ex_lsns]"
  obtain rq c1 where i: "write_issue ref_stream ref_stream 0 512 \<lparr>sg_size = 512, sg_iovs = []\<rparr> ex_session = (Inr rq, c1)"
    using write_issue_ready [OF ex_precheck] by blast
  obtain r fired c' where w: "client_write ref_stream ref_stream ref_icl 0 512 \<lparr>sg_size = 512, sg_iovs = []\<rparr> (\<lambda>_. ?rs) [2, 0] ex_session
    = (r, fired, c')" using prod_cases3 by blast
  have l: "latched (cc_n ex_session) (client_quorum ex_session) ?rs [2, 0]"
    by (simp add: latched_def acked_of_def)
  have "acked_members ?rs = {0, 2}" by (simp add: acked_members_list upt_rec numeral_2_eq_2)
  then have "client_quorum ex_session \<le> card (acked_members ?rs)" by simp
  then have "r = Inr 512"
    by (rule client_write_verdict [OF ex_precheck _ i, where ans = "\<lambda>_. ?rs" and ord = "[2, 0]", OF _ l w, THEN conjunct1, THEN iffD2, rotated]) simp
  then show ?thesis using w by simp
qed

definition ex_resp :: "nat \<Rightarrow> nat \<Rightarrow> LoginResult result" where
  "ex_resp target token1 = (if target = 0 then Inl (Craft REPLICA_DOWN) else Inr ex_grant)"

definition ex_rounds :: "(client_hdr \<Rightarrow> lsn_pair result list \<times> bool) list" where
  "ex_rounds = [\<lambda>_. ([Inl (Craft REPLICA_DOWN), Inr ex_lsns, Inl (Craft REPLICA_DOWN)], False),
                \<lambda>_. ([Inl (Craft REPLICA_DOWN), Inr ex_lsns, Inr ex_lsns], False)]"

theorem login_outcome_witness:
  "\<exists>c'. login ref_stream ref_stream ref_icl 42 ex_resp ex_rounds ex_new = (Some (Inr ()), c') \<and> cc_term c' = 7"
proof -
  have "\<exists>c'. login ref_stream ref_stream ref_icl 42 ex_resp ex_rounds ex_new = (Some (Inr ()), c')"
    by (simp add: login_def upt_rec ex_resp_def ex_rounds_def split_beta Let_def ex_grant_def ex_lsns_def)
  then obtain c' where c': "login ref_stream ref_stream ref_icl 42 ex_resp ex_rounds ex_new = (Some (Inr ()), c')" by blast
  from login_outcome [OF c'] show ?thesis using c' by (auto simp: ex_resp_def ex_grant_def split: if_splits)
qed

theorem logout_outcome_witness:
  "fst (write_issue ref_stream ref_stream 0 512 \<lparr>sg_size = 512, sg_iovs = []\<rparr>
     (snd (logout (\<lambda>i hdr. if i = 1 then Inl (Craft NOT_LEADER) else Inr ()) ex_session))) = Inl (Errc not_connected)"
proof -
  let ?resp = "\<lambda>i hdr. if i = 1 then Inl (Craft NOT_LEADER) else Inr ()"
  obtain r c' where l: "logout ?resp ex_session = (r, c')" by fastforce
  have "fst (logout ?resp ex_session) = Inr ()" by (simp add: logout_def upt_rec)
  then have "r = Inr ()" using l by simp
  then show ?thesis
    using logout_outcome [OF l, where st = ref_stream and so = ref_stream and addr = 0 and len = 512
        and data = "\<lparr>sg_size = 512, sg_iovs = []\<rparr>"] l by simp
qed

theorem client_read_routing_witness:
  "rd_result (client_read ref_stream ref_icl 0 512 (Inr [\<lparr>sg_addr = 0, sg_len = 512, sg_H = 0\<rparr>])
     (\<lambda>i hdr H addr len. if i = 1 then Inr \<lparr>rr_extents = [], rr_lsns = ex_lsns\<rparr> else Inl (Errc timed_out)) 2
     (ex_session\<lparr>cc_route := ex_filled\<rparr>)) = Inr 512"
proof -
  let ?c = "ex_session\<lparr>cc_route := ex_filled\<rparr>"
  let ?segs = "[\<lparr>sg_addr = 0, sg_len = 512, sg_H = 0\<rparr>] :: read_segment list"
  let ?serve = "\<lambda>i hdr H addr len. if i = 1 then Inr \<lparr>rr_extents = [], rr_lsns = ex_lsns\<rparr> else Inl (Errc timed_out)"
  have F: "dt_frontier (cc_tracker ex_session) = -1"
    by (simp add: ex_session_def establish_def ex_new_def make_client_def ex_grant_def reset_at_def)
  have m: "fold_to ref_stream ref_icl (-1) ex_filled = ex_filled"
    by (simp add: fold_to_def ex_filled_def note_filled_def with_overlay_def ex_created_def route_create_def route_reset_def Let_def split_beta split: option.split)
  have R: "1 \<in> routable ref_stream ref_icl 0 512 ?segs ?c"
    using ex_filled_eligible by (simp add: routable_def F m plan_hmax_def)
  have ask: "answer_of ?serve 0 512 ?segs ?c i = (if i = 1 then Inr ex_lsns else Inl (Errc timed_out))" for i
    by (simp add: answer_of_def issue_plan_def plan_outcome_of_def plan_requests_def)
  have ready: "precheck 0 512 ?c = None" and n: "0 < cc_n ?c" by (simp_all add: precheck_def)
  have "(\<exists>i \<in> routable ref_stream ref_icl 0 512 ?segs ?c. \<not> isl (answer_of ?serve 0 512 ?segs ?c i)) \<and>
    (\<forall>i \<in> routable ref_stream ref_icl 0 512 ?segs ?c. \<forall>e. answer_of ?serve 0 512 ?segs ?c i = Inl e \<longrightarrow> transport_failure e)"
    unfolding ask using R by (auto simp: transport_failure_def)
  then show ?thesis
    by (rule client_read_routing [OF ready n refl refl refl, THEN conjunct2, THEN conjunct2, THEN conjunct2, THEN conjunct2, THEN mp])
qed

end
