(* ===== verification/LogStore.thy ===== *)
theory LogStore
  imports Prelude
begin

text \<open>
  The RAFT log store (\<open>src/raft/in_memory_log_store.cpp\<close>): a \<open>std::map\<close> from log index to entry,
  with a dummy entry at index 0, and the first index it still holds.

  The RAFT library owns the entry codec and the pack buffer's integers; they are a record of
  functions here, with what the store relies on as \<open>codec_laws\<close>. An \<open>assert\<close> that fails, a
  lookup the code dereferences without a check and an allocation that cannot be made are \<open>None\<close>.
  Log indices are \<open>nat\<close>: a 64-bit index is never reached.
\<close>

section \<open>State and operations\<close>

record log_entry =
  le_term :: nat
  le_buf :: "byte list"
  le_val_type :: nat
  le_timestamp :: nat

record inmem_log_store =
  ls_logs :: "(nat, log_entry) omap"
  ls_start_idx :: nat

record nuraft_codec =
  nc_put_int :: "int \<Rightarrow> byte list"
  nc_get_int :: "byte list \<Rightarrow> int \<times> byte list"
  nc_serialize :: "log_entry \<Rightarrow> byte list"
  nc_deserialize :: "byte list \<Rightarrow> log_entry"

text \<open>The arguments are what the library gives a new entry: its value type and its buffer.\<close>

definition make_log_store :: "nat \<Rightarrow> byte list \<Rightarrow> inmem_log_store" where
  "make_log_store val_type buf =
     \<lparr>ls_logs = om_put 0 \<lparr>le_term = 0, le_buf = buf, le_val_type = val_type, le_timestamp = 0\<rparr> [], ls_start_idx = 1\<rparr>"

definition make_clone :: "log_entry \<Rightarrow> log_entry" where
  "make_clone e = \<lparr>le_term = le_term e, le_buf = le_buf e, le_val_type = le_val_type e, le_timestamp = le_timestamp e\<rparr>"

definition next_slot :: "inmem_log_store \<Rightarrow> nat" where
  "next_slot s = ls_start_idx s + length (ls_logs s) - 1"

definition start_index :: "inmem_log_store \<Rightarrow> nat" where
  "start_index s = ls_start_idx s"

definition last_durable_index :: "inmem_log_store \<Rightarrow> nat" where
  "last_durable_index s = next_slot s - 1"

definition find_or_dummy :: "nat \<Rightarrow> inmem_log_store \<Rightarrow> log_entry option" where
  "find_or_dummy i s = (case map_of (ls_logs s) i of None \<Rightarrow> map_of (ls_logs s) 0 | Some e \<Rightarrow> Some e)"

definition last_entry :: "inmem_log_store \<Rightarrow> log_entry option" where
  "last_entry s = map_option make_clone (find_or_dummy (next_slot s - 1) s)"

definition log_append :: "log_entry \<Rightarrow> inmem_log_store \<Rightarrow> nat \<times> inmem_log_store" where
  "log_append e s =
     (let idx = ls_start_idx s + length (ls_logs s) - 1
      in (idx, s\<lparr>ls_logs := om_put idx (make_clone e) (ls_logs s)\<rparr>))"

definition write_at :: "nat \<Rightarrow> log_entry \<Rightarrow> inmem_log_store \<Rightarrow> inmem_log_store" where
  "write_at index e s = s\<lparr>ls_logs := om_put index (make_clone e) (filter (\<lambda>x. fst x < index) (ls_logs s))\<rparr>"

definition log_entries :: "nat \<Rightarrow> nat \<Rightarrow> inmem_log_store \<Rightarrow> log_entry list option" where
  "log_entries start lim s =
     (if lim < start \<or> list_ex (\<lambda>i. map_of (ls_logs s) i = None) [start..<lim] then None
      else Some (map (\<lambda>i. make_clone (the (map_of (ls_logs s) i))) [start..<lim]))"

fun log_entries_from :: "nat list \<Rightarrow> nat \<Rightarrow> nat \<Rightarrow> inmem_log_store \<Rightarrow> log_entry list option" where
  "log_entries_from [] hint accum s = Some []"
| "log_entries_from (i # is) hint accum s =
     (case map_of (ls_logs s) i of
        None \<Rightarrow> None
      | Some e \<Rightarrow>
          let accum' = accum + length (le_buf e) in
          if hint \<noteq> 0 \<and> hint \<le> accum' then Some [make_clone e]
          else map_option (\<lambda>es. make_clone e # es) (log_entries_from is hint accum' s))"

definition log_entries_ext :: "nat \<Rightarrow> nat \<Rightarrow> int \<Rightarrow> inmem_log_store \<Rightarrow> log_entry list option" where
  "log_entries_ext start lim batch_size_hint s =
     (if batch_size_hint < 0 then Some [] else log_entries_from [start..<lim] (nat batch_size_hint) 0 s)"

definition entry_at :: "nat \<Rightarrow> inmem_log_store \<Rightarrow> log_entry option" where
  "entry_at index s = map_option make_clone (find_or_dummy index s)"

definition term_at :: "nat \<Rightarrow> inmem_log_store \<Rightarrow> nat option" where
  "term_at index s = map_option le_term (find_or_dummy index s)"

definition pack :: "nuraft_codec \<Rightarrow> nat \<Rightarrow> nat \<Rightarrow> inmem_log_store \<Rightarrow> byte list option" where
  "pack nc index cnt s =
     (if list_ex (\<lambda>i. map_of (ls_logs s) i = None) [index..<index + cnt] then None
      else let bufs = map (\<lambda>i. nc_serialize nc (the (map_of (ls_logs s) i))) [index..<index + cnt]
           in Some (nc_put_int nc (int cnt) @ concat (map (\<lambda>b. nc_put_int nc (int (length b)) @ b) bufs)))"

fun unpack :: "nuraft_codec \<Rightarrow> nat \<Rightarrow> nat \<Rightarrow> byte list \<Rightarrow> (nat, log_entry) omap \<Rightarrow> (nat, log_entry) omap" where
  "unpack nc cur_idx 0 bs logs = logs"
| "unpack nc cur_idx (Suc n) bs logs =
     (let (buf_size, rest) = nc_get_int nc bs;
          buf_local = take (nat buf_size) rest
      in unpack nc (cur_idx + 1) n (drop (nat buf_size) rest) (om_put cur_idx (nc_deserialize nc buf_local) logs))"

definition apply_pack :: "nuraft_codec \<Rightarrow> nat \<Rightarrow> byte list \<Rightarrow> inmem_log_store \<Rightarrow> inmem_log_store" where
  "apply_pack nc index bs s =
     (let (num_logs, rest) = nc_get_int nc bs;
          logs = unpack nc index (nat num_logs) rest (ls_logs s)
      in s\<lparr>ls_logs := logs, ls_start_idx := (case om_above 0 logs of [] \<Rightarrow> 1 | e # _ \<Rightarrow> fst e)\<rparr>)"

definition compact :: "nat \<Rightarrow> inmem_log_store \<Rightarrow> bool \<times> inmem_log_store" where
  "compact last_log_index s =
     (True, s\<lparr>ls_logs := fold om_del [ls_start_idx s..<last_log_index + 1] (ls_logs s),
              ls_start_idx := (if ls_start_idx s \<le> last_log_index then last_log_index + 1 else ls_start_idx s)\<rparr>)"

section \<open>A log as the RAFT library uses it\<close>

text \<open>
  The contract: a log is its first index and the entries from there on. The lemmas are the
  library's side: a follower that overwrites from an index and appends the rest ends up with the
  leader's log, and compaction hides nothing above its bound.
\<close>

locale raft_log =
  fixes inv :: "'s \<Rightarrow> bool" and first :: "'s \<Rightarrow> nat" and ents :: "'s \<Rightarrow> 'e list"
    and add :: "'e \<Rightarrow> 's \<Rightarrow> 's" and put :: "nat \<Rightarrow> 'e \<Rightarrow> 's \<Rightarrow> 's" and trim :: "nat \<Rightarrow> 's \<Rightarrow> 's" and get :: "nat \<Rightarrow> 's \<Rightarrow> 'e option"
  assumes add: "inv s \<Longrightarrow> inv (add e s) \<and> first (add e s) = first s \<and> ents (add e s) = ents s @ [e]"
    and put: "inv s \<Longrightarrow> first s \<le> i \<Longrightarrow> i \<le> first s + length (ents s) \<Longrightarrow>
      inv (put i e s) \<and> first (put i e s) = first s \<and> ents (put i e s) = take (i - first s) (ents s) @ [e]"
    and trim: "inv s \<Longrightarrow> inv (trim i s) \<and> first (trim i s) = max (first s) (i + 1) \<and> ents (trim i s) = drop (i + 1 - first s) (ents s)"
    and get: "inv s \<Longrightarrow> first s \<le> i \<Longrightarrow> i < first s + length (ents s) \<Longrightarrow> get i s = Some (ents s ! (i - first s))"
begin

lemma add_all: "inv s \<Longrightarrow> inv (fold add es s) \<and> first (fold add es s) = first s \<and> ents (fold add es s) = ents s @ es"
  by (induction es arbitrary: s) (simp_all add: add)

lemma replay:
  assumes "inv s" "first s \<le> i" "i \<le> first s + length (ents s)"
  shows "inv (fold add es (put i e s)) \<and> first (fold add es (put i e s)) = first s \<and>
    ents (fold add es (put i e s)) = take (i - first s) (ents s) @ e # es"
  using put [OF assms, of e] add_all [of "put i e s" es] by simp

lemma get_trim:
  assumes "inv s" "i < j" "first s \<le> j" "j < first s + length (ents s)"
  shows "get j (trim i s) = get j s"
proof -
  have "get j (trim i s) = Some (ents (trim i s) ! (j - first (trim i s)))"
    by (rule get) (use trim [OF assms(1), of i] assms in auto)
  then show ?thesis using trim [OF assms(1), of i] get [OF assms(1), of j] assms
    by (auto simp: nth_drop max_def intro!: arg_cong [where f = "(!) (ents s)"])
qed

lemma replay_agrees:
  assumes l: "inv l" and f: "inv f" and i: "first l \<le> i" "i < first l + length (ents l)" "first f \<le> i" "i \<le> first f + length (ents f)"
    and same: "\<And>j. first l \<le> j \<Longrightarrow> first f \<le> j \<Longrightarrow> j < i \<Longrightarrow> get j f = get j l"
    and rest: "e # es = drop (i - first l) (ents l)"
  shows "first (fold add es (put i e f)) + length (ents (fold add es (put i e f))) = first l + length (ents l) \<and>
    (\<forall>j. first l \<le> j \<and> first f \<le> j \<and> j < first l + length (ents l) \<longrightarrow> get j (fold add es (put i e f)) = get j l)"
proof -
  let ?f = "fold add es (put i e f)"
  note r = replay [OF f i(3,4), of es e]
  have len: "length es + 1 = length (ents l) - (i - first l)" using arg_cong [OF rest, of length] by simp
  have lenf: "first ?f + length (ents ?f) = first l + length (ents l)"
    using r len i by simp
  have "get j ?f = get j l" if j: "first l \<le> j" "first f \<le> j" "j < first l + length (ents l)" for j
  proof -
    have gf: "get j ?f = Some (ents ?f ! (j - first f))" using get [of ?f j] r lenf j by simp
    have gl: "get j l = Some (ents l ! (j - first l))" using get [OF l j(1,3)] .
    show ?thesis
    proof (cases "j < i")
      case True
      then have "ents ?f ! (j - first f) = ents f ! (j - first f)" using r i j True by (simp add: nth_append diff_less_mono)
      moreover have "get j f = Some (ents f ! (j - first f))" using get [OF f j(2)] True i by simp
      ultimately show ?thesis using gf gl same [OF j(1,2) True] by simp
    next
      case False
      have "length (take (i - first f) (ents f)) = i - first f" using i by simp
      moreover have "\<not> j - first f < i - first f" "j - first f - (i - first f) = j - i" using False i j by simp_all
      ultimately have "ents ?f ! (j - first f) = (e # es) ! (j - i)" using r by (auto simp only: nth_append if_False)
      also have "\<dots> = ents l ! (j - first l)" unfolding rest using False i j by (simp add: nth_drop)
      finally show ?thesis using gf gl by simp
    qed
  qed
  with lenf show ?thesis by blast
qed

end

section \<open>The store keeps a contiguous log\<close>

definition log_ok :: "inmem_log_store \<Rightarrow> bool" where
  "log_ok s \<longleftrightarrow> om_ok (ls_logs s) \<and> 1 \<le> ls_start_idx s \<and> fst ` set (ls_logs s) = insert 0 {ls_start_idx s..<next_slot s}"

definition log_list :: "inmem_log_store \<Rightarrow> log_entry list" where
  "log_list s = map (\<lambda>i. the (map_of (ls_logs s) i)) [ls_start_idx s..<next_slot s]"

lemma make_clone_id [simp]: "make_clone e = e"
  by (simp add: make_clone_def)

text \<open>The index range of a store whose keys are contiguous fixes its size.\<close>

lemma log_okI:
  assumes "om_ok logs" "1 \<le> a" and dom: "\<And>j. map_of logs j \<noteq> None \<longleftrightarrow> j = 0 \<or> a \<le> j \<and> j < a + k"
  shows "log_ok \<lparr>ls_logs = logs, ls_start_idx = a\<rparr> \<and> next_slot \<lparr>ls_logs = logs, ls_start_idx = a\<rparr> = a + k"
proof -
  have "fst ` set logs = {j. map_of logs j \<noteq> None}" by (auto simp: map_of_eq_None_iff)
  then have keys: "fst ` set logs = insert 0 {a..<a + k}" unfolding dom by auto
  have "length logs = card (fst ` set logs)"
    using distinct_card [OF om_ok_distinct [OF assms(1)]] by simp
  also have "\<dots> = Suc k" unfolding keys using assms(2) by simp
  finally show ?thesis using assms(1,2) keys by (simp add: log_ok_def next_slot_def)
qed

lemma log_okD:
  assumes "log_ok s"
  shows "om_ok (ls_logs s)" "1 \<le> ls_start_idx s" "next_slot s = ls_start_idx s + length (log_list s)"
    "length (ls_logs s) = Suc (length (log_list s))"
    "map_of (ls_logs s) i \<noteq> None \<longleftrightarrow> i = 0 \<or> ls_start_idx s \<le> i \<and> i < ls_start_idx s + length (log_list s)"
    "j < length (log_list s) \<Longrightarrow> map_of (ls_logs s) (ls_start_idx s + j) = Some (log_list s ! j)"
proof -
  from assms show ok: "om_ok (ls_logs s)" "1 \<le> ls_start_idx s" by (simp_all add: log_ok_def)
  from assms have keys: "fst ` set (ls_logs s) = insert 0 {ls_start_idx s..<next_slot s}" by (simp add: log_ok_def)
  have "ls_logs s \<noteq> []" using keys by auto
  then obtain k where "length (ls_logs s) = Suc k" by (cases "ls_logs s") auto
  then show nx: "next_slot s = ls_start_idx s + length (log_list s)"
    and "length (ls_logs s) = Suc (length (log_list s))" unfolding log_list_def next_slot_def by simp_all
  show dom: "map_of (ls_logs s) i \<noteq> None \<longleftrightarrow> i = 0 \<or> ls_start_idx s \<le> i \<and> i < ls_start_idx s + length (log_list s)" for i
    using keys unfolding nx by (auto simp: map_of_eq_None_iff)
  show "map_of (ls_logs s) (ls_start_idx s + j) = Some (log_list s ! j)" if "j < length (log_list s)"
  proof -
    have "j < next_slot s - ls_start_idx s" using that nx by simp
    then have "log_list s ! j = the (map_of (ls_logs s) (ls_start_idx s + j))" by (simp add: log_list_def)
    then show ?thesis using dom [of "ls_start_idx s + j"] that by auto
  qed
qed

text \<open>Equal abstractions from equal lookups.\<close>

lemma log_list_eqI:
  assumes "next_slot s = ls_start_idx s + length es"
    and "\<And>i. i < length es \<Longrightarrow> map_of (ls_logs s) (ls_start_idx s + i) = Some (es ! i)"
  shows "log_list s = es"
  by (rule nth_equalityI) (use assms in \<open>simp_all add: log_list_def\<close>)

lemma append_refines:
  assumes "log_ok s"
  shows "log_ok (snd (log_append e s)) \<and> ls_start_idx (snd (log_append e s)) = ls_start_idx s \<and>
    log_list (snd (log_append e s)) = log_list s @ [e] \<and> fst (log_append e s) = next_slot s"
proof -
  note k = log_okD(1-4) [OF assms] and dom = log_okD(5) [OF assms] and nth = log_okD(6) [OF assms]
  let ?k = "length (log_list s)"
  let ?s = "snd (log_append e s)"
  have s: "?s = \<lparr>ls_logs = om_put (ls_start_idx s + ?k) e (ls_logs s), ls_start_idx = ls_start_idx s\<rparr>"
    using k by (simp add: log_append_def Let_def)
  have ok: "log_ok ?s \<and> next_slot ?s = ls_start_idx s + Suc ?k"
    unfolding s
  proof (rule log_okI)
    fix j
    show "map_of (om_put (ls_start_idx s + ?k) e (ls_logs s)) j \<noteq> None \<longleftrightarrow> j = 0 \<or> ls_start_idx s \<le> j \<and> j < ls_start_idx s + Suc ?k"
      using dom [of j] by auto
  qed (use k in simp_all)
  moreover have "log_list ?s = log_list s @ [e]"
    by (rule log_list_eqI) (use k ok nth in \<open>auto simp: s nth_append less_Suc_eq\<close>)
  ultimately show ?thesis using k by (simp add: log_append_def Let_def)
qed

lemma write_at_refines:
  assumes "log_ok s" "ls_start_idx s \<le> i" "i \<le> next_slot s"
  shows "log_ok (write_at i e s) \<and> ls_start_idx (write_at i e s) = ls_start_idx s \<and>
    log_list (write_at i e s) = take (i - ls_start_idx s) (log_list s) @ [e]"
proof -
  note k = log_okD(1-4) [OF assms(1)] and dom = log_okD(5) [OF assms(1)] and nth = log_okD(6) [OF assms(1)]
  let ?k = "length (log_list s)"
  define d where "d = i - ls_start_idx s"
  have i: "i = ls_start_idx s + d" "d \<le> ?k" using assms k by (simp_all add: d_def)
  let ?s = "write_at i e s"
  have s: "?s = \<lparr>ls_logs = om_put i e (filter (\<lambda>x. fst x < i) (ls_logs s)), ls_start_idx = ls_start_idx s\<rparr>"
    by (simp add: write_at_def)
  have look: "map_of (filter (\<lambda>x. fst x < i) (ls_logs s)) j = (if j < i then map_of (ls_logs s) j else None)" for j
    by (rule map_of_filter_key)
  have ok: "log_ok ?s \<and> next_slot ?s = ls_start_idx s + Suc d"
    unfolding s
  proof (rule log_okI)
    fix j
    show "map_of (om_put i e (filter (\<lambda>x. fst x < i) (ls_logs s))) j \<noteq> None \<longleftrightarrow> j = 0 \<or> ls_start_idx s \<le> j \<and> j < ls_start_idx s + Suc d"
      unfolding map_of_om_put fun_upd_apply look using dom [of j] i k(2) by auto
  qed (use k in simp_all)
  moreover have "log_list ?s = take d (log_list s) @ [e]"
  proof (rule log_list_eqI)
    show "next_slot ?s = ls_start_idx ?s + length (take d (log_list s) @ [e])" using ok i by (simp add: write_at_def)
    fix j assume "j < length (take d (log_list s) @ [e])"
    then have "j < d \<or> j = d" using i by auto
    then show "map_of (ls_logs ?s) (ls_start_idx ?s + j) = Some ((take d (log_list s) @ [e]) ! j)"
    proof
      assume "j < d"
      then show ?thesis unfolding s using nth [of j] i by (simp add: look [unfolded i] nth_append)
    next
      assume "j = d"
      then show ?thesis unfolding s using i by (simp add: nth_append)
    qed
  qed
  ultimately show ?thesis by (simp add: s d_def)
qed

lemma compact_refines:
  assumes "log_ok s"
  shows "log_ok (snd (compact i s)) \<and> ls_start_idx (snd (compact i s)) = max (ls_start_idx s) (i + 1) \<and>
    log_list (snd (compact i s)) = drop (i + 1 - ls_start_idx s) (log_list s)"
proof -
  note k = log_okD(1-4) [OF assms] and dom = log_okD(5) [OF assms] and nth = log_okD(6) [OF assms]
  let ?k = "length (log_list s)"
  define d where "d = i + 1 - ls_start_idx s"
  let ?a = "max (ls_start_idx s) (i + 1)"
  let ?s = "snd (compact i s)"
  have look: "map_of (fold om_del xs m) j = (if j \<in> set xs then None else map_of m j)" for xs j and m :: "(nat, log_entry) omap"
    by (induction xs arbitrary: m) auto
  have ord: "om_ok m \<Longrightarrow> om_ok (fold om_del xs m)" for xs and m :: "(nat, log_entry) omap"
    by (induction xs arbitrary: m) simp_all
  have s: "?s = \<lparr>ls_logs = fold om_del [ls_start_idx s..<i + 1] (ls_logs s), ls_start_idx = ?a\<rparr>"
    by (simp add: compact_def max_def)
  have a: "?a = ls_start_idx s + d" unfolding d_def by simp
  have ok: "log_ok ?s \<and> next_slot ?s = ?a + (?k - d)"
    unfolding s
  proof (rule log_okI)
    show "om_ok (fold om_del [ls_start_idx s..<i + 1] (ls_logs s))" by (rule ord) (rule k)
    show "1 \<le> ?a" using k by simp
    show "map_of (fold om_del [ls_start_idx s..<i + 1] (ls_logs s)) j \<noteq> None \<longleftrightarrow> j = 0 \<or> ?a \<le> j \<and> j < ?a + (?k - d)" for j
    proof -
      have "map_of (fold om_del [ls_start_idx s..<i + 1] (ls_logs s)) j \<noteq> None \<longleftrightarrow>
          \<not> (ls_start_idx s \<le> j \<and> j < i + 1) \<and> (j = 0 \<or> ls_start_idx s \<le> j \<and> j < ls_start_idx s + ?k)"
        unfolding look using dom [of j] by (simp del: upt_Suc)
      also have "\<dots> \<longleftrightarrow> j = 0 \<or> ?a \<le> j \<and> j < ?a + (?k - d)" unfolding d_def using k(2) by auto
      finally show ?thesis .
    qed
  qed
  moreover have "log_list ?s = drop d (log_list s)"
  proof (rule log_list_eqI)
    show "next_slot ?s = ls_start_idx ?s + length (drop d (log_list s))" using ok k by (simp add: s)
    fix j assume "j < length (drop d (log_list s))"
    then have j: "d + j < ?k" using k by simp
    have "map_of (ls_logs ?s) (ls_start_idx ?s + j) = map_of (ls_logs s) (ls_start_idx s + (d + j))"
    proof -
      have "ls_start_idx s + (d + j) \<notin> set [ls_start_idx s..<i + 1]" by (simp add: d_def)
      then show ?thesis unfolding s a by (simp only: look inmem_log_store.simps add.assoc if_False)
    qed
    also have "\<dots> = Some (drop d (log_list s) ! j)" using nth [OF j] j k by simp
    finally show "map_of (ls_logs ?s) (ls_start_idx ?s + j) = Some (drop d (log_list s) ! j)" .
  qed
  ultimately show ?thesis by (simp add: s d_def)
qed

lemma entry_at_refines:
  assumes "log_ok s" "ls_start_idx s \<le> i" "i < ls_start_idx s + length (log_list s)"
  shows "entry_at i s = Some (log_list s ! (i - ls_start_idx s))"
proof -
  note nth = log_okD(6) [OF assms(1)]
  show ?thesis using nth [of "i - ls_start_idx s"] assms
    by (simp add: entry_at_def find_or_dummy_def make_clone_id [abs_def] option.map_ident)
qed

interpretation inmem: raft_log log_ok ls_start_idx log_list "\<lambda>e s. snd (log_append e s)" write_at "\<lambda>i s. snd (compact i s)" entry_at
proof unfold_locales
  fix s e i
  show "log_ok s \<Longrightarrow> log_ok (snd (log_append e s)) \<and> ls_start_idx (snd (log_append e s)) = ls_start_idx s \<and>
      log_list (snd (log_append e s)) = log_list s @ [e]"
    using append_refines by blast
  show "log_ok s \<Longrightarrow> ls_start_idx s \<le> i \<Longrightarrow> i \<le> ls_start_idx s + length (log_list s) \<Longrightarrow>
      log_ok (write_at i e s) \<and> ls_start_idx (write_at i e s) = ls_start_idx s \<and>
      log_list (write_at i e s) = take (i - ls_start_idx s) (log_list s) @ [e]"
    by (rule write_at_refines) (simp_all add: log_okD)
  show "log_ok s \<Longrightarrow> log_ok (snd (compact i s)) \<and> ls_start_idx (snd (compact i s)) = max (ls_start_idx s) (i + 1) \<and>
      log_list (snd (compact i s)) = drop (i + 1 - ls_start_idx s) (log_list s)"
    by (rule compact_refines)
  show "log_ok s \<Longrightarrow> ls_start_idx s \<le> i \<Longrightarrow> i < ls_start_idx s + length (log_list s) \<Longrightarrow>
      entry_at i s = Some (log_list s ! (i - ls_start_idx s))"
    by (rule entry_at_refines)
qed

section \<open>Reading a range and packing it\<close>

lemma log_list_map:
  assumes "log_ok s" "ls_start_idx s \<le> a" "a + n \<le> next_slot s"
  shows "map (\<lambda>i. the (map_of (ls_logs s) i)) [a..<a + n] = take n (drop (a - ls_start_idx s) (log_list s))"
    and "\<not> list_ex (\<lambda>i. map_of (ls_logs s) i = None) [a..<a + n]"
proof -
  note k = log_okD(3) [OF assms(1)] and dom = log_okD(5) [OF assms(1)]
  show "map (\<lambda>i. the (map_of (ls_logs s) i)) [a..<a + n] = take n (drop (a - ls_start_idx s) (log_list s))"
    using assms(2,3) by (simp add: log_list_def drop_map take_map)
  show "\<not> list_ex (\<lambda>i. map_of (ls_logs s) i = None) [a..<a + n]"
    using assms dom k by (auto simp: list_ex_iff)
qed

lemma log_entries_range:
  assumes "log_ok s" "ls_start_idx s \<le> a" "a + n \<le> next_slot s"
  shows "log_entries a (a + n) s = Some (take n (drop (a - ls_start_idx s) (log_list s)))"
  using log_list_map [OF assms] by (simp add: log_entries_def)

definition codec_laws :: "nuraft_codec \<Rightarrow> log_entry list \<Rightarrow> bool" where
  "codec_laws nc es \<longleftrightarrow>
     (\<forall>x rest. 0 \<le> x \<and> x < 2 ^ 31 \<longrightarrow> nc_get_int nc (nc_put_int nc x @ rest) = (x, rest)) \<and>
     (\<forall>e \<in> set es. nc_deserialize nc (nc_serialize nc e) = e \<and> length (nc_serialize nc e) < 2 ^ 31)"

definition packed :: "nuraft_codec \<Rightarrow> log_entry list \<Rightarrow> byte list" where
  "packed nc es = concat (map (\<lambda>e. nc_put_int nc (int (length (nc_serialize nc e))) @ nc_serialize nc e) es)"

lemma pack_packed:
  assumes "log_ok s" "ls_start_idx s \<le> a" "a + n \<le> next_slot s"
  shows "pack nc a n s = Some (nc_put_int nc (int n) @ packed nc (take n (drop (a - ls_start_idx s) (log_list s))))"
proof -
  have "map (\<lambda>i. nc_serialize nc (the (map_of (ls_logs s) i))) [a..<a + n]
      = map (nc_serialize nc) (take n (drop (a - ls_start_idx s) (log_list s)))"
    unfolding log_list_map(1) [OF assms, symmetric] by simp
  then show ?thesis using log_list_map(2) [OF assms] by (simp add: pack_def packed_def comp_def)
qed

fun put_all :: "nat \<Rightarrow> log_entry list \<Rightarrow> (nat, log_entry) omap \<Rightarrow> (nat, log_entry) omap" where
  "put_all i [] m = m"
| "put_all i (e # es) m = put_all (i + 1) es (om_put i e m)"

lemma unpack_packed:
  assumes "codec_laws nc es"
  shows "unpack nc i (length es) (packed nc es @ rest) m = put_all i es m"
  using assms
proof (induction es arbitrary: i m)
  case (Cons e es)
  then have laws: "codec_laws nc es" by (simp add: codec_laws_def)
  have "nc_get_int nc (nc_put_int nc (int (length (nc_serialize nc e))) @ nc_serialize nc e @ packed nc es @ rest)
      = (int (length (nc_serialize nc e)), nc_serialize nc e @ packed nc es @ rest)"
    using Cons.prems by (simp add: codec_laws_def)
  moreover have "nc_deserialize nc (nc_serialize nc e) = e" using Cons.prems by (simp add: codec_laws_def)
  ultimately show ?case using Cons.IH [OF laws] by (simp add: packed_def)
qed simp

lemma om_ok_put_all: "om_ok m \<Longrightarrow> om_ok (put_all i es m)"
  by (induction es arbitrary: i m) simp_all

lemma map_of_put_all:
  "map_of (put_all i es m) j = (if i \<le> j \<and> j < i + length es then Some (es ! (j - i)) else map_of m j)"
proof (induction es arbitrary: i m)
  case (Cons e es)
  show ?case unfolding put_all.simps Cons.IH by (auto simp: nth_Cons')
qed auto

lemma om_above_hd:
  assumes "om_ok m" "map_of m a \<noteq> None" "0 < a" "\<And>j. map_of m j \<noteq> None \<Longrightarrow> j = 0 \<or> a \<le> (j::nat)"
  shows "\<exists>v rest. om_above 0 m = (a, v) # rest"
proof (cases "om_above 0 m")
  case Nil
  then have "map_of (om_above 0 m) a = None" by simp
  then show ?thesis using assms by (simp add: map_of_om_above)
next
  case (Cons x rest)
  have ok: "om_ok (x # rest)" using om_ok_above [OF assms(1)] Cons by metis
  have "map_of (om_above 0 m) (fst x) \<noteq> None" using Cons by simp
  then have "a \<le> fst x" using assms(4) [of "fst x"] by (auto simp: map_of_om_above split: if_splits)
  moreover have "map_of (x # rest) a \<noteq> None" using assms(2,3) unfolding Cons [symmetric] by (simp add: map_of_om_above)
  then have "a \<in> fst ` set (x # rest)" by (simp only: map_of_eq_None_iff not_not)
  then have "fst x \<le> a" using ok by (auto simp: om_ok_def)
  ultimately show ?thesis using Cons by (metis order_antisym prod.collapse)
qed

text \<open>C40: A follower that receives a range of log entries as a pack ends up with exactly those entries
  at the same indices: packing a range of a store and applying the pack to an empty store
  gives a store that starts at the range and holds its entries.\<close>

theorem pack_apply_roundtrip:
  assumes ok: "log_ok s" and range: "ls_start_idx s \<le> index" "index + cnt \<le> next_slot s" "cnt < 2 ^ 31" "0 < cnt"
    and laws: "codec_laws nc (log_list s)"
  shows "\<exists>bs. pack nc index cnt s = Some bs \<and>
    (let f = apply_pack nc index bs (make_log_store vt buf)
     in log_ok f \<and> start_index f = index \<and> next_slot f = index + cnt \<and>
        log_entries index (index + cnt) f = log_entries index (index + cnt) s)"
proof -
  let ?es = "take cnt (drop (index - ls_start_idx s) (log_list s))"
  let ?m = "put_all index ?es (ls_logs (make_log_store vt buf))"
  let ?bs = "nc_put_int nc (int cnt) @ packed nc ?es"
  have len: "length ?es = cnt" using range log_okD(3) [OF ok] by simp
  have pos: "0 < index" using range log_okD(2) [OF ok] by simp
  have "set ?es \<subseteq> set (log_list s)" using set_take_subset set_drop_subset by (rule subset_trans)
  then have es_laws: "codec_laws nc ?es" using laws unfolding codec_laws_def by blast
  have get: "nc_get_int nc ?bs = (int cnt, packed nc ?es)" using laws range(3) by (simp add: codec_laws_def)
  have dom: "map_of ?m j \<noteq> None \<longleftrightarrow> j = 0 \<or> index \<le> j \<and> j < index + cnt" for j
    unfolding map_of_put_all len using pos by (simp add: make_log_store_def)
  have om: "om_ok ?m" by (rule om_ok_put_all) (simp add: make_log_store_def om_ok_def)
  obtain v rest where hd: "om_above 0 ?m = (index, v) # rest"
    using om_above_hd [OF om, of index] dom [of index] dom pos range(4) by auto
  let ?f = "\<lparr>ls_logs = ?m, ls_start_idx = index\<rparr>"
  have f: "apply_pack nc index ?bs (make_log_store vt buf) = ?f"
    using unpack_packed [OF es_laws, unfolded len, of index "[]" "ls_logs (make_log_store vt buf)"] get hd
    by (simp add: apply_pack_def make_log_store_def)
  have okf: "log_ok ?f \<and> next_slot ?f = index + cnt" by (rule log_okI [OF om _ dom]) (use pos in simp)
  have "log_list ?f = ?es"
    by (rule log_list_eqI) (use okf len in \<open>simp_all add: map_of_put_all\<close>)
  then have "log_entries index (index + cnt) ?f = Some ?es"
    using log_entries_range [of ?f index cnt] okf len by simp
  then show ?thesis
    using log_entries_range [OF ok range(1,2)] pack_packed [OF ok range(1,2), of nc] okf f
    by (intro exI [of _ ?bs]) (simp add: Let_def start_index_def)
qed

text \<open>C18: Log matching. A follower whose store agrees with the leader's below an index, and that overwrites
  that index and appends the leader's following entries, ends with the same next slot and the
  same entry at every index both stores still hold. Compacting it afterwards hides nothing
  above the compaction bound.\<close>

theorem follower_replay_agrees:
  assumes "log_ok l" "log_ok f"
    and "ls_start_idx l \<le> i" "i < next_slot l" "ls_start_idx f \<le> i" "i \<le> next_slot f"
    and "\<And>j. ls_start_idx l \<le> j \<Longrightarrow> ls_start_idx f \<le> j \<Longrightarrow> j < i \<Longrightarrow> entry_at j f = entry_at j l"
    and "log_entries i (next_slot l) l = Some (e # es)"
    and f': "f' = fold (\<lambda>e s. snd (log_append e s)) es (write_at i e f)"
  shows "log_ok f' \<and> next_slot f' = next_slot l \<and>
    (\<forall>j. ls_start_idx l \<le> j \<and> ls_start_idx f \<le> j \<and> j < next_slot l \<longrightarrow> entry_at j f' = entry_at j l) \<and>
    (\<forall>j b. b < j \<and> ls_start_idx l \<le> j \<and> ls_start_idx f \<le> j \<and> j < next_slot l \<longrightarrow>
       entry_at j (snd (compact b f')) = entry_at j l)"
proof -
  note kl = log_okD(3) [OF assms(1)] and kf = log_okD(3) [OF assms(2)]
  have "i + (next_slot l - i) = next_slot l" using assms(4) by simp
  then have rest: "e # es = drop (i - ls_start_idx l) (log_list l)"
    using log_entries_range [OF assms(1,3), of "next_slot l - i"] assms(4,8) kl by simp
  have agree: "ls_start_idx f' + length (log_list f') = ls_start_idx l + length (log_list l) \<and>
    (\<forall>j. ls_start_idx l \<le> j \<and> ls_start_idx f \<le> j \<and> j < ls_start_idx l + length (log_list l) \<longrightarrow> entry_at j f' = entry_at j l)"
    unfolding f' by (rule inmem.replay_agrees [OF assms(1,2) _ _ _ _ assms(7) rest]) (use assms kl kf in simp_all)
  have rp: "log_ok f' \<and> ls_start_idx f' = ls_start_idx f" unfolding f' using inmem.replay [OF assms(2,5)] assms(6) kf by simp
  then have kf': "next_slot f' = ls_start_idx f' + length (log_list f')" using log_okD(3) by blast
  have "entry_at j (snd (compact b f')) = entry_at j f'"
    if "b < j" "ls_start_idx f \<le> j" "j < next_slot l" for b j
    by (rule inmem.get_trim) (use that rp agree kl in simp_all)
  then show ?thesis using agree rp kf' kl by auto
qed

section \<open>Concrete runs\<close>

lemma make_log_store_ok: "log_ok (make_log_store vt buf) \<and> next_slot (make_log_store vt buf) = 1"
  unfolding make_log_store_def using log_okI [of "om_put 0 _ []" 1 0] by (simp add: om_ok_def)

definition ref_codec :: nuraft_codec where
  "ref_codec = \<lparr>nc_put_int = (\<lambda>x. le_put 4 (nat x)), nc_get_int = (\<lambda>bs. (int (le_get (take 4 bs)), drop 4 bs)),
     nc_serialize = (\<lambda>e. le_put 8 (le_term e) @ le_buf e),
     nc_deserialize = (\<lambda>bs. \<lparr>le_term = le_get (take 8 bs), le_buf = drop 8 bs, le_val_type = 1, le_timestamp = 0\<rparr>)\<rparr>"

definition ex_entry :: "nat \<Rightarrow> byte list \<Rightarrow> log_entry" where
  "ex_entry trm buf = \<lparr>le_term = trm, le_buf = buf, le_val_type = 1, le_timestamp = 0\<rparr>"

definition ex_leader :: inmem_log_store where
  "ex_leader = fold (\<lambda>e s. snd (log_append e s)) [ex_entry 1 [5], ex_entry 2 [6, 7]] (make_log_store 1 [])"

definition ex_follower :: inmem_log_store where
  "ex_follower = snd (log_append (ex_entry 1 [9]) (make_log_store 1 []))"

lemma ex_start [simp]: "ls_start_idx ex_leader = 1" "ls_start_idx ex_follower = 1"
  by (simp_all add: ex_leader_def ex_follower_def log_append_def make_log_store_def Let_def)

lemma ex_logs:
  "log_ok ex_leader" "log_list ex_leader = [ex_entry 1 [5], ex_entry 2 [6, 7]]" "next_slot ex_leader = 3"
  "log_ok ex_follower" "log_list ex_follower = [ex_entry 1 [9]]" "next_slot ex_follower = 2"
proof -
  have new: "log_ok (make_log_store 1 [])" "log_list (make_log_store 1 []) = []"
    using make_log_store_ok [of 1 "[]"] log_okD(3) [of "make_log_store 1 []"] by (simp_all add: make_log_store_def)
  show l: "log_ok ex_leader" "log_list ex_leader = [ex_entry 1 [5], ex_entry 2 [6, 7]]"
    unfolding ex_leader_def using inmem.add_all [OF new(1), of "[ex_entry 1 [5], ex_entry 2 [6, 7]]"] new(2) by simp_all
  show f: "log_ok ex_follower" "log_list ex_follower = [ex_entry 1 [9]]"
    unfolding ex_follower_def using append_refines [OF new(1)] new(2) by simp_all
  show "next_slot ex_leader = 3" "next_slot ex_follower = 2"
    using log_okD(3) [OF l(1)] l(2) log_okD(3) [OF f(1)] f(2) by simp_all
qed

theorem pack_apply_roundtrip_witness:
  "\<exists>bs. pack ref_codec 1 2 ex_leader = Some bs \<and> next_slot (apply_pack ref_codec 1 bs (make_log_store 1 [])) = 3"
proof -
  have "codec_laws ref_codec (log_list ex_leader)"
    unfolding codec_laws_def
  proof (intro conjI allI impI)
    fix x :: int and rest :: "byte list"
    assume "0 \<le> x \<and> x < 2 ^ 31"
    then have "nat x < 2 ^ 32" "int (nat x) = x" by (simp_all add: nat_less_iff)
    then have "nat x mod 256 ^ 4 = nat x" "int (nat x) = x" by simp_all
    then show "nc_get_int ref_codec (nc_put_int ref_codec x @ rest) = (x, rest)"
      by (simp add: ref_codec_def le_get_put del: mod_less)
  qed (simp add: ref_codec_def ex_logs le_get_put ex_entry_def)
  from pack_apply_roundtrip [OF ex_logs(1) _ _ _ _ this, of 1 2 1 "[]"] show ?thesis
    by (auto simp: ex_logs Let_def)
qed

theorem follower_replay_agrees_witness:
  "entry_at 1 (snd (log_append (ex_entry 2 [6, 7]) (write_at 1 (ex_entry 1 [5]) ex_follower))) = Some (ex_entry 1 [5])"
proof -
  have es: "log_entries 1 (next_slot ex_leader) ex_leader = Some (ex_entry 1 [5] # [ex_entry 2 [6, 7]])"
    using log_entries_range [OF ex_logs(1), of 1 2] by (simp add: ex_logs numeral_3_eq_3)
  have agree: "\<forall>j. ls_start_idx ex_leader \<le> j \<and> ls_start_idx ex_follower \<le> j \<and> j < next_slot ex_leader \<longrightarrow>
      entry_at j (fold (\<lambda>e s. snd (log_append e s)) [ex_entry 2 [6, 7]] (write_at 1 (ex_entry 1 [5]) ex_follower)) = entry_at j ex_leader"
    by (rule follower_replay_agrees [OF ex_logs(1,4) _ _ _ _ _ es refl, THEN conjunct2, THEN conjunct2, THEN conjunct1]) (simp_all add: ex_logs)
  from agree [rule_format, of 1] entry_at_refines [OF ex_logs(1), of 1] show ?thesis by (simp add: ex_logs)
qed

end
