(* ===== verification/Wire.thy ===== *)
theory Wire
  imports Types
begin

text \<open>
  The CRAFT wire protocol (\<open>include/craft/wire.hpp\<close>, \<open>src/wire.cpp\<close>): op codes, the packed
  structs, message framing and parsing with the optional CRC32C digests, and the
  variable-length tables of the bodies (members, dLSNs, extents, scatter plans).

  Every packed struct is a record; \<open>put_S\<close> is the instance of the template \<open>put<S>\<close> and
  \<open>get_S\<close> the instance of \<open>decode<S>\<close>. A field array of \<open>k\<close> bytes is a byte list, and
  \<open>wf_S\<close> says that it has its \<open>k\<close> bytes. The locale \<open>wire_struct\<close> is what a codec promises;
  it is interpreted for each struct.
\<close>

unbundle bit_operations_syntax

section \<open>Field access\<close>

definition bytes_at :: "nat \<Rightarrow> nat \<Rightarrow> byte list \<Rightarrow> byte list" where
  "bytes_at off n s = take n (drop off s)"

definition u8_at :: "nat \<Rightarrow> byte list \<Rightarrow> byte" where
  "u8_at off s = word_of_nat (le_get (bytes_at off 1 s))"

definition u16_at :: "nat \<Rightarrow> byte list \<Rightarrow> 16 word" where
  "u16_at off s = word_of_nat (le_get (bytes_at off 2 s))"

definition u32_at :: "nat \<Rightarrow> byte list \<Rightarrow> 32 word" where
  "u32_at off s = word_of_nat (le_get (bytes_at off 4 s))"

definition u64_at :: "nat \<Rightarrow> byte list \<Rightarrow> 64 word" where
  "u64_at off s = word_of_nat (le_get (bytes_at off 8 s))"

definition put_u8 :: "byte \<Rightarrow> byte list" where
  "put_u8 w = le_put 1 (unat w)"

definition put_u16 :: "16 word \<Rightarrow> byte list" where
  "put_u16 w = le_put 2 (unat w)"

definition put_u32 :: "32 word \<Rightarrow> byte list" where
  "put_u32 w = le_put 4 (unat w)"

definition put_u64 :: "64 word \<Rightarrow> byte list" where
  "put_u64 w = le_put 8 (unat w)"

section \<open>Op codes\<close>

datatype wire_op =
    Op_login | Op_login_rsp | Op_helo | Op_helo_rsp | Op_write | Op_write_rsp
  | Op_read | Op_read_rsp | Op_keepalive | Op_keepalive_rsp | Op_logout | Op_logout_rsp
  | Op_resolve | Op_resolve_rsp | Op_create_volume | Op_create_volume_rsp
  | Op_get_rs_commit_lsn | Op_get_rs_commit_lsn_rsp | Op_fetch_data | Op_fetch_data_rsp

fun op_code :: "wire_op \<Rightarrow> byte" where
  "op_code Op_login = 1"
| "op_code Op_login_rsp = 2"
| "op_code Op_helo = 3"
| "op_code Op_helo_rsp = 4"
| "op_code Op_write = 5"
| "op_code Op_write_rsp = 6"
| "op_code Op_read = 7"
| "op_code Op_read_rsp = 8"
| "op_code Op_keepalive = 9"
| "op_code Op_keepalive_rsp = 10"
| "op_code Op_logout = 11"
| "op_code Op_logout_rsp = 12"
| "op_code Op_resolve = 13"
| "op_code Op_resolve_rsp = 14"
| "op_code Op_create_volume = 15"
| "op_code Op_create_volume_rsp = 16"
| "op_code Op_get_rs_commit_lsn = 17"
| "op_code Op_get_rs_commit_lsn_rsp = 18"
| "op_code Op_fetch_data = 19"
| "op_code Op_fetch_data_rsp = 20"

definition k_max_op :: byte where
  "k_max_op = 20"

definition k_default_max_tx :: "32 word" where
  "k_default_max_tx = 512 * 1024"

section \<open>The packed structs\<close>

record msg_hdr =
  mh_op :: byte
  mh_status :: byte
  mh_request_id :: "16 word"
  mh_body_len :: "32 word"

definition put_msg_hdr :: "msg_hdr \<Rightarrow> byte list" where
  "put_msg_hdr x =
     put_u8 (mh_op x) @ put_u8 (mh_status x) @ put_u16 (mh_request_id x) @
     put_u32 (mh_body_len x)"

definition get_msg_hdr :: "byte list \<Rightarrow> msg_hdr" where
  "get_msg_hdr s =
     \<lparr>mh_op = u8_at 0 s,
      mh_status = u8_at 1 s,
      mh_request_id = u16_at 2 s,
      mh_body_len = u32_at 4 s\<rparr>"

record req_hdr =
  rh_commit_lsn :: "64 word"
  rh_all_committed_lsn :: "64 word"

definition put_req_hdr :: "req_hdr \<Rightarrow> byte list" where
  "put_req_hdr x = put_u64 (rh_commit_lsn x) @ put_u64 (rh_all_committed_lsn x)"

definition get_req_hdr :: "byte list \<Rightarrow> req_hdr" where
  "get_req_hdr s =
     \<lparr>rh_commit_lsn = u64_at 0 s,
      rh_all_committed_lsn = u64_at 8 s\<rparr>"

record login_req =
  lq_volume_id :: "byte list"
  lq_client_token :: "64 word"

definition put_login_req :: "login_req \<Rightarrow> byte list" where
  "put_login_req x = lq_volume_id x @ put_u64 (lq_client_token x)"

definition get_login_req :: "byte list \<Rightarrow> login_req" where
  "get_login_req s =
     \<lparr>lq_volume_id = bytes_at 0 16 s,
      lq_client_token = u64_at 16 s\<rparr>"

record login_rsp =
  lgp_term :: "64 word"
  lgp_dlsn :: "64 word"
  lgp_capacity :: "64 word"
  lgp_lba_size :: "32 word"
  lgp_max_tx :: "32 word"
  lgp_member_count :: "32 word"
  lgp_reserved :: "32 word"
  lgp_leader_hint :: "byte list"

definition put_login_rsp :: "login_rsp \<Rightarrow> byte list" where
  "put_login_rsp x =
     put_u64 (lgp_term x) @ put_u64 (lgp_dlsn x) @ put_u64 (lgp_capacity x) @
     put_u32 (lgp_lba_size x) @ put_u32 (lgp_max_tx x) @ put_u32 (lgp_member_count x) @
     put_u32 (lgp_reserved x) @ lgp_leader_hint x"

definition get_login_rsp :: "byte list \<Rightarrow> login_rsp" where
  "get_login_rsp s =
     \<lparr>lgp_term = u64_at 0 s,
      lgp_dlsn = u64_at 8 s,
      lgp_capacity = u64_at 16 s,
      lgp_lba_size = u32_at 24 s,
      lgp_max_tx = u32_at 28 s,
      lgp_member_count = u32_at 32 s,
      lgp_reserved = u32_at 36 s,
      lgp_leader_hint = bytes_at 40 16 s\<rparr>"

record helo_req =
  hq_volume_id :: "byte list"
  hq_client_token :: "64 word"
  hq_term :: "64 word"

definition put_helo_req :: "helo_req \<Rightarrow> byte list" where
  "put_helo_req x = hq_volume_id x @ put_u64 (hq_client_token x) @ put_u64 (hq_term x)"

definition get_helo_req :: "byte list \<Rightarrow> helo_req" where
  "get_helo_req s =
     \<lparr>hq_volume_id = bytes_at 0 16 s,
      hq_client_token = u64_at 16 s,
      hq_term = u64_at 24 s\<rparr>"

record write_req =
  wq_hdr :: req_hdr
  wq_dlsn :: "64 word"
  wq_addr :: "64 word"
  wq_len :: "64 word"

definition put_write_req :: "write_req \<Rightarrow> byte list" where
  "put_write_req x =
     put_req_hdr (wq_hdr x) @ put_u64 (wq_dlsn x) @ put_u64 (wq_addr x) @
     put_u64 (wq_len x)"

definition get_write_req :: "byte list \<Rightarrow> write_req" where
  "get_write_req s =
     \<lparr>wq_hdr = get_req_hdr s,
      wq_dlsn = u64_at 16 s,
      wq_addr = u64_at 24 s,
      wq_len = u64_at 32 s\<rparr>"

record write_rsp =
  wp_commit_lsn :: "64 word"
  wp_last_append_lsn :: "64 word"

definition put_write_rsp :: "write_rsp \<Rightarrow> byte list" where
  "put_write_rsp x = put_u64 (wp_commit_lsn x) @ put_u64 (wp_last_append_lsn x)"

definition get_write_rsp :: "byte list \<Rightarrow> write_rsp" where
  "get_write_rsp s =
     \<lparr>wp_commit_lsn = u64_at 0 s,
      wp_last_append_lsn = u64_at 8 s\<rparr>"

record read_req =
  rq_hdr :: req_hdr
  rq_read_lsn :: "64 word"
  rq_addr :: "64 word"
  rq_len :: "64 word"

definition put_read_req :: "read_req \<Rightarrow> byte list" where
  "put_read_req x =
     put_req_hdr (rq_hdr x) @ put_u64 (rq_read_lsn x) @ put_u64 (rq_addr x) @
     put_u64 (rq_len x)"

definition get_read_req :: "byte list \<Rightarrow> read_req" where
  "get_read_req s =
     \<lparr>rq_hdr = get_req_hdr s,
      rq_read_lsn = u64_at 16 s,
      rq_addr = u64_at 24 s,
      rq_len = u64_at 32 s\<rparr>"

record read_rsp =
  rdp_commit_lsn :: "64 word"
  rdp_last_append_lsn :: "64 word"
  rdp_extent_count :: "32 word"
  rdp_reserved :: "32 word"

definition put_read_rsp :: "read_rsp \<Rightarrow> byte list" where
  "put_read_rsp x =
     put_u64 (rdp_commit_lsn x) @ put_u64 (rdp_last_append_lsn x) @
     put_u32 (rdp_extent_count x) @ put_u32 (rdp_reserved x)"

definition get_read_rsp :: "byte list \<Rightarrow> read_rsp" where
  "get_read_rsp s =
     \<lparr>rdp_commit_lsn = u64_at 0 s,
      rdp_last_append_lsn = u64_at 8 s,
      rdp_extent_count = u32_at 16 s,
      rdp_reserved = u32_at 20 s\<rparr>"

record extent_desc =
  ed_addr :: "64 word"
  ed_len :: "64 word"
  ed_hole :: byte
  ed_reserved :: "byte list"

definition put_extent_desc :: "extent_desc \<Rightarrow> byte list" where
  "put_extent_desc x =
     put_u64 (ed_addr x) @ put_u64 (ed_len x) @ put_u8 (ed_hole x) @ ed_reserved x"

definition get_extent_desc :: "byte list \<Rightarrow> extent_desc" where
  "get_extent_desc s =
     \<lparr>ed_addr = u64_at 0 s,
      ed_len = u64_at 8 s,
      ed_hole = u8_at 16 s,
      ed_reserved = bytes_at 17 7 s\<rparr>"

record keepalive_req =
  kq_hdr :: req_hdr

definition put_keepalive_req :: "keepalive_req \<Rightarrow> byte list" where
  "put_keepalive_req x = put_req_hdr (kq_hdr x)"

definition get_keepalive_req :: "byte list \<Rightarrow> keepalive_req" where
  "get_keepalive_req s =
     \<lparr>kq_hdr = get_req_hdr s\<rparr>"

record keepalive_rsp =
  kp_commit_lsn :: "64 word"
  kp_last_append_lsn :: "64 word"

definition put_keepalive_rsp :: "keepalive_rsp \<Rightarrow> byte list" where
  "put_keepalive_rsp x = put_u64 (kp_commit_lsn x) @ put_u64 (kp_last_append_lsn x)"

definition get_keepalive_rsp :: "byte list \<Rightarrow> keepalive_rsp" where
  "get_keepalive_rsp s =
     \<lparr>kp_commit_lsn = u64_at 0 s,
      kp_last_append_lsn = u64_at 8 s\<rparr>"

record logout_req =
  oq_hdr :: req_hdr

definition put_logout_req :: "logout_req \<Rightarrow> byte list" where
  "put_logout_req x = put_req_hdr (oq_hdr x)"

definition get_logout_req :: "byte list \<Rightarrow> logout_req" where
  "get_logout_req s =
     \<lparr>oq_hdr = get_req_hdr s\<rparr>"

record resolve_req =
  sq_hdr :: req_hdr
  sq_upto :: "64 word"

definition put_resolve_req :: "resolve_req \<Rightarrow> byte list" where
  "put_resolve_req x = put_req_hdr (sq_hdr x) @ put_u64 (sq_upto x)"

definition get_resolve_req :: "byte list \<Rightarrow> resolve_req" where
  "get_resolve_req s =
     \<lparr>sq_hdr = get_req_hdr s,
      sq_upto = u64_at 16 s\<rparr>"

record resolve_rsp =
  sp_resolved_upto :: "64 word"
  sp_empty_count :: "32 word"
  sp_reserved :: "32 word"

definition put_resolve_rsp :: "resolve_rsp \<Rightarrow> byte list" where
  "put_resolve_rsp x =
     put_u64 (sp_resolved_upto x) @ put_u32 (sp_empty_count x) @ put_u32 (sp_reserved x)"

definition get_resolve_rsp :: "byte list \<Rightarrow> resolve_rsp" where
  "get_resolve_rsp s =
     \<lparr>sp_resolved_upto = u64_at 0 s,
      sp_empty_count = u32_at 8 s,
      sp_reserved = u32_at 12 s\<rparr>"

record volume_create_req =
  vq_volume_id :: "byte list"
  vq_capacity :: "64 word"
  vq_lba_size :: "32 word"
  vq_member_count :: "32 word"

definition put_volume_create_req :: "volume_create_req \<Rightarrow> byte list" where
  "put_volume_create_req x =
     vq_volume_id x @ put_u64 (vq_capacity x) @ put_u32 (vq_lba_size x) @
     put_u32 (vq_member_count x)"

definition get_volume_create_req :: "byte list \<Rightarrow> volume_create_req" where
  "get_volume_create_req s =
     \<lparr>vq_volume_id = bytes_at 0 16 s,
      vq_capacity = u64_at 16 s,
      vq_lba_size = u32_at 24 s,
      vq_member_count = u32_at 28 s\<rparr>"

record get_rs_commit_lsn_req =
  gq_term :: "64 word"
  gq_is_login :: byte
  gq_reserved :: "byte list"

definition put_get_rs_commit_lsn_req :: "get_rs_commit_lsn_req \<Rightarrow> byte list" where
  "put_get_rs_commit_lsn_req x = put_u64 (gq_term x) @ put_u8 (gq_is_login x) @ gq_reserved x"

definition get_get_rs_commit_lsn_req :: "byte list \<Rightarrow> get_rs_commit_lsn_req" where
  "get_get_rs_commit_lsn_req s =
     \<lparr>gq_term = u64_at 0 s,
      gq_is_login = u8_at 8 s,
      gq_reserved = bytes_at 9 7 s\<rparr>"

record get_rs_commit_lsn_rsp =
  gp_commit_lsn :: "64 word"
  gp_last_append_lsn :: "64 word"

definition put_get_rs_commit_lsn_rsp :: "get_rs_commit_lsn_rsp \<Rightarrow> byte list" where
  "put_get_rs_commit_lsn_rsp x = put_u64 (gp_commit_lsn x) @ put_u64 (gp_last_append_lsn x)"

definition get_get_rs_commit_lsn_rsp :: "byte list \<Rightarrow> get_rs_commit_lsn_rsp" where
  "get_get_rs_commit_lsn_rsp s =
     \<lparr>gp_commit_lsn = u64_at 0 s,
      gp_last_append_lsn = u64_at 8 s\<rparr>"

record fetch_data_req =
  fq_lsn_count :: "32 word"
  fq_reserved :: "32 word"

definition put_fetch_data_req :: "fetch_data_req \<Rightarrow> byte list" where
  "put_fetch_data_req x = put_u32 (fq_lsn_count x) @ put_u32 (fq_reserved x)"

definition get_fetch_data_req :: "byte list \<Rightarrow> fetch_data_req" where
  "get_fetch_data_req s =
     \<lparr>fq_lsn_count = u32_at 0 s,
      fq_reserved = u32_at 4 s\<rparr>"

record fetch_slot_desc =
  fd_lsn :: "64 word"
  fd_lba :: "64 word"
  fd_len :: "32 word"
  fd_byte_len :: "64 word"
  fd_is_empty :: byte
  fd_all_zeros :: byte
  fd_reserved :: "byte list"

definition put_fetch_slot_desc :: "fetch_slot_desc \<Rightarrow> byte list" where
  "put_fetch_slot_desc x =
     put_u64 (fd_lsn x) @ put_u64 (fd_lba x) @ put_u32 (fd_len x) @
     put_u64 (fd_byte_len x) @ put_u8 (fd_is_empty x) @ put_u8 (fd_all_zeros x) @
     fd_reserved x"

definition get_fetch_slot_desc :: "byte list \<Rightarrow> fetch_slot_desc" where
  "get_fetch_slot_desc s =
     \<lparr>fd_lsn = u64_at 0 s,
      fd_lba = u64_at 8 s,
      fd_len = u32_at 16 s,
      fd_byte_len = u64_at 20 s,
      fd_is_empty = u8_at 28 s,
      fd_all_zeros = u8_at 29 s,
      fd_reserved = bytes_at 30 2 s\<rparr>"

record fetch_data_rsp =
  fp_slot_count :: "32 word"
  fp_reserved :: "32 word"

definition put_fetch_data_rsp :: "fetch_data_rsp \<Rightarrow> byte list" where
  "put_fetch_data_rsp x = put_u32 (fp_slot_count x) @ put_u32 (fp_reserved x)"

definition get_fetch_data_rsp :: "byte list \<Rightarrow> fetch_data_rsp" where
  "get_fetch_data_rsp s =
     \<lparr>fp_slot_count = u32_at 0 s,
      fp_reserved = u32_at 4 s\<rparr>"

section \<open>Well-formed structs\<close>

definition wf_login_req :: "login_req \<Rightarrow> bool" where
  "wf_login_req x \<longleftrightarrow> length (lq_volume_id x) = 16"

definition wf_login_rsp :: "login_rsp \<Rightarrow> bool" where
  "wf_login_rsp x \<longleftrightarrow> length (lgp_leader_hint x) = 16"

definition wf_helo_req :: "helo_req \<Rightarrow> bool" where
  "wf_helo_req x \<longleftrightarrow> length (hq_volume_id x) = 16"

definition wf_extent_desc :: "extent_desc \<Rightarrow> bool" where
  "wf_extent_desc x \<longleftrightarrow> length (ed_reserved x) = 7"

definition wf_volume_create_req :: "volume_create_req \<Rightarrow> bool" where
  "wf_volume_create_req x \<longleftrightarrow> length (vq_volume_id x) = 16"

definition wf_get_rs_commit_lsn_req :: "get_rs_commit_lsn_req \<Rightarrow> bool" where
  "wf_get_rs_commit_lsn_req x \<longleftrightarrow> length (gq_reserved x) = 7"

definition wf_fetch_slot_desc :: "fetch_slot_desc \<Rightarrow> bool" where
  "wf_fetch_slot_desc x \<longleftrightarrow> length (fd_reserved x) = 2"

section \<open>The op tables\<close>

definition op_hdr_table :: "nat list" where
  "op_hdr_table = [0, 24, 56, 32, 0, 40, 16, 40, 24, 16, 16, 16, 0, 24, 16, 32, 0, 16, 16, 8, 8]"

definition op_hdr_size :: "byte \<Rightarrow> nat option" where
  "op_hdr_size c = (if c < 1 \<or> k_max_op < c then None else Some (op_hdr_table ! unat c))"

definition is_response :: "byte \<Rightarrow> bool" where
  "is_response c \<longleftrightarrow> 1 \<le> c \<and> c \<le> k_max_op \<and> c mod 2 = 0"

definition op_allows_body :: "byte \<Rightarrow> bool" where
  "op_allows_body c \<longleftrightarrow>
     c = op_code Op_write \<or> c = op_code Op_login_rsp \<or> c = op_code Op_read_rsp \<or>
     c = op_code Op_resolve_rsp \<or> c = op_code Op_create_volume \<or>
     c = op_code Op_fetch_data \<or> c = op_code Op_fetch_data_rsp"

definition framed_body_max :: "32 word \<Rightarrow> 32 word \<Rightarrow> 32 word" where
  "framed_body_max payload lba =
     (let blocks = (if lba = 0 then 0 else (payload + lba - 1) div lba)
      in payload + blocks * 24)"

section \<open>CRC32C\<close>

definition crc_shift :: "32 word \<Rightarrow> 32 word" where
  "crc_shift c = (if c AND 1 \<noteq> 0 then 0x82F63B78 XOR drop_bit 1 c else drop_bit 1 c)"

definition k_crc32c_table :: "32 word list" where
  "k_crc32c_table = map (\<lambda>i. (crc_shift ^^ 8) (word_of_nat i)) [0..<256]"

definition crc_byte :: "32 word \<Rightarrow> byte \<Rightarrow> 32 word" where
  "crc_byte crc b =
     k_crc32c_table ! unat ((crc XOR ucast b) AND 0xFF) XOR drop_bit 8 crc"

definition crc32c :: "byte list \<Rightarrow> 32 word" where
  "crc32c data = NOT (fold (\<lambda>b crc. crc_byte crc b) data (NOT 0))"

section \<open>Messages\<close>

record digest_cfg =
  dg_header :: bool
  dg_data :: bool

datatype parse_error = incomplete | unknown_op | bad_length | bad_digest

record message =
  ms_hdr :: msg_hdr
  ms_op_header :: "byte list"
  ms_body :: "byte list"
  ms_total :: nat

definition parse_message :: "byte list \<Rightarrow> 32 word \<Rightarrow> digest_cfg \<Rightarrow> parse_error + message" where
  "parse_message buf max_tx dg =
     (if length buf < 8 then Inl incomplete
      else let hdr = get_msg_hdr buf in
        (case op_hdr_size (mh_op hdr) of
           None \<Rightarrow> Inl unknown_op
         | Some ohs \<Rightarrow>
             if max_tx < mh_body_len hdr then Inl bad_length
             else if 0 < mh_body_len hdr \<and> \<not> op_allows_body (mh_op hdr) then Inl bad_length
             else let hdr_end = 8 + ohs;
                      hd = (if dg_header dg then 4 else 0);
                      dd = (if dg_data dg then 4 else 0);
                      body_start = hdr_end + hd;
                      body_len = unat (mh_body_len hdr);
                      total = body_start + body_len + dd in
               if length buf < total then Inl incomplete
               else if dg_header dg \<and> u32_at hdr_end buf \<noteq> crc32c (bytes_at 0 hdr_end buf)
                 then Inl bad_digest
               else if dg_data dg \<and>
                  u32_at (body_start + body_len) buf \<noteq> crc32c (bytes_at body_start body_len buf)
                 then Inl bad_digest
               else Inr \<lparr>ms_hdr = hdr, ms_op_header = bytes_at 8 ohs buf,
                         ms_body = bytes_at body_start body_len buf, ms_total = total\<rparr>))"

definition frame_message ::
  "byte list \<Rightarrow> wire_op \<Rightarrow> byte \<Rightarrow> 16 word \<Rightarrow> byte list \<Rightarrow> byte list \<Rightarrow> digest_cfg \<Rightarrow> byte list" where
  "frame_message out opc status request_id op_header body dg =
     (let h = put_msg_hdr \<lparr>mh_op = op_code opc, mh_status = status, mh_request_id = request_id,
                           mh_body_len = word_of_nat (length body)\<rparr> @ op_header
      in out @ h @ (if dg_header dg then put_u32 (crc32c h) else []) @ body @
         (if dg_data dg then put_u32 (crc32c body) else []))"

section \<open>Body tables\<close>

record member =
  mb_id :: "byte list"
  mb_addr :: "byte list"

definition wf_member :: "member \<Rightarrow> bool" where
  "wf_member m \<longleftrightarrow> length (mb_id m) = 16 \<and> length (mb_addr m) < 2 ^ 16"

definition put_member :: "member \<Rightarrow> byte list" where
  "put_member m = mb_id m @ put_u16 (word_of_nat (length (mb_addr m))) @ mb_addr m"

text \<open>The decoding loop, with the cursor \<open>off\<close> into \<open>body\<close>.\<close>

fun decode_members_from :: "byte list \<Rightarrow> nat \<Rightarrow> nat \<Rightarrow> member list option" where
  "decode_members_from body off 0 = Some []"
| "decode_members_from body off (Suc n) =
     (if length body < off + 16 + 2 then None
      else let alen = unat (u16_at (off + 16) body) in
        if length body < off + 16 + 2 + alen then None
        else map_option
          (Cons \<lparr>mb_id = bytes_at off 16 body, mb_addr = bytes_at (off + 18) alen body\<rparr>)
          (decode_members_from body (off + 18 + alen) n))"

definition decode_members :: "byte list \<Rightarrow> 32 word \<Rightarrow> member list option" where
  "decode_members body count = decode_members_from body 0 (unat count)"

definition decode_n :: "(byte list \<Rightarrow> 'a) \<Rightarrow> nat \<Rightarrow> nat \<Rightarrow> byte list \<Rightarrow> 'a list" where
  "decode_n get sz n body = map (\<lambda>i. get (drop (i * sz) body)) [0..<n]"

definition decode_lsns :: "byte list \<Rightarrow> 32 word \<Rightarrow> int list option" where
  "decode_lsns body count =
     (if length body < unat count * 8 then None
      else Some (decode_n (\<lambda>s. sint (u64_at 0 s)) 8 (unat count) body))"

definition decode_extents :: "byte list \<Rightarrow> 32 word \<Rightarrow> extent_desc list option" where
  "decode_extents body count =
     (if length body < unat count * 24 then None
      else Some (decode_n get_extent_desc 24 (unat count) body))"

record scatter_plan =
  sc_data :: "(nat \<times> nat) list"
  sc_holes :: "(nat \<times> nat) list"
  sc_ok :: bool

fun plan_scatter_from ::
  "extent_desc list \<Rightarrow> 64 word \<Rightarrow> 64 word \<Rightarrow> scatter_plan \<Rightarrow> scatter_plan" where
  "plan_scatter_from [] req_addr req_end p = p\<lparr>sc_ok := True\<rparr>"
| "plan_scatter_from (e # es) req_addr req_end p =
     (let e_end = ed_addr e + ed_len e in
      if e_end < ed_addr e \<or> ed_addr e < req_addr \<or> req_end < e_end then p
      else let d = (unat (ed_addr e - req_addr), unat (ed_len e)) in
        plan_scatter_from es req_addr req_end
          (if ed_hole e \<noteq> 0 then p\<lparr>sc_holes := sc_holes p @ [d]\<rparr>
           else p\<lparr>sc_data := sc_data p @ [d]\<rparr>))"

definition plan_scatter :: "extent_desc list \<Rightarrow> 64 word \<Rightarrow> 64 word \<Rightarrow> scatter_plan" where
  "plan_scatter es req_addr req_len =
     plan_scatter_from es req_addr (req_addr + req_len) \<lparr>sc_data = [], sc_holes = [], sc_ok = False\<rparr>"

section \<open>Specification vocabulary\<close>

text \<open>The header a frame starts with, and when a message may be framed.\<close>

definition frame_hdr :: "wire_op \<Rightarrow> byte \<Rightarrow> 16 word \<Rightarrow> byte list \<Rightarrow> msg_hdr" where
  "frame_hdr opc status request_id body =
     \<lparr>mh_op = op_code opc, mh_status = status, mh_request_id = request_id,
      mh_body_len = word_of_nat (length body)\<rparr>"

definition frame_ok :: "wire_op \<Rightarrow> byte list \<Rightarrow> byte list \<Rightarrow> 32 word \<Rightarrow> bool" where
  "frame_ok opc op_header body max_tx \<longleftrightarrow>
     op_hdr_size (op_code opc) = Some (length op_header) \<and> length body \<le> unat max_tx \<and>
     (body = [] \<or> op_allows_body (op_code opc))"

text \<open>The reference for the digest: the reflected division, one bit at a time.\<close>

definition crc32c_bitwise :: "byte list \<Rightarrow> 32 word" where
  "crc32c_bitwise data = NOT (fold (\<lambda>b crc. (crc_shift ^^ 8) (crc XOR ucast b)) data (NOT 0))"

section \<open>What a packed struct promises\<close>

locale wire_struct =
  fixes put :: "'a \<Rightarrow> byte list"
    and get :: "byte list \<Rightarrow> 'a"
    and sz :: nat
    and wf :: "'a \<Rightarrow> bool"
  assumes length_put: "wf x \<Longrightarrow> length (put x) = sz"
    and get_put: "wf x \<Longrightarrow> get (put x @ s) = x"
begin

lemma get_put_exact: "wf x \<Longrightarrow> get (put x) = x"
  using get_put [of x "[]"] by simp

lemma put_inj: "wf x \<Longrightarrow> wf y \<Longrightarrow> put x = put y \<Longrightarrow> x = y"
  by (metis get_put_exact)

lemma length_array:
  "\<forall>x \<in> set xs. wf x \<Longrightarrow> length (concat (map put xs)) = length xs * sz"
  by (induction xs) (simp_all add: length_put)

lemma decode_array:
  assumes "\<forall>x \<in> set xs. wf x"
  shows "decode_n get sz (length xs) (concat (map put xs) @ s) = xs"
  using assms
proof (induction xs)
  case Nil
  show ?case by (simp add: decode_n_def)
next
  case (Cons x xs)
  then have x: "wf x" and IH: "decode_n get sz (length xs) (concat (map put xs) @ s) = xs"
    by simp_all
  have "decode_n get sz (Suc n) (put x @ t) = x # decode_n get sz n t" for n t
    by (simp add: decode_n_def get_put [OF x] length_put [OF x] upt_conv_Cons map_Suc_upt [symmetric]
        del: upt_Suc map_Suc_upt)
  with IH show ?case by simp
qed

end

section \<open>Field lemmas\<close>

lemma length_put_uint [simp]:
  "length (put_u8 a) = 1" "length (put_u16 b) = 2" "length (put_u32 c) = 4" "length (put_u64 d) = 8"
  by (simp_all add: put_u8_def put_u16_def put_u32_def put_u64_def)

lemma bytes_at_append:
  "bytes_at off n (xs @ ys) =
     (if length xs \<le> off then bytes_at (off - length xs) n ys
      else take n (drop off xs) @ take (n - (length xs - off)) ys)"
  by (simp add: bytes_at_def)

lemma at_skip:
  "length xs \<le> off \<Longrightarrow> u8_at off (xs @ ys) = u8_at (off - length xs) ys"
  "length xs \<le> off \<Longrightarrow> u16_at off (xs @ ys) = u16_at (off - length xs) ys"
  "length xs \<le> off \<Longrightarrow> u32_at off (xs @ ys) = u32_at (off - length xs) ys"
  "length xs \<le> off \<Longrightarrow> u64_at off (xs @ ys) = u64_at (off - length xs) ys"
  by (simp_all add: u8_at_def u16_at_def u32_at_def u64_at_def bytes_at_append)

lemma bytes_at_skip: "length xs \<le> off \<Longrightarrow> bytes_at off n (xs @ ys) = bytes_at (off - length xs) n ys"
  by (simp add: bytes_at_append)

lemma bytes_at_here: "length xs = n \<Longrightarrow> bytes_at 0 n (xs @ ys) = xs"
  by (simp add: bytes_at_def)

lemma bytes_at_exact: "length xs = n \<Longrightarrow> bytes_at 0 n xs = xs"
  by (simp add: bytes_at_def)

lemma at_put [simp]:
  "u8_at 0 (put_u8 a @ s) = a" "u16_at 0 (put_u16 b @ s) = b"
  "u32_at 0 (put_u32 c @ s) = c" "u64_at 0 (put_u64 d @ s) = d"
  "u32_at 0 (put_u32 c) = c"
  using word_le_roundtrip [of 1 a]
  by (simp_all add: u8_at_def put_u8_def u16_at_def put_u16_def u32_at_def put_u32_def
      u64_at_def put_u64_def bytes_at_def)

lemmas struct_simps = at_skip bytes_at_skip bytes_at_here

section \<open>Every struct keeps the contract\<close>

interpretation msg_hdr: wire_struct put_msg_hdr get_msg_hdr 8 "\<lambda>_. True"
  by unfold_locales (simp_all add: put_msg_hdr_def get_msg_hdr_def struct_simps)

interpretation req_hdr: wire_struct put_req_hdr get_req_hdr 16 "\<lambda>_. True"
  by unfold_locales (simp_all add: put_req_hdr_def get_req_hdr_def struct_simps)

interpretation login_req: wire_struct put_login_req get_login_req 24 wf_login_req
  by unfold_locales (simp_all add: put_login_req_def get_login_req_def wf_login_req_def struct_simps)

interpretation login_rsp: wire_struct put_login_rsp get_login_rsp 56 wf_login_rsp
  by unfold_locales (simp_all add: put_login_rsp_def get_login_rsp_def wf_login_rsp_def struct_simps)

interpretation helo_req: wire_struct put_helo_req get_helo_req 32 wf_helo_req
  by unfold_locales (simp_all add: put_helo_req_def get_helo_req_def wf_helo_req_def struct_simps)

interpretation write_req: wire_struct put_write_req get_write_req 40 "\<lambda>_. True"
  by unfold_locales (simp_all add: put_write_req_def get_write_req_def struct_simps req_hdr.length_put req_hdr.get_put)

interpretation write_rsp: wire_struct put_write_rsp get_write_rsp 16 "\<lambda>_. True"
  by unfold_locales (simp_all add: put_write_rsp_def get_write_rsp_def struct_simps)

interpretation read_req: wire_struct put_read_req get_read_req 40 "\<lambda>_. True"
  by unfold_locales (simp_all add: put_read_req_def get_read_req_def struct_simps req_hdr.length_put req_hdr.get_put)

interpretation read_rsp: wire_struct put_read_rsp get_read_rsp 24 "\<lambda>_. True"
  by unfold_locales (simp_all add: put_read_rsp_def get_read_rsp_def struct_simps)

interpretation extent_desc: wire_struct put_extent_desc get_extent_desc 24 wf_extent_desc
  by unfold_locales (simp_all add: put_extent_desc_def get_extent_desc_def wf_extent_desc_def struct_simps)

interpretation keepalive_req: wire_struct put_keepalive_req get_keepalive_req 16 "\<lambda>_. True"
  by unfold_locales (simp_all add: put_keepalive_req_def get_keepalive_req_def struct_simps req_hdr.length_put req_hdr.get_put)

interpretation keepalive_rsp: wire_struct put_keepalive_rsp get_keepalive_rsp 16 "\<lambda>_. True"
  by unfold_locales (simp_all add: put_keepalive_rsp_def get_keepalive_rsp_def struct_simps)

interpretation logout_req: wire_struct put_logout_req get_logout_req 16 "\<lambda>_. True"
  by unfold_locales (simp_all add: put_logout_req_def get_logout_req_def struct_simps req_hdr.length_put req_hdr.get_put)

interpretation resolve_req: wire_struct put_resolve_req get_resolve_req 24 "\<lambda>_. True"
  by unfold_locales (simp_all add: put_resolve_req_def get_resolve_req_def struct_simps req_hdr.length_put req_hdr.get_put)

interpretation resolve_rsp: wire_struct put_resolve_rsp get_resolve_rsp 16 "\<lambda>_. True"
  by unfold_locales (simp_all add: put_resolve_rsp_def get_resolve_rsp_def struct_simps)

interpretation volume_create_req: wire_struct put_volume_create_req get_volume_create_req 32 wf_volume_create_req
  by unfold_locales (simp_all add: put_volume_create_req_def get_volume_create_req_def wf_volume_create_req_def struct_simps)

interpretation get_rs_commit_lsn_req: wire_struct put_get_rs_commit_lsn_req get_get_rs_commit_lsn_req 16 wf_get_rs_commit_lsn_req
  by unfold_locales (simp_all add: put_get_rs_commit_lsn_req_def get_get_rs_commit_lsn_req_def wf_get_rs_commit_lsn_req_def struct_simps)

interpretation get_rs_commit_lsn_rsp: wire_struct put_get_rs_commit_lsn_rsp get_get_rs_commit_lsn_rsp 16 "\<lambda>_. True"
  by unfold_locales (simp_all add: put_get_rs_commit_lsn_rsp_def get_get_rs_commit_lsn_rsp_def struct_simps)

interpretation fetch_data_req: wire_struct put_fetch_data_req get_fetch_data_req 8 "\<lambda>_. True"
  by unfold_locales (simp_all add: put_fetch_data_req_def get_fetch_data_req_def struct_simps)

interpretation fetch_slot_desc: wire_struct put_fetch_slot_desc get_fetch_slot_desc 32 wf_fetch_slot_desc
  by unfold_locales (simp_all add: put_fetch_slot_desc_def get_fetch_slot_desc_def wf_fetch_slot_desc_def struct_simps)

interpretation fetch_data_rsp: wire_struct put_fetch_data_rsp get_fetch_data_rsp 8 "\<lambda>_. True"
  by unfold_locales (simp_all add: put_fetch_data_rsp_def get_fetch_data_rsp_def struct_simps)

section \<open>Framing and parsing\<close>

lemma op_hdr_size_op_code:
  "op_hdr_size (op_code opc) = Some (op_hdr_table ! unat (op_code opc))"
  by (cases opc) (simp_all add: op_hdr_size_def k_max_op_def)

lemma op_hdr_size_known:
  assumes "op_hdr_size c = Some n"
  obtains opc where "op_code opc = c"
proof -
  have "c \<in> op_code ` UNIV"
  proof -
    from assms have "c \<noteq> 0" "c \<le> 20"
      by (auto simp: op_hdr_size_def k_max_op_def not_less split: if_splits)
    then have "unat c \<in> set [1..<21]"
      by (simp add: word_le_nat_alt unat_gt_0 Suc_le_eq)
    then have "(word_of_nat (unat c) :: byte) \<in> word_of_nat ` set [1..<21]"
      by blast
    then have "c \<in> {1, 2, 3, 4, 5, 6, 7, 8, 9, 10, 11, 12, 13, 14, 15, 16, 17, 18, 19, 20}"
      by (simp add: upt_conv_Cons)
    also have "\<dots> = op_code ` {Op_login, Op_login_rsp, Op_helo, Op_helo_rsp, Op_write,
        Op_write_rsp, Op_read, Op_read_rsp, Op_keepalive, Op_keepalive_rsp, Op_logout,
        Op_logout_rsp, Op_resolve, Op_resolve_rsp, Op_create_volume,
        Op_create_volume_rsp, Op_get_rs_commit_lsn, Op_get_rs_commit_lsn_rsp, Op_fetch_data, Op_fetch_data_rsp}"
      by simp
    finally show ?thesis by blast
  qed
  with that show thesis by auto
qed

lemma length_frame_message:
  "length (frame_message out opc st rid oh body dg) =
     length out + 8 + length oh + (if dg_header dg then 4 else 0) + length body + (if dg_data dg then 4 else 0)"
  by (simp add: frame_message_def Let_def msg_hdr.length_put)

lemma frame_ok_body:
  assumes "frame_ok opc oh body max_tx"
  shows "unat (word_of_nat (length body) :: 32 word) = length body"
    and "\<not> max_tx < (word_of_nat (length body) :: 32 word)"
    and "\<not> (0 < (word_of_nat (length body) :: 32 word) \<and> \<not> op_allows_body (op_code opc))"
proof -
  have "length body < 2 ^ 32"
    using assms unsigned_less [of max_tx, where 'a = nat] by (simp add: frame_ok_def)
  then show *: "unat (word_of_nat (length body) :: 32 word) = length body"
    by (simp add: unat_of_nat)
  show "\<not> max_tx < (word_of_nat (length body) :: 32 word)"
    using assms by (simp add: frame_ok_def word_less_nat_alt *)
  show "\<not> (0 < (word_of_nat (length body) :: 32 word) \<and> \<not> op_allows_body (op_code opc))"
    using assms by (auto simp add: frame_ok_def word_less_nat_alt *)
qed

lemma get_hdr_frame:
  "8 \<le> n \<Longrightarrow> get_msg_hdr (take n (frame_message [] opc st rid oh body dg @ s)) = frame_hdr opc st rid body"
proof -
  assume "8 \<le> n"
  obtain t where "take n (frame_message [] opc st rid oh body dg @ s) = put_msg_hdr (frame_hdr opc st rid body) @ t"
    using \<open>8 \<le> n\<close> by (simp add: frame_message_def frame_hdr_def Let_def msg_hdr.length_put)
  then show ?thesis by (simp add: msg_hdr.get_put)
qed

lemma parse_frame:
  assumes "frame_ok opc oh body max_tx"
  shows "parse_message (frame_message [] opc st rid oh body dg @ s) max_tx dg =
     Inr \<lparr>ms_hdr = frame_hdr opc st rid body, ms_op_header = oh, ms_body = body,
          ms_total = length (frame_message [] opc st rid oh body dg)\<rparr>"
proof -
  let ?f = "frame_message [] opc st rid oh body dg"
  let ?h = "put_msg_hdr (frame_hdr opc st rid body) @ oh"
  let ?hd = "if dg_header dg then put_u32 (crc32c ?h) else []"
  let ?dd = "if dg_data dg then put_u32 (crc32c body) else []"
  note [simp] = frame_ok_body [OF assms]
  have f: "?f @ s = put_msg_hdr (frame_hdr opc st rid body) @ oh @ ?hd @ body @ ?dd @ s"
    by (simp add: frame_message_def frame_hdr_def Let_def)
  have len: "length (put_msg_hdr (frame_hdr opc st rid body)) = 8"
    by (simp add: msg_hdr.length_put)
  have hdr: "get_msg_hdr (?f @ s) = frame_hdr opc st rid body"
    using get_hdr_frame [of "length (?f @ s)" opc st rid oh body dg s] by (simp add: length_frame_message)
  have ohs: "op_hdr_size (op_code opc) = Some (length oh)"
    using assms by (simp add: frame_ok_def)
  have mh: "mh_op (frame_hdr opc st rid body) = op_code opc"
    "mh_body_len (frame_hdr opc st rid body) = word_of_nat (length body)"
    by (simp_all add: frame_hdr_def)
  have len_h: "length ?h = 8 + length oh" by (simp add: len)
  have b0: "bytes_at 0 (8 + length oh) (?f @ s) = ?h"
    unfolding f using len_h bytes_at_here [of ?h "8 + length oh"] by simp
  have b1: "bytes_at 8 (length oh) (?f @ s) = oh"
    unfolding f by (simp add: bytes_at_skip len bytes_at_here)
  have hd: "dg_header dg \<Longrightarrow> u32_at (8 + length oh) (?f @ s) = crc32c ?h"
    unfolding f by (simp add: at_skip len)
  have b2: "bytes_at (8 + length oh + (if dg_header dg then 4 else 0)) (length body) (?f @ s) = body"
    unfolding f by (simp add: bytes_at_skip len bytes_at_here)
  have dd: "dg_data dg \<Longrightarrow>
      u32_at (8 + length oh + (if dg_header dg then 4 else 0) + length body) (?f @ s) = crc32c body"
    unfolding f by (simp add: at_skip len)
  show ?thesis
    unfolding parse_message_def hdr mh ohs Let_def option.case frame_ok_body(1) [OF assms]
      b0 b1 b2
    using hd dd frame_ok_body(2,3) [OF assms]
    by (simp add: length_frame_message)
qed

lemma parse_frame_prefix:
  assumes "frame_ok opc oh body max_tx"
    and "n < length (frame_message [] opc st rid oh body dg)"
  shows "parse_message (take n (frame_message [] opc st rid oh body dg)) max_tx dg = Inl incomplete"
proof (cases "n < 8")
  case True
  with assms(2) show ?thesis by (simp add: parse_message_def)
next
  case False
  let ?f = "frame_message [] opc st rid oh body dg"
  have hdr: "get_msg_hdr (take n ?f) = frame_hdr opc st rid body"
    using get_hdr_frame [of n opc st rid oh body dg "[]"] False by simp
  have ohs: "op_hdr_size (op_code opc) = Some (length oh)"
    using assms(1) by (simp add: frame_ok_def)
  show ?thesis
    unfolding parse_message_def hdr Let_def
    using frame_ok_body [OF assms(1)] assms(2) False
    by (simp add: frame_hdr_def ohs length_frame_message)
qed

lemma le_put_get: "length bs = n \<Longrightarrow> le_put n (le_get bs) = bs"
proof (induction bs arbitrary: n)
  case Nil
  then show ?case by simp
next
  case (Cons b bs)
  then obtain m where n: "n = Suc m" and m: "length bs = m" by auto
  have b: "unat b < 256" using unsigned_less [of b, where 'a = nat] by simp
  then have "word_of_nat ((unat b + 256 * le_get bs) mod 256) = b"
    and "(unat b + 256 * le_get bs) div 256 = le_get bs"
    by simp_all
  with Cons.IH [OF m] show ?case by (simp add: n)
qed

lemma unat_le_get:
  assumes "length bs = n" and "LENGTH('a::len) = 8 * n"
  shows "unat (word_of_nat (le_get bs) :: 'a word) = le_get bs"
proof -
  have "le_get bs < 2 ^ LENGTH('a)"
    using le_get_bound [of bs] assms by (simp add: power_mult)
  then show ?thesis by (simp add: unat_of_nat)
qed

lemma put_at:
  "off + 1 \<le> length s \<Longrightarrow> put_u8 (u8_at off s) = bytes_at off 1 s"
  "off + 2 \<le> length s \<Longrightarrow> put_u16 (u16_at off s) = bytes_at off 2 s"
  "off + 4 \<le> length s \<Longrightarrow> put_u32 (u32_at off s) = bytes_at off 4 s"
  "off + 8 \<le> length s \<Longrightarrow> put_u64 (u64_at off s) = bytes_at off 8 s"
proof -
  show "off + 1 \<le> length s \<Longrightarrow> put_u8 (u8_at off s) = bytes_at off 1 s"
    using unat_le_get [of "bytes_at off 1 s" 1, where 'a = 8] le_put_get [of "bytes_at off 1 s" 1]
    by (simp only: put_u8_def u8_at_def bytes_at_def) simp
qed (simp_all add: put_u16_def put_u32_def put_u64_def u16_at_def u32_at_def
      u64_at_def unat_le_get le_put_get bytes_at_def)

lemma bytes_at_glue:
  "k = off + m \<Longrightarrow> bytes_at off m s @ bytes_at k n s = bytes_at off (m + n) s"
  by (simp add: bytes_at_def take_add add.commute)

lemma put_get_msg_hdr:
  assumes "8 \<le> length s"
  shows "put_msg_hdr (get_msg_hdr s) = take 8 s"
proof -
  have "put_msg_hdr (get_msg_hdr s) = bytes_at 0 1 s @ bytes_at 1 1 s @ bytes_at 2 2 s @ bytes_at 4 4 s"
    using assms by (simp add: put_msg_hdr_def get_msg_hdr_def put_at)
  also have "\<dots> = bytes_at 0 8 s"
    by (simp add: bytes_at_glue)
  finally show ?thesis by (simp add: bytes_at_def)
qed

lemma frame_parse:
  assumes "parse_message buf max_tx dg = Inr m"
  obtains opc where "op_code opc = mh_op (ms_hdr m)"
    and "frame_message [] opc (mh_status (ms_hdr m)) (mh_request_id (ms_hdr m)) (ms_op_header m) (ms_body m) dg
         = take (ms_total m) buf"
    and "ms_total m \<le> length buf"
    and "frame_ok opc (ms_op_header m) (ms_body m) max_tx"
proof -
  define hdr where "hdr = get_msg_hdr buf"
  define len where "len = unat (mh_body_len hdr)"
  from assms have 8: "8 \<le> length buf"
    by (auto simp: parse_message_def split: if_splits)
  from assms obtain ohs where ohs: "op_hdr_size (mh_op hdr) = Some ohs"
    by (auto simp: parse_message_def hdr_def Let_def split: if_splits option.splits)
  then obtain opc where opc: "op_code opc = mh_op hdr" by (rule op_hdr_size_known)
  define e where "e = 8 + ohs + (if dg_header dg then 4 else 0)"
  define total where "total = e + len + (if dg_data dg then 4 else 0)"
  note unf = parse_message_def hdr_def [symmetric] len_def [symmetric] Let_def ohs option.case
    e_def [symmetric] total_def [symmetric]
  from assms 8 have fits: "total \<le> length buf"
    and tx: "mh_body_len hdr \<le> max_tx"
    and allow: "0 < mh_body_len hdr \<longrightarrow> op_allows_body (mh_op hdr)"
    and dh: "dg_header dg \<Longrightarrow> u32_at (8 + ohs) buf = crc32c (bytes_at 0 (8 + ohs) buf)"
    and dd: "dg_data dg \<Longrightarrow> u32_at (e + len) buf = crc32c (bytes_at e len buf)"
    and m: "m = \<lparr>ms_hdr = hdr, ms_op_header = bytes_at 8 ohs buf, ms_body = bytes_at e len buf, ms_total = total\<rparr>"
    unfolding unf by (auto split: if_splits simp: not_less)
  have lens: "length (bytes_at 8 ohs buf) = ohs" "length (bytes_at e len buf) = len"
    using fits by (auto simp: bytes_at_def total_def e_def)
  have body_len: "word_of_nat len = mh_body_len hdr" by (simp add: len_def)
  have hdr_eta: "\<lparr>mh_op = mh_op hdr, mh_status = mh_status hdr, mh_request_id = mh_request_id hdr,
      mh_body_len = mh_body_len hdr\<rparr> = hdr"
    by simp
  have h: "put_msg_hdr hdr @ bytes_at 8 ohs buf = bytes_at 0 (8 + ohs) buf"
    using put_get_msg_hdr [OF 8] bytes_at_glue [of 8 0 8 buf ohs] by (simp add: hdr_def bytes_at_def)
  have hd: "(if dg_header dg then put_u32 (crc32c (bytes_at 0 (8 + ohs) buf)) else []) =
      bytes_at (8 + ohs) (if dg_header dg then 4 else 0) buf"
    using dh fits put_at(3) [of "8 + ohs" buf] by (auto simp: bytes_at_def total_def e_def)
  have dat: "(if dg_data dg then put_u32 (crc32c (bytes_at e len buf)) else []) =
      bytes_at (e + len) (if dg_data dg then 4 else 0) buf"
    using dd fits put_at(3) [of "e + len" buf] by (auto simp: bytes_at_def total_def)
  have "frame_message [] opc (mh_status hdr) (mh_request_id hdr) (bytes_at 8 ohs buf) (bytes_at e len buf) dg
      = (put_msg_hdr hdr @ bytes_at 8 ohs buf) @
        (if dg_header dg then put_u32 (crc32c (put_msg_hdr hdr @ bytes_at 8 ohs buf)) else []) @
        bytes_at e len buf @ (if dg_data dg then put_u32 (crc32c (bytes_at e len buf)) else [])"
    by (simp only: frame_message_def Let_def opc lens body_len hdr_eta append_Nil append_assoc)
  also have "\<dots> = ((bytes_at 0 (8 + ohs) buf @ bytes_at (0 + (8 + ohs)) (if dg_header dg then 4 else 0) buf) @
        bytes_at e len buf) @ bytes_at (e + len) (if dg_data dg then 4 else 0) buf"
    unfolding h hd dat by simp
  also have "\<dots> = bytes_at 0 total buf"
    by (simp only: bytes_at_glue total_def e_def add_0)
  finally have fr: "frame_message [] opc (mh_status hdr) (mh_request_id hdr) (bytes_at 8 ohs buf)
      (bytes_at e len buf) dg = take total buf"
    by (simp add: bytes_at_def)
  have ok: "frame_ok opc (bytes_at 8 ohs buf) (bytes_at e len buf) max_tx"
    using ohs opc tx allow lens
    by (auto simp: frame_ok_def len_def word_le_nat_alt word_less_nat_alt simp flip: length_0_conv)
  from that [of opc] opc fr fits ok show thesis by (simp add: m)
qed

section \<open>CRC32C is the bitwise remainder\<close>

lemma crc_shift_xor: "crc_shift (a XOR b) = crc_shift a XOR crc_shift b"
proof -
  have odd: "(c AND 1 \<noteq> 0) = bit c 0" for c :: "32 word"
    by (simp add: and_one_eq bit_0 mod_2_eq_odd)
  show ?thesis
    unfolding crc_shift_def odd
    by (simp add: bit_xor_iff drop_bit_xor ac_simps xor.assoc)
qed

lemma crc_shift_pow_xor: "(crc_shift ^^ n) (a XOR b) = (crc_shift ^^ n) a XOR (crc_shift ^^ n) b"
  by (induction n) (simp_all add: crc_shift_xor)

lemma crc_shift_high:
  assumes "take_bit n a = 0"
  shows "(crc_shift ^^ n) a = drop_bit n a"
  using assms
proof (induction n)
  case 0
  show ?case by simp
next
  case (Suc n)
  have "take_bit n (take_bit (Suc n) a) = take_bit n a" by simp
  then have "take_bit n a = 0" by (simp add: Suc.prems)
  then have "(crc_shift ^^ n) a = drop_bit n a" by (rule Suc.IH)
  moreover have "\<not> bit a n"
    using Suc.prems bit_take_bit_iff [of "Suc n" a n] by simp
  then have "drop_bit n a AND 1 = 0"
    by (simp add: and_one_eq bit_drop_bit_eq mod_2_eq_odd flip: bit_0)
  ultimately show ?case
    by (simp add: crc_shift_def [of "drop_bit n a"] drop_bit_drop_bit)
qed

lemma crc_table_nth:
  "i < 256 \<Longrightarrow> k_crc32c_table ! i = (crc_shift ^^ 8) (word_of_nat i)"
  by (simp only: k_crc32c_table_def nth_map_upt diff_zero add_0)

lemma crc_byte_bitwise: "crc_byte crc b = (crc_shift ^^ 8) (crc XOR ucast b)"
proof -
  let ?x = "crc XOR ucast b"
  have mask: "(0xFF :: 32 word) = mask 8" by (simp add: mask_eq_exp_minus_1)
  have split: "?x = (?x AND 0xFF) XOR push_bit 8 (drop_bit 8 ?x)"
    unfolding mask by (rule bit_eqI) (auto simp: bit_simps)
  have "unat (take_bit 8 y) < 256" for y :: "32 word"
    using take_bit_nat_less_exp [of 8 "unat y"] by (simp add: unsigned_take_bit_eq)
  then have lo: "unat (?x AND 0xFF) < 256"
    unfolding mask take_bit_eq_mask [symmetric] .
  have "drop_bit 8 ?x = drop_bit 8 crc"
    by (rule bit_eqI) (auto simp: bit_simps dest: bit_imp_le_length)
  moreover have "n < 24" if "bit crc (8 + n)" for n
    using bit_imp_le_length [OF that] by simp
  then have "(crc_shift ^^ 8) (push_bit 8 (drop_bit 8 ?x)) = drop_bit 8 ?x"
    by (subst crc_shift_high) (auto intro!: bit_eqI simp: bit_simps dest: bit_imp_le_length)
  ultimately have "(crc_shift ^^ 8) ?x = (crc_shift ^^ 8) (?x AND 0xFF) XOR drop_bit 8 crc"
    by (subst split) (simp only: crc_shift_pow_xor)
  moreover have "word_of_nat (unat y) = y" for y :: "32 word" by simp
  ultimately show ?thesis
    by (simp only: crc_byte_def crc_table_nth [OF lo])
qed

lemma crc32c_eq_bitwise: "crc32c data = crc32c_bitwise data"
  by (simp add: crc32c_def crc32c_bitwise_def crc_byte_bitwise)

lemma crc_shift_8: 
  "(crc_shift ^^ 8) c = crc_shift (crc_shift (crc_shift (crc_shift (crc_shift (crc_shift (crc_shift (crc_shift c)))))))"
  by (simp add: eval_nat_numeral)

text \<open>The published check value of CRC-32C (Castagnoli), the checksum of the digits 1 to 9.\<close>

lemma crc32c_check:
  "crc32c [0x31, 0x32, 0x33, 0x34, 0x35, 0x36, 0x37, 0x38, 0x39] = 0xE3069283"
proof -
  have "fold (\<lambda>b crc. (crc_shift ^^ 8) (crc XOR ucast b))
      [0x31, 0x32, 0x33, 0x34, 0x35, 0x36, 0x37, 0x38, 0x39 :: 8 word] 0xFFFFFFFF = 0x1CF96D7C"
    by (simp add: crc_shift_8 crc_shift_def [of "numeral k" for k])
  moreover have "NOT 0 = (0xFFFFFFFF :: 32 word)" "NOT 0x1CF96D7C = (0xE3069283 :: 32 word)" by simp_all
  ultimately show ?thesis by (simp only: crc32c_eq_bitwise crc32c_bitwise_def)
qed
section \<open>Body tables\<close>

lemma decode_members_from_skip:
  "decode_members_from (xs @ ys) (length xs + off) n = decode_members_from ys off n"
proof (induction n arbitrary: off)
  case 0
  show ?case by simp
next
  case (Suc n)
  from Suc.IH have "decode_members_from (xs @ ys) (length xs + off + 18 + k) n =
      decode_members_from ys (off + 18 + k) n" for k
    by (metis add.assoc)
  then show ?case
    by (simp add: Let_def at_skip bytes_at_skip)
qed

lemma decode_members_put:
  assumes "\<forall>m \<in> set ms. wf_member m"
  shows "decode_members_from (concat (map put_member ms) @ s) 0 (length ms) = Some ms"
  using assms
proof (induction ms)
  case Nil
  show ?case by simp
next
  case (Cons m ms)
  then have IH: "decode_members_from (concat (map put_member ms) @ s) 0 (length ms) = Some ms"
    and id: "length (mb_id m) = 16" and addr: "length (mb_addr m) < 2 ^ 16"
    by (simp_all add: wf_member_def)
  let ?rest = "concat (map put_member ms) @ s"
  let ?body = "put_member m @ ?rest"
  have body: "?body = mb_id m @ put_u16 (word_of_nat (length (mb_addr m))) @ mb_addr m @ ?rest"
    by (simp add: put_member_def)
  have alen: "unat (u16_at 16 ?body) = length (mb_addr m)"
    unfolding body using addr by (simp add: at_skip id unat_of_nat)
  have m: "bytes_at 0 16 ?body = mb_id m" "bytes_at 18 (length (mb_addr m)) ?body = mb_addr m"
    unfolding body by (simp_all add: bytes_at_skip bytes_at_here id)
  have len: "length (put_member m) = 18 + length (mb_addr m)"
    by (simp add: put_member_def id)
  have "decode_members_from ?body (18 + length (mb_addr m)) (length ms) = Some ms"
    using decode_members_from_skip [of "put_member m" ?rest 0 "length ms"] IH by (simp add: len)
  then have "decode_members_from ?body 0 (Suc (length ms)) = Some (m # ms)"
    by (simp add: Let_def alen m len)
  then show ?case by simp
qed

interpretation lsn_field: wire_struct
  "\<lambda>i. put_u64 (word_of_int i)" "\<lambda>s. sint (u64_at 0 s)" 8 "\<lambda>i. - (2 ^ 63) \<le> i \<and> i < 2 ^ 63"
  by unfold_locales (simp_all add: int_word_sint)

lemma plan_scatter_from_fits:
  assumes "sc_ok (plan_scatter_from es a (a + l) p)"
    and "\<not> sc_ok p"
    and "\<forall>(off, n) \<in> set (sc_data p @ sc_holes p). off + n \<le> unat l"
  shows "\<forall>(off, n) \<in> set (sc_data (plan_scatter_from es a (a + l) p) @
           sc_holes (plan_scatter_from es a (a + l) p)). off + n \<le> unat l"
  using assms
proof (induction es arbitrary: p)
  case Nil
  then show ?case by simp
next
  case (Cons e es)
  let ?e_end = "ed_addr e + ed_len e"
  let ?d = "(unat (ed_addr e - a), unat (ed_len e))"
  let ?p = "if ed_hole e \<noteq> 0 then p\<lparr>sc_holes := sc_holes p @ [?d]\<rparr> else p\<lparr>sc_data := sc_data p @ [?d]\<rparr>"
  have ok: "\<not> (?e_end < ed_addr e \<or> ed_addr e < a \<or> a + l < ?e_end)"
    using Cons.prems(1,2) by (auto simp: Let_def split: if_splits)
  then have wrap: "a \<le> ed_addr e" "ed_addr e \<le> ?e_end" "?e_end \<le> a + l" "a \<le> a + l"
    by auto
  have "unat ?e_end = unat (ed_addr e) + unat (ed_len e)" "unat (a + l) = unat a + unat l"
    using wrap(2,4) unat_plus_simple by blast+
  with wrap(1,3) have fits: "unat (ed_addr e - a) + unat (ed_len e) \<le> unat l"
    by (simp add: unat_sub word_le_nat_alt)
  have step: "plan_scatter_from (e # es) a (a + l) p = plan_scatter_from es a (a + l) ?p"
    using ok by (simp add: Let_def)
  have "\<forall>(off, n) \<in> set (sc_data ?p @ sc_holes ?p). off + n \<le> unat l"
    using Cons.prems(3) fits by auto
  then show ?case
    using Cons.IH [of ?p] Cons.prems(1,2) unfolding step by simp
qed

lemma framed_body_max_bound:
  assumes "lba \<noteq> 0" and "unat payload + unat lba \<le> 2 ^ 32"
    and "unat payload + 24 * ((unat payload + unat lba - 1) div unat lba) < 2 ^ 32"
  shows "unat (framed_body_max payload lba) =
     unat payload + 24 * ((unat payload + unat lba - 1) div unat lba)"
proof -
  have pos: "0 < unat lba" using assms(1) by (simp add: unat_gt_0)
  have "unat (payload + (lba - 1)) = unat payload + (unat lba - 1)"
    using assms(1,2) pos by (simp add: unat_word_ariths(1) unat_minus_one)
  then have "unat (payload + lba - 1) = unat payload + unat lba - 1"
    using pos by (simp add: add_diff_eq)
  then have blocks: "unat ((payload + lba - 1) div lba) = (unat payload + unat lba - 1) div unat lba"
    by (simp add: unat_div_distrib)
  have "unat ((payload + lba - 1) div lba * 24) = 24 * ((unat payload + unat lba - 1) div unat lba)"
    using assms(3) by (simp add: unat_word_ariths(2) blocks)
  then show ?thesis
    using assms(1,3) by (simp add: framed_body_max_def Let_def unat_word_ariths(1))
qed

section \<open>Properties\<close>

text \<open>C34: A framed message parses back to its parts, whatever digests are configured and
  whatever bytes follow it in the buffer, and the parser consumes exactly the frame. The frame
  must have the op's header size, a body within \<open>max_tx\<close>, and a body only on an op that has one.\<close>

theorem parse_message_frame:
  assumes "frame_ok opc op_header body max_tx"
  shows "parse_message (frame_message [] opc status rid op_header body dg @ rest) max_tx dg =
     Inr \<lparr>ms_hdr = \<lparr>mh_op = op_code opc, mh_status = status, mh_request_id = rid,
                     mh_body_len = word_of_nat (length body)\<rparr>,
          ms_op_header = op_header, ms_body = body,
          ms_total = length (frame_message [] opc status rid op_header body dg)\<rparr>"
  using parse_frame [OF assms, of status rid dg rest] by (simp add: frame_hdr_def)

theorem parse_message_frame_witness:
  "parse_message
     (frame_message [] Op_write 0 7 (replicate 40 1) [10, 20, 30] \<lparr>dg_header = True, dg_data = True\<rparr> @ [99])
     4096 \<lparr>dg_header = True, dg_data = True\<rparr> =
   Inr \<lparr>ms_hdr = \<lparr>mh_op = 5, mh_status = 0, mh_request_id = 7, mh_body_len = 3\<rparr>,
        ms_op_header = replicate 40 1, ms_body = [10, 20, 30], ms_total = 59\<rparr>"
  using parse_message_frame [of Op_write "replicate 40 1" "[10, 20, 30]" 4096 0 7
      "\<lparr>dg_header = True, dg_data = True\<rparr>" "[99]"]
  by (simp add: frame_ok_def op_hdr_size_def op_hdr_table_def k_max_op_def op_allows_body_def
      length_frame_message)

text \<open>C35: The parser never rejects or accepts a message early: on every strict prefix of a
  well-formed frame it answers \<open>incomplete\<close>, so a receive loop keeps reading.\<close>

theorem parse_message_prefix_incomplete:
  assumes "frame_ok opc op_header body max_tx"
    and "n < length (frame_message [] opc status rid op_header body dg)"
  shows "parse_message (take n (frame_message [] opc status rid op_header body dg)) max_tx dg
    = Inl incomplete"
  using parse_frame_prefix [OF assms] .

theorem parse_message_prefix_incomplete_witness:
  "parse_message (take 20 (frame_message [] Op_resolve_rsp 0 7 (replicate 16 0) (replicate 8 5)
     \<lparr>dg_header = True, dg_data = False\<rparr>)) 4096 \<lparr>dg_header = True, dg_data = False\<rparr> = Inl incomplete"
  using parse_message_prefix_incomplete [of Op_resolve_rsp "replicate 16 0" "replicate 8 5" 4096 20 0 7
      "\<lparr>dg_header = True, dg_data = False\<rparr>"]
  by (simp add: frame_ok_def op_hdr_size_def op_hdr_table_def k_max_op_def op_allows_body_def
      length_frame_message)

text \<open>C36: The parser accepts nothing but frames: whatever it accepts, re-framing the parts it
  returned reproduces the bytes it consumed, digests included, and the body is within
  \<open>max_tx\<close> and allowed for the op.\<close>

theorem parse_message_only_frames:
  assumes "parse_message buf max_tx dg = Inr m"
  shows "ms_total m \<le> length buf \<and>
     (\<exists>opc. op_code opc = mh_op (ms_hdr m) \<and> frame_ok opc (ms_op_header m) (ms_body m) max_tx \<and>
        frame_message [] opc (mh_status (ms_hdr m)) (mh_request_id (ms_hdr m)) (ms_op_header m)
          (ms_body m) dg = take (ms_total m) buf)"
  using frame_parse [OF assms] by blast

theorem parse_message_only_frames_witness:
  "ms_total \<lparr>ms_hdr = \<lparr>mh_op = 4, mh_status = 1, mh_request_id = 513, mh_body_len = 0\<rparr>,
      ms_op_header = [], ms_body = [], ms_total = 8\<rparr> \<le> length ([4, 1, 1, 2, 0, 0, 0, 0, 77] :: byte list) \<and>
   (\<exists>opc. op_code opc = 4 \<and> frame_ok opc [] [] 0 \<and>
      frame_message [] opc 1 513 [] [] \<lparr>dg_header = False, dg_data = False\<rparr> = [4, 1, 1, 2, 0, 0, 0, 0])"
  using parse_message_only_frames [of "[4, 1, 1, 2, 0, 0, 0, 0, 77]" 0
      "\<lparr>dg_header = False, dg_data = False\<rparr>"
      "\<lparr>ms_hdr = \<lparr>mh_op = 4, mh_status = 1, mh_request_id = 513, mh_body_len = 0\<rparr>,
        ms_op_header = [], ms_body = [], ms_total = 8\<rparr>"]
  by (simp add: parse_message_def get_msg_hdr_def u8_at_def u16_at_def u32_at_def bytes_at_def
      op_hdr_size_def op_hdr_table_def k_max_op_def)

text \<open>C37: The table-driven CRC32C is the bit-by-bit reflected division by the Castagnoli
  polynomial, on every input, and the digits 1 to 9 give the published check value of CRC-32C.\<close>

theorem crc32c_is_bitwise:
  "crc32c data = crc32c_bitwise data \<and>
   crc32c [0x31, 0x32, 0x33, 0x34, 0x35, 0x36, 0x37, 0x38, 0x39] = 0xE3069283"
  by (rule conjI [OF crc32c_eq_bitwise crc32c_check])

text \<open>A member list decodes to itself, whatever follows it.\<close>

lemma decode_members_roundtrip:
  assumes "\<forall>m \<in> set ms. wf_member m" and "length ms < 2 ^ 32"
  shows "decode_members (concat (map put_member ms) @ rest) (word_of_nat (length ms)) = Some ms"
  using assms decode_members_put [of ms rest] by (simp add: decode_members_def unat_of_nat)

text \<open>C38: A scatter plan that is accepted stays inside the caller's buffer: every piece it copies
  or zeroes lies within the requested length, even when the extent or request arithmetic wraps.\<close>

theorem plan_scatter_in_bounds:
  assumes "sc_ok (plan_scatter es req_addr req_len)"
    and "(off, n) \<in> set (sc_data (plan_scatter es req_addr req_len) @
                         sc_holes (plan_scatter es req_addr req_len))"
  shows "off + n \<le> unat req_len"
  using plan_scatter_from_fits [of es req_addr req_len "\<lparr>sc_data = [], sc_holes = [], sc_ok = False\<rparr>"]
    assms by (fastforce simp: plan_scatter_def)

theorem plan_scatter_in_bounds_witness:
  "let es = [\<lparr>ed_addr = 65536, ed_len = 4096, ed_hole = 0, ed_reserved = replicate 7 0\<rparr>,
      \<lparr>ed_addr = 69632, ed_len = 4096, ed_hole = 1, ed_reserved = replicate 7 0\<rparr>]; p = plan_scatter es 65536 8192
   in sc_ok p \<and> (0, 4096) \<in> set (sc_data p) \<and> (4096, 4096) \<in> set (sc_holes p) \<and> 0 + 4096 \<le> unat (8192 :: 64 word) \<and>
      4096 + 4096 \<le> unat (8192 :: 64 word)"
  using plan_scatter_in_bounds [of "[\<lparr>ed_addr = 65536, ed_len = 4096, ed_hole = 0, ed_reserved = replicate 7 0\<rparr>,
      \<lparr>ed_addr = 69632, ed_len = 4096, ed_hole = 1, ed_reserved = replicate 7 0\<rparr>]" 65536 8192 4096 4096]
  by (simp add: plan_scatter_def)

end
