(* ===== verification/Conn.thy ===== *)
theory Conn
  imports Wire
begin

text \<open>
  One blocking connection (\<open>src/net/conn.cpp\<close>): the send loop over partial sends, and the
  receive loop that cuts a byte stream back into messages. The socket and its ring are an
  argument: the list of results that the successive submissions give, each the outcome of one
  completed operation. A list that runs out is a wait that has not ended.
\<close>

section \<open>Errors and completions\<close>

datatype net_error =
    Net_setup | Net_connect | Net_send | Net_recv | Net_closed | Net_malformed | Net_invalid_argument | Net_timed_out

text \<open>What one \<open>io_recv\<close> gives: bytes (\<open>n > 0\<close>), end of file (0), the deadline (-2) or an error.\<close>

datatype io_result = Rx_data "byte list" | Rx_eof | Rx_timed_out | Rx_failed

definition k_recv_chunk :: nat where
  "k_recv_chunk = 16 * 1024"

definition no_digest :: digest_cfg where
  "no_digest = \<lparr>dg_header = False, dg_data = False\<rparr>"

section \<open>Sending\<close>

text \<open>
  \<open>ns\<close> are the results of the successive sends. The reply is \<open>None\<close> while the loop waits, and
  comes with the bytes that left the connection.
\<close>

fun send_all :: "byte list \<Rightarrow> int list \<Rightarrow> bool option \<times> byte list" where
  "send_all data [] = (if data = [] then (Some True, []) else (None, []))"
| "send_all data (n # ns) =
     (if data = [] then (Some True, [])
      else if n \<le> 0 then (Some False, [])
      else (fst (send_all (drop (nat n) data) ns), take (nat n) data @ snd (send_all (drop (nat n) data) ns)))"

section \<open>Receiving\<close>

text \<open>The head of the loop: a message and the bytes after it, an error, or \<open>None\<close> for more bytes.\<close>

definition next_message :: "32 word \<Rightarrow> digest_cfg \<Rightarrow> byte list \<Rightarrow> (net_error + byte list \<times> byte list) option" where
  "next_message max_tx dg rx =
     (case parse_message rx max_tx dg of
        Inr m \<Rightarrow> Some (Inr (take (ms_total m) rx, drop (ms_total m) rx))
      | Inl e \<Rightarrow> if e \<noteq> incomplete then Some (Inl Net_malformed) else None)"

record recv_state =
  rv_rx :: "byte list"
  rv_io :: "io_result list"

fun recv_loop :: "32 word \<Rightarrow> digest_cfg \<Rightarrow> byte list \<Rightarrow> io_result list \<Rightarrow> (net_error + byte list) option \<times> recv_state" where
  "recv_loop max_tx dg rx io =
     (case next_message max_tx dg rx of
        Some (Inr (m, rest)) \<Rightarrow> (Some (Inr m), \<lparr>rv_rx = rest, rv_io = io\<rparr>)
      | Some (Inl e) \<Rightarrow> (Some (Inl e), \<lparr>rv_rx = rx, rv_io = io\<rparr>)
      | None \<Rightarrow>
          (case io of
             [] \<Rightarrow> (None, \<lparr>rv_rx = rx, rv_io = []\<rparr>)
           | Rx_timed_out # io' \<Rightarrow> (Some (Inl Net_timed_out), \<lparr>rv_rx = rx, rv_io = io'\<rparr>)
           | Rx_eof # io' \<Rightarrow> (Some (Inl Net_closed), \<lparr>rv_rx = rx @ replicate k_recv_chunk 0, rv_io = io'\<rparr>)
           | Rx_failed # io' \<Rightarrow> (Some (Inl Net_recv), \<lparr>rv_rx = rx, rv_io = io'\<rparr>)
           | Rx_data bs # io' \<Rightarrow> recv_loop max_tx dg (rx @ bs) io'))"

declare recv_loop.simps [simp del]

definition recv_message :: "32 word \<Rightarrow> digest_cfg \<Rightarrow> recv_state \<Rightarrow> (net_error + byte list) option \<times> recv_state" where
  "recv_message max_tx dg s = recv_loop max_tx dg (rv_rx s) (rv_io s)"

section \<open>A server's loop over one connection\<close>

text \<open>
  What a handler does with one message: send a reply, reset the connection, or bring the process
  down. The loop runs until the connection ends and returns the replies in order, the state, and
  the completions that are left. Why it cannot run forever on a finite stream is proved below.
\<close>

datatype 's handled = Reply "byte list" 's | Reset 's | Crashed 's

datatype serve_end = Conn_waiting | Conn_over | Proc_dead

text \<open>The bytes that a list of completions delivers.\<close>

fun rx_bytes :: "io_result \<Rightarrow> byte list" where
  "rx_bytes (Rx_data bs) = bs"
| "rx_bytes _ = []"

definition stream_of :: "recv_state \<Rightarrow> byte list" where
  "stream_of s = rv_rx s @ concat (map rx_bytes (rv_io s))"

lemma next_message_split:
  assumes "next_message max_tx dg rx = Some (Inr (m, rest))"
  shows "rx = m @ rest" "8 \<le> length m"
proof -
  obtain p where p: "parse_message rx max_tx dg = Inr p" "m = take (ms_total p) rx" "rest = drop (ms_total p) rx"
    using assms by (auto simp: next_message_def split: sum.splits if_splits)
  then show "rx = m @ rest" by simp
  have "8 \<le> ms_total p" "ms_total p \<le> length rx"
    using p(1) by (auto simp: parse_message_def Let_def split: if_splits option.splits)
  then show "8 \<le> length m" using p by simp
qed

lemma recv_loop_split:
  "fst (recv_loop max_tx dg rx io) = Some (Inr m) \<Longrightarrow>
     rx @ concat (map rx_bytes io) = m @ stream_of (snd (recv_loop max_tx dg rx io)) \<and> 8 \<le> length m"
proof (induction max_tx dg rx io rule: recv_loop.induct)
  case (1 max_tx dg rx io)
  show ?case
  proof (cases "next_message max_tx dg rx")
    case None
    with 1 show ?thesis
      by (subst (asm) (2) recv_loop.simps, subst recv_loop.simps) (auto split: list.splits io_result.splits)
  next
    case (Some r)
    with 1(2) show ?thesis
      by (subst (asm) recv_loop.simps, subst recv_loop.simps)
        (auto simp: stream_of_def split: sum.splits dest: next_message_split)
  qed
qed

lemma recv_message_split:
  assumes "recv_message max_tx dg s = (Some (Inr m), s')"
  shows "stream_of s = m @ stream_of s'" "8 \<le> length m"
  using recv_loop_split [of max_tx dg "rv_rx s" "rv_io s" m] assms
  by (simp_all add: recv_message_def stream_of_def)

lemma recv_message_shrinks:
  "recv_message max_tx dg s = (Some (Inr m), s') \<Longrightarrow> length (stream_of s') < length (stream_of s)"
  using recv_message_split [of max_tx dg s m s'] by auto

function serve_loop ::
  "32 word \<Rightarrow> (message \<Rightarrow> 's \<Rightarrow> 's handled) \<Rightarrow> 's \<Rightarrow> recv_state \<Rightarrow> byte list list \<times> 's \<times> serve_end" where
  "serve_loop max_tx handle s rv =
     (case recv_message max_tx no_digest rv of
        (None, rv') \<Rightarrow> ([], s, Conn_waiting)
      | (Some (Inl e), rv') \<Rightarrow> ([], s, Conn_over)
      | (Some (Inr m), rv') \<Rightarrow>
          (case parse_message m max_tx no_digest of
             Inl e \<Rightarrow> ([], s, Conn_over)
           | Inr req \<Rightarrow>
               (case handle req s of
                  Reset s' \<Rightarrow> ([], s', Conn_over)
                | Crashed s' \<Rightarrow> ([], s', Proc_dead)
                | Reply out s' \<Rightarrow>
                    (let (outs, s2, fin) = serve_loop max_tx handle s' rv' in (out # outs, s2, fin)))))"
  by pat_completeness auto
termination
  by (relation "measure (\<lambda>(max_tx, handle, s, rv). length (stream_of rv))")
    (auto dest: recv_message_shrinks [OF sym])

declare serve_loop.simps [simp del]

section \<open>What leaves the connection is what was given to it\<close>

lemma send_all_prefix: "\<exists>rest. data = snd (send_all data ns) @ rest"
proof (induction data ns rule: send_all.induct)
  case (2 data n ns)
  show ?case
  proof (cases "data = [] \<or> n \<le> 0")
    case False
    with 2 obtain rest where "drop (nat n) data = snd (send_all (drop (nat n) data) ns) @ rest" by blast
    then have "data = take (nat n) data @ snd (send_all (drop (nat n) data) ns) @ rest"
      by (metis append_take_drop_id)
    then show ?thesis using False by auto
  qed auto
qed simp

lemma send_all_sent: "fst (send_all data ns) = Some True \<Longrightarrow> snd (send_all data ns) = data"
  by (induction data ns rule: send_all.induct) (auto split: if_splits)

lemma send_all_enough:
  assumes "\<forall>n \<in> set ns. 0 < n" and "length data \<le> length ns"
  shows "send_all data ns = (Some True, data)"
  using assms
proof (induction data ns rule: send_all.induct)
  case (2 data n ns)
  have n: "0 < nat n" using 2(3) by simp
  have "length (drop (nat n) data) \<le> length ns" using 2(4) n unfolding length_drop list.size by linarith
  then show ?case using 2 n by auto
qed simp

section \<open>Messages out of a stream\<close>

lemma next_message_frame:
  "frame_ok opc oh body max_tx \<Longrightarrow>
     next_message max_tx dg (frame_message [] opc st rid oh body dg @ s) = Some (Inr (frame_message [] opc st rid oh body dg, s))"
  by (simp add: next_message_def parse_frame)

lemma next_message_prefix:
  assumes "frame_ok opc oh body max_tx" and "rx @ more_bytes = frame_message [] opc st rid oh body dg" and "more_bytes \<noteq> []"
  shows "next_message max_tx dg rx = None"
proof -
  have "rx = take (length rx) (frame_message [] opc st rid oh body dg)" using assms(2) by (metis append_eq_conv_conj)
  moreover have "length rx < length (frame_message [] opc st rid oh body dg)"
    using arg_cong [OF assms(2), of length] assms(3) by (cases more_bytes) simp_all
  ultimately show ?thesis
    using parse_frame_prefix [OF assms(1), of "length rx" st rid dg] by (simp add: next_message_def)
qed

text \<open>However the stream is cut into completions, the receive loop returns the first frame and keeps the rest.\<close>

lemma recv_loop_frame:
  assumes ok: "frame_ok opc oh body max_tx" and f: "f = frame_message [] opc st rid oh body dg"
  shows "rx @ concat cs = f @ rest \<Longrightarrow>
     \<exists>rx' cs'. recv_loop max_tx dg rx (map Rx_data cs @ io) = (Some (Inr f), \<lparr>rv_rx = rx', rv_io = map Rx_data cs' @ io\<rparr>) \<and>
               rx' @ concat cs' = rest \<and> set cs' \<subseteq> set cs"
proof (induction cs arbitrary: rx)
  case Nil
  then show ?case by (intro exI [of _ rest] exI [of _ "[]"]) (simp add: recv_loop.simps f next_message_frame [OF ok])
next
  case (Cons c cs)
  show ?case
  proof (cases "length f \<le> length rx")
    case True
    then have "rx = f @ drop (length f) rx" using Cons.prems by (metis append_eq_append_conv_if append_take_drop_id)
    then obtain s where s: "rx = f @ s" by blast
    then have "s @ concat (c # cs) = rest" using Cons.prems by simp
    then show ?thesis
      by (intro exI [of _ s] exI [of _ "c # cs"]) (simp add: recv_loop.simps s f next_message_frame [OF ok])
  next
    case False
    then have "rx @ drop (length rx) f = f" "drop (length rx) f \<noteq> []"
      using Cons.prems by (auto simp add: append_eq_append_conv2)
    then have "next_message max_tx dg rx = None" using next_message_prefix [OF ok] f by blast
    then have "recv_loop max_tx dg rx (map Rx_data (c # cs) @ io) = recv_loop max_tx dg (rx @ c) (map Rx_data cs @ io)"
      by (subst recv_loop.simps) simp
    then show ?thesis using Cons.IH [of "rx @ c"] Cons.prems by auto
  qed
qed

section \<open>The loop over messages that the loop over bytes refines\<close>

record frame =
  fr_op :: wire_op
  fr_status :: byte
  fr_rid :: "16 word"
  fr_hdr :: "byte list"
  fr_body :: "byte list"

definition frame_bytes :: "frame \<Rightarrow> byte list" where
  "frame_bytes f = frame_message [] (fr_op f) (fr_status f) (fr_rid f) (fr_hdr f) (fr_body f) no_digest"

definition frame_fits :: "32 word \<Rightarrow> frame \<Rightarrow> bool" where
  "frame_fits max_tx f \<longleftrightarrow> frame_ok (fr_op f) (fr_hdr f) (fr_body f) max_tx"

definition frame_msg :: "frame \<Rightarrow> message" where
  "frame_msg f = \<lparr>ms_hdr = frame_hdr (fr_op f) (fr_status f) (fr_rid f) (fr_body f), ms_op_header = fr_hdr f,
     ms_body = fr_body f, ms_total = length (frame_bytes f)\<rparr>"

fun handle_all :: "(message \<Rightarrow> 's \<Rightarrow> 's handled) \<Rightarrow> 's \<Rightarrow> message list \<Rightarrow> byte list list \<times> 's \<times> serve_end" where
  "handle_all handle s [] = ([], s, Conn_waiting)"
| "handle_all handle s (m # ms) =
     (case handle m s of
        Reset s' \<Rightarrow> ([], s', Conn_over)
      | Crashed s' \<Rightarrow> ([], s', Proc_dead)
      | Reply out s' \<Rightarrow> (let (outs, s2, fin) = handle_all handle s' ms in (out # outs, s2, fin)))"

lemma parse_frame_bytes: "frame_fits max_tx f \<Longrightarrow> parse_message (frame_bytes f) max_tx no_digest = Inr (frame_msg f)"
  using parse_frame [of "fr_op f" "fr_hdr f" "fr_body f" max_tx "fr_status f" "fr_rid f" no_digest "[]"]
  by (simp add: frame_fits_def frame_bytes_def frame_msg_def)

lemma recv_message_frame:
  assumes "frame_fits max_tx f" and "rx @ concat cs = frame_bytes f @ rest"
  obtains rx' cs' where "recv_message max_tx no_digest \<lparr>rv_rx = rx, rv_io = map Rx_data cs @ io\<rparr> =
      (Some (Inr (frame_bytes f)), \<lparr>rv_rx = rx', rv_io = map Rx_data cs' @ io\<rparr>)" "rx' @ concat cs' = rest" "set cs' \<subseteq> set cs"
  using recv_loop_frame [OF assms(1) [unfolded frame_fits_def] frame_bytes_def assms(2), of io] that
  by (auto simp: recv_message_def)

lemma recv_loop_silent:
  "rx @ concat cs = [] \<Longrightarrow> fst (recv_loop max_tx dg rx (map Rx_data cs)) = None"
proof (induction cs arbitrary: rx)
  case Nil
  then show ?case by (simp add: recv_loop.simps next_message_def parse_message_def)
next
  case (Cons c cs)
  then show ?case by (subst recv_loop.simps) (simp add: next_message_def parse_message_def)
qed

lemma serve_loop_frames:
  "\<forall>f \<in> set fs. frame_fits max_tx f \<Longrightarrow> rx @ concat cs = concat (map frame_bytes fs) \<Longrightarrow>
     serve_loop max_tx handle s \<lparr>rv_rx = rx, rv_io = map Rx_data cs\<rparr> = handle_all handle s (map frame_msg fs)"
proof (induction fs arbitrary: s rx cs)
  case Nil
  then have "fst (recv_message max_tx no_digest \<lparr>rv_rx = rx, rv_io = map Rx_data cs\<rparr>) = None"
    using recv_loop_silent [of rx cs] by (simp add: recv_message_def)
  then show ?case by (subst serve_loop.simps) (auto split: prod.splits option.splits)
next
  case (Cons f fs)
  have fits: "frame_fits max_tx f" using Cons.prems(1) by simp
  have "rx @ concat cs = frame_bytes f @ concat (map frame_bytes fs)" using Cons.prems(2) by simp
  then obtain rx' cs' where r: "recv_message max_tx no_digest \<lparr>rv_rx = rx, rv_io = map Rx_data cs @ []\<rparr> =
      (Some (Inr (frame_bytes f)), \<lparr>rv_rx = rx', rv_io = map Rx_data cs' @ []\<rparr>)" "rx' @ concat cs' = concat (map frame_bytes fs)"
    by (rule recv_message_frame [OF fits])
  then show ?case
    using Cons.IH [of rx' cs'] Cons.prems(1)
    by (subst serve_loop.simps) (simp add: parse_frame_bytes [OF fits] split: handled.splits)
qed

text \<open>Completions that deliver exactly the bytes \<open>bs\<close>, in pieces of any size.\<close>

definition carries :: "byte list \<Rightarrow> io_result list \<Rightarrow> bool" where
  "carries bs io \<longleftrightarrow> concat (map rx_bytes io) = bs \<and> list_all (\<lambda>x. rx_bytes x \<noteq> []) io"

lemma carries_chunks:
  assumes "carries bs io"
  obtains cs where "io = map Rx_data cs" "concat cs = bs" "[] \<notin> set cs"
proof -
  have "rx_bytes x \<noteq> [] \<Longrightarrow> x = Rx_data (rx_bytes x)" for x by (cases x) simp_all
  then have "\<forall>x \<in> set io. x = Rx_data (rx_bytes x)"
    using assms unfolding carries_def list_all_iff by blast
  then have "io = map Rx_data (map rx_bytes io)" by (simp add: map_idI)
  moreover have "concat (map rx_bytes io) = bs" "[] \<notin> set (map rx_bytes io)"
    using assms by (auto simp: carries_def list_all_iff)
  ultimately show thesis by (rule that)
qed

lemma recv_message_carried:
  assumes "frame_fits max_tx f" and "carries (frame_bytes f) io"
  shows "recv_message max_tx no_digest \<lparr>rv_rx = [], rv_io = io\<rparr> = (Some (Inr (frame_bytes f)), \<lparr>rv_rx = [], rv_io = []\<rparr>)"
proof -
  obtain cs where cs: "io = map Rx_data cs" "concat cs = frame_bytes f" "[] \<notin> set cs"
    using carries_chunks [OF assms(2)] by blast
  have "[] @ concat cs = frame_bytes f @ []" using cs(2) by simp
  then obtain rx' cs' where r: "recv_message max_tx no_digest \<lparr>rv_rx = [], rv_io = map Rx_data cs @ []\<rparr> =
      (Some (Inr (frame_bytes f)), \<lparr>rv_rx = rx', rv_io = map Rx_data cs' @ []\<rparr>)" "rx' @ concat cs' = []" "set cs' \<subseteq> set cs"
    by (rule recv_message_frame [OF assms(1)])
  have "cs' = []" using r(2,3) cs(3) by (cases cs') auto
  with r cs(1) show ?thesis by simp
qed

lemma serve_loop_carried:
  assumes "\<forall>f \<in> set fs. frame_fits max_tx f" and "carries (concat (map frame_bytes fs)) io"
  shows "serve_loop max_tx handle s \<lparr>rv_rx = [], rv_io = io\<rparr> = handle_all handle s (map frame_msg fs)"
proof -
  obtain cs where "io = map Rx_data cs" "concat cs = concat (map frame_bytes fs)"
    using carries_chunks [OF assms(2)] by blast
  then show ?thesis using serve_loop_frames [OF assms(1), of "[]" cs] by simp
qed

lemma handle_all_append:
  "handle_all handle s xs = (outs, s1, Conn_waiting) \<Longrightarrow> handle_all handle s1 ys = (outs2, s2, fin) \<Longrightarrow>
     handle_all handle s (xs @ ys) = (outs @ outs2, s2, fin)"
  by (induction xs arbitrary: s outs) (auto split: handled.splits prod.splits)

section \<open>The contract of a server\<close>

text \<open>
  What the loop and its clients rely on of a server: handling a message never changes the bound on
  its frames, so a client may go on sending after any reply.
\<close>

locale frame_server =
  fixes bound :: "'s \<Rightarrow> 32 word" and handle :: "message \<Rightarrow> 's \<Rightarrow> 's handled"
  assumes keeps_bound: "handle m s = Reply out s' \<Longrightarrow> bound s' = bound s"
begin

lemma serve_one:
  assumes "frame_fits (bound s) f" and "carries (frame_bytes f) io" and "handle (frame_msg f) s = Reply out s'"
  shows "serve_loop (bound s) handle s \<lparr>rv_rx = [], rv_io = io\<rparr> = ([out], s', Conn_waiting)"
  using serve_loop_carried [of "[f]" "bound s" io handle s] assms by simp

lemma bound_after: "handle_all handle s ms = (outs, s', Conn_waiting) \<Longrightarrow> bound s' = bound s"
proof (induction ms arbitrary: s outs)
  case (Cons m ms)
  then show ?case using keeps_bound by (fastforce split: handled.splits prod.splits)
qed simp

text \<open>A session served in two bursts is the session served in one.\<close>

lemma serve_bursts:
  assumes fits: "\<forall>f \<in> set fs. frame_fits (bound s) f" "\<forall>f \<in> set gs. frame_fits (bound s) f"
    and io: "carries (concat (map frame_bytes fs)) io1" "carries (concat (map frame_bytes gs)) io2"
    and first: "serve_loop (bound s) handle s \<lparr>rv_rx = [], rv_io = io1\<rparr> = (outs1, s1, Conn_waiting)"
    and then_: "serve_loop (bound s1) handle s1 \<lparr>rv_rx = [], rv_io = io2\<rparr> = (outs2, s2, fin)"
  shows "serve_loop (bound s) handle s \<lparr>rv_rx = [], rv_io = io1 @ io2\<rparr> = (outs1 @ outs2, s2, fin)"
proof -
  have a: "handle_all handle s (map frame_msg fs) = (outs1, s1, Conn_waiting)"
    using first serve_loop_carried [OF fits(1) io(1), of handle s] by simp
  have "handle_all handle s1 (map frame_msg gs) = (outs2, s2, fin)"
    using then_ serve_loop_carried [of gs "bound s1" io2 handle s1] fits(2) io(2) bound_after [OF a] by simp
  from handle_all_append [OF a this] have "handle_all handle s (map frame_msg (fs @ gs)) = (outs1 @ outs2, s2, fin)" by simp
  moreover have "carries (concat (map frame_bytes (fs @ gs))) (io1 @ io2)" using io by (simp add: carries_def)
  moreover have "\<forall>f \<in> set (fs @ gs). frame_fits (bound s) f" using fits by auto
  ultimately show ?thesis using serve_loop_carried [of "fs @ gs" "bound s" "io1 @ io2" handle s] by simp
qed

end

end
