(* ===== verification/PeerCodec.thy ===== *)
theory PeerCodec
  imports Wire
begin

text \<open>
  The replica-to-replica codec (\<open>include/craft/peer.hpp\<close>, \<open>src/peer_codec.cpp\<close>): flat byte
  buffers for the verbs \<open>get_rs_commit_lsn\<close> and \<open>fetch_data\<close>. The packed structs private to
  \<open>peer_codec.cpp\<close> have the same fields at the same offsets as the ones of \<open>wire.hpp\<close>
  (\<open>get_rs_commit_lsn_req_wire\<close>, \<open>lsn_pair_wire\<close>, \<open>fetch_req_hdr\<close>, \<open>fetch_rsp_hdr\<close> and
  \<open>slot_desc\<close>), so their records are shared. Decoded slots own their payload here; the
  source borrows it from the buffer.
\<close>

section \<open>Journal slots and errors\<close>

record JournalSlot =
  js_lsn :: int
  js_is_empty :: bool
  js_all_zeros :: bool
  js_lba :: nat
  js_len :: nat
  js_data :: sg_list

datatype decode_error = truncated | malformed

record peer_lsn_req =
  pq_term :: nat
  pq_is_login :: bool

section \<open>The verb get_rs_commit_lsn\<close>

definition encode_get_rs_commit_lsn_req :: "nat \<Rightarrow> bool \<Rightarrow> byte list" where
  "encode_get_rs_commit_lsn_req trm is_login =
     put_get_rs_commit_lsn_req
       \<lparr>gq_term = word_of_nat trm, gq_is_login = (if is_login then 1 else 0), gq_reserved = replicate 7 0\<rparr>"

definition decode_get_rs_commit_lsn_req :: "byte list \<Rightarrow> decode_error + peer_lsn_req" where
  "decode_get_rs_commit_lsn_req bytes =
     (if length bytes < 16 then Inl truncated
      else let w = get_get_rs_commit_lsn_req bytes
           in Inr \<lparr>pq_term = unat (gq_term w), pq_is_login = (gq_is_login w \<noteq> 0)\<rparr>)"

definition encode_get_rs_commit_lsn_rsp :: "lsn_pair \<Rightarrow> byte list" where
  "encode_get_rs_commit_lsn_rsp lsns =
     put_get_rs_commit_lsn_rsp
       \<lparr>gp_commit_lsn = word_of_int (lp_commit_lsn lsns),
        gp_last_append_lsn = word_of_int (lp_last_append_lsn lsns)\<rparr>"

definition decode_get_rs_commit_lsn_rsp :: "byte list \<Rightarrow> decode_error + lsn_pair" where
  "decode_get_rs_commit_lsn_rsp bytes =
     (if length bytes < 16 then Inl truncated
      else let w = get_get_rs_commit_lsn_rsp bytes
           in Inr \<lparr>lp_commit_lsn = sint (gp_commit_lsn w),
                   lp_last_append_lsn = sint (gp_last_append_lsn w)\<rparr>)"

section \<open>The verb fetch_data\<close>

definition encode_fetch_data_req :: "int list \<Rightarrow> byte list" where
  "encode_fetch_data_req lsns =
     put_fetch_data_req \<lparr>fq_lsn_count = word_of_nat (length lsns), fq_reserved = 0\<rparr> @
     concat (map (\<lambda>i. put_u64 (word_of_int i)) lsns)"

definition decode_fetch_data_req :: "byte list \<Rightarrow> decode_error + int list" where
  "decode_fetch_data_req bytes =
     (if length bytes < 8 then Inl truncated
      else let count = unat (fq_lsn_count (get_fetch_data_req bytes)) in
        if length bytes < 8 + count * 8 then Inl truncated
        else Inr (decode_n (\<lambda>s. sint (u64_at 0 s)) 8 count (drop 8 bytes)))"

definition slot_payload :: "JournalSlot \<Rightarrow> byte list list" where
  "slot_payload s = (if \<not> js_is_empty s \<and> \<not> js_all_zeros s then sg_iovs (js_data s) else [])"

definition slot_desc_of :: "JournalSlot \<Rightarrow> fetch_slot_desc" where
  "slot_desc_of s =
     \<lparr>fd_lsn = word_of_int (js_lsn s), fd_lba = word_of_nat (js_lba s), fd_len = word_of_nat (js_len s),
      fd_byte_len = word_of_nat (sum_list (map length (slot_payload s))),
      fd_is_empty = (if js_is_empty s then 1 else 0), fd_all_zeros = (if js_all_zeros s then 1 else 0),
      fd_reserved = [0, 0]\<rparr>"

record fetch_data_rsp_encoded =
  fe_header :: "byte list"
  fe_data_blobs :: "byte list list"

text \<open>A blob's size is a \<open>uint32_t\<close>, so a longer buffer is cut.\<close>

definition io_blob :: "byte list \<Rightarrow> byte list" where
  "io_blob bs = take (u32 (length bs)) bs"

definition encode_fetch_data_rsp :: "JournalSlot list \<Rightarrow> fetch_data_rsp_encoded" where
  "encode_fetch_data_rsp slots =
     \<lparr>fe_header = put_fetch_data_rsp \<lparr>fp_slot_count = word_of_nat (length slots), fp_reserved = 0\<rparr> @
                  concat (map (\<lambda>s. put_fetch_slot_desc (slot_desc_of s)) slots),
      fe_data_blobs = concat (map (\<lambda>s. map io_blob (slot_payload s)) slots)\<rparr>"

definition fetch_blobs :: "fetch_data_rsp_encoded \<Rightarrow> byte list list" where
  "fetch_blobs e = io_blob (fe_header e) # fe_data_blobs e"

text \<open>The loop over the \<open>n\<close> descriptors from index \<open>i\<close> on, with the data cursor.\<close>

fun decode_slots :: "byte list \<Rightarrow> nat \<Rightarrow> nat \<Rightarrow> nat \<Rightarrow> decode_error + JournalSlot list" where
  "decode_slots base i 0 data_offset = Inr []"
| "decode_slots base i (Suc n) data_offset =
     (let d = get_fetch_slot_desc (drop (8 + i * 32) base);
          blen = unat (fd_byte_len d) in
      if 0 < blen \<and> length base - data_offset < blen then Inl malformed
      else let s = \<lparr>js_lsn = sint (fd_lsn d), js_is_empty = (fd_is_empty d \<noteq> 0),
                    js_all_zeros = (fd_all_zeros d \<noteq> 0), js_lba = unat (fd_lba d),
                    js_len = unat (fd_len d),
                    js_data = (if 0 < blen
                               then \<lparr>sg_size = blen, sg_iovs = [bytes_at data_offset blen base]\<rparr>
                               else \<lparr>sg_size = 0, sg_iovs = []\<rparr>)\<rparr>
           in (case decode_slots base (Suc i) n (data_offset + blen) of
                 Inl e \<Rightarrow> Inl e
               | Inr ss \<Rightarrow> Inr (s # ss)))"

definition decode_fetch_data_rsp :: "byte list \<Rightarrow> decode_error + JournalSlot list" where
  "decode_fetch_data_rsp base =
     (if length base < 8 then Inl truncated
      else let n = unat (fp_slot_count (get_fetch_data_rsp base)) in
        if length base < 8 + n * 32 then Inl truncated
        else decode_slots base 0 n (8 + n * 32))"

section \<open>Specification vocabulary\<close>

definition i64_ok :: "int \<Rightarrow> bool" where
  "i64_ok i \<longleftrightarrow> - (2 ^ 63) \<le> i \<and> i < 2 ^ 63"

definition slot_ok :: "JournalSlot \<Rightarrow> bool" where
  "slot_ok s \<longleftrightarrow> i64_ok (js_lsn s) \<and> js_lba s < 2 ^ 64 \<and> js_len s < 2 ^ 32 \<and>
     (\<forall>iov \<in> set (slot_payload s). length iov < 2 ^ 32) \<and>
     sum_list (map length (slot_payload s)) < 2 ^ 64"

text \<open>What a peer gets: the payload in one buffer, and none for an Empty or zero slot.\<close>

definition norm_slot :: "JournalSlot \<Rightarrow> JournalSlot" where
  "norm_slot s = s\<lparr>js_data := (let p = concat (slot_payload s) in
     \<lparr>sg_size = length p, sg_iovs = (if p = [] then [] else [p])\<rparr>)\<rparr>"

section \<open>Lemmas\<close>

lemma sint_word_of_int_i64: "i64_ok i \<Longrightarrow> sint (word_of_int i :: 64 word) = i"
  by (simp add: i64_ok_def int_word_sint)

lemma io_blob_id: "length bs < 2 ^ 32 \<Longrightarrow> io_blob bs = bs"
  by (simp add: io_blob_def)

lemma fetch_req_roundtrip:
  assumes "\<forall>i \<in> set lsns. i64_ok i" and "length lsns < 2 ^ 32"
  shows "decode_fetch_data_req (encode_fetch_data_req lsns @ rest) = Inr lsns"
proof -
  let ?h = "put_fetch_data_req \<lparr>fq_lsn_count = word_of_nat (length lsns), fq_reserved = 0\<rparr>"
  let ?arr = "concat (map (\<lambda>i. put_u64 (word_of_int i)) lsns)"
  have ok: "\<forall>i \<in> set lsns. - (2 ^ 63) \<le> i \<and> i < 2 ^ 63"
    using assms(1) by (simp add: i64_ok_def)
  note arr = lsn_field.decode_array [OF ok, of rest] lsn_field.length_array [OF ok]
  have len: "length ?h = 8" by (simp add: fetch_data_req.length_put)
  show ?thesis
    using assms(2) arr len
    by (simp add: decode_fetch_data_req_def encode_fetch_data_req_def fetch_data_req.get_put unat_of_nat)
qed

lemma wf_slot_desc_of [simp]: "wf_fetch_slot_desc (slot_desc_of s)"
  by (simp add: wf_fetch_slot_desc_def slot_desc_of_def)

lemma length_descs: "length (concat (map (\<lambda>s. put_fetch_slot_desc (slot_desc_of s)) ss)) = length ss * 32"
  by (induction ss) (simp_all add: fetch_slot_desc.length_put)

lemma length_concat_sum: "length (concat xss) = sum_list (map length xss)"
  by (simp add: length_concat)

lemma decode_slots_run:
  assumes "\<forall>s \<in> set ss. slot_ok s"
    and "length pre = 8 + i * 32"
    and "length mid = off - (8 + i * 32 + length ss * 32)" and "8 + i * 32 + length ss * 32 \<le> off"
  shows "decode_slots (pre @ concat (map (\<lambda>s. put_fetch_slot_desc (slot_desc_of s)) ss) @ mid @
           concat (map (\<lambda>s. concat (slot_payload s)) ss) @ rest) i (length ss) off = Inr (map norm_slot ss)"
  using assms
proof (induction ss arbitrary: pre i mid off)
  case Nil
  show ?case by simp
next
  case (Cons s ss)
  let ?descs = "concat (map (\<lambda>s. put_fetch_slot_desc (slot_desc_of s)) ss)"
  let ?pays = "concat (map (\<lambda>s. concat (slot_payload s)) ss)"
  let ?d = "put_fetch_slot_desc (slot_desc_of s)"
  let ?p = "concat (slot_payload s)"
  let ?base = "pre @ ?d @ ?descs @ mid @ ?p @ ?pays @ rest"
  have ok: "slot_ok s" and oks: "\<forall>s \<in> set ss. slot_ok s" using Cons.prems(1) by simp_all
  have ld: "length ?d = 32" by (simp add: fetch_slot_desc.length_put)
  have descs: "length ?descs = length ss * 32" by (rule length_descs)
  have dg: "get_fetch_slot_desc (drop (8 + i * 32) ?base) = slot_desc_of s"
    using Cons.prems(2) by (simp add: fetch_slot_desc.get_put)
  have blen: "unat (fd_byte_len (slot_desc_of s)) = length ?p"
    using ok by (simp add: slot_desc_of_def slot_ok_def unat_of_nat length_concat_sum)
  have off: "length (pre @ ?d @ ?descs @ mid) = off"
    using Cons.prems(2-4) ld descs by simp
  have pay: "bytes_at off (length ?p) ?base = ?p"
    using bytes_at_skip [of "pre @ ?d @ ?descs @ mid" off "length ?p" "?p @ ?pays @ rest"] off
    by (simp add: bytes_at_here)
  have fits: "\<not> (0 < length ?p \<and> length ?base - off < length ?p)"
    using off by auto
  have IH: "decode_slots ((pre @ ?d) @ ?descs @ (mid @ ?p) @ ?pays @ rest) (Suc i) (length ss) (off + length ?p)
      = Inr (map norm_slot ss)"
  proof (rule Cons.IH [OF oks])
    show "length (pre @ ?d) = 8 + Suc i * 32" using Cons.prems(2) ld by simp
    show "length (mid @ ?p) = off + length ?p - (8 + Suc i * 32 + length ss * 32)"
      "8 + Suc i * 32 + length ss * 32 \<le> off + length ?p"
      using Cons.prems(3,4) by simp_all
  qed
  have s: "\<lparr>js_lsn = sint (fd_lsn (slot_desc_of s)), js_is_empty = (fd_is_empty (slot_desc_of s) \<noteq> 0),
      js_all_zeros = (fd_all_zeros (slot_desc_of s) \<noteq> 0), js_lba = unat (fd_lba (slot_desc_of s)),
      js_len = unat (fd_len (slot_desc_of s)),
      js_data = (if 0 < length ?p then \<lparr>sg_size = length ?p, sg_iovs = [?p]\<rparr> else \<lparr>sg_size = 0, sg_iovs = []\<rparr>)\<rparr>
      = norm_slot s"
    using ok by (auto simp: norm_slot_def slot_desc_of_def slot_ok_def sint_word_of_int_i64 unat_of_nat Let_def)
  show ?case
    using IH fits
    by (simp only: list.map concat.simps list.size add_0_right add_Suc_right decode_slots.simps Let_def
        append_assoc dg blen pay s if_False sum.case)
qed

lemma fetch_rsp_roundtrip:
  assumes "\<forall>s \<in> set ss. slot_ok s" and "8 + length ss * 32 < 2 ^ 32"
  shows "decode_fetch_data_rsp (concat (fetch_blobs (encode_fetch_data_rsp ss)) @ rest) = Inr (map norm_slot ss)"
proof -
  let ?h = "put_fetch_data_rsp \<lparr>fp_slot_count = word_of_nat (length ss), fp_reserved = 0\<rparr>"
  let ?descs = "concat (map (\<lambda>s. put_fetch_slot_desc (slot_desc_of s)) ss)"
  have h: "length ?h = 8" by (simp add: fetch_data_rsp.length_put)
  have "map io_blob (slot_payload s) = slot_payload s" if "slot_ok s" for s
    using that by (auto simp: slot_ok_def map_idI io_blob_id)
  then have pays: "concat (concat (map (\<lambda>s. map io_blob (slot_payload s)) ss)) = concat (map (\<lambda>s. concat (slot_payload s)) ss)"
    using assms(1) by (induction ss) simp_all
  have "length (?h @ ?descs) < 2 ^ 32" using assms(2) h length_descs [of ss] by simp
  then have bytes: "concat (fetch_blobs (encode_fetch_data_rsp ss)) @ rest =
      ?h @ ?descs @ [] @ concat (map (\<lambda>s. concat (slot_payload s)) ss) @ rest"
    by (simp add: fetch_blobs_def encode_fetch_data_rsp_def io_blob_id pays)
  have n: "unat (fp_slot_count (get_fetch_data_rsp (?h @ xs))) = length ss" for xs
    using assms(2) by (simp add: fetch_data_rsp.get_put unat_of_nat)
  show ?thesis
    unfolding bytes
    using decode_slots_run [of ss ?h 0 "[]" "8 + length ss * 32" rest] assms(1) h length_descs [of ss]
    by (simp add: decode_fetch_data_rsp_def n)
qed

section \<open>Properties\<close>

text \<open>C39: Journal slots survive the peer transport: decoding the blobs that encode a list of
  slots gives the slots back, each with its payload gathered into one buffer and with no
  payload for an Empty or zero slot. Slots must fit their wire fields.\<close>

theorem fetch_data_rsp_roundtrip:
  assumes "\<forall>s \<in> set slots. slot_ok s" and "8 + length slots * 32 < 2 ^ 32"
  shows "decode_fetch_data_rsp (concat (fetch_blobs (encode_fetch_data_rsp slots))) = Inr (map norm_slot slots)"
  using fetch_rsp_roundtrip [OF assms, of "[]"] by simp

theorem fetch_data_rsp_roundtrip_witness:
  "decode_fetch_data_rsp (concat (fetch_blobs (encode_fetch_data_rsp
     [\<lparr>js_lsn = 4, js_is_empty = False, js_all_zeros = False, js_lba = 8, js_len = 1,
       js_data = \<lparr>sg_size = 3, sg_iovs = [[1, 2], [3]]\<rparr>\<rparr>,
      \<lparr>js_lsn = 5, js_is_empty = True, js_all_zeros = False, js_lba = 0, js_len = 0,
       js_data = \<lparr>sg_size = 0, sg_iovs = []\<rparr>\<rparr>]))) =
   Inr [\<lparr>js_lsn = 4, js_is_empty = False, js_all_zeros = False, js_lba = 8, js_len = 1,
         js_data = \<lparr>sg_size = 3, sg_iovs = [[1, 2, 3]]\<rparr>\<rparr>,
        \<lparr>js_lsn = 5, js_is_empty = True, js_all_zeros = False, js_lba = 0, js_len = 0,
         js_data = \<lparr>sg_size = 0, sg_iovs = []\<rparr>\<rparr>]"
  using fetch_data_rsp_roundtrip [of
     "[\<lparr>js_lsn = 4, js_is_empty = False, js_all_zeros = False, js_lba = 8, js_len = 1,
        js_data = \<lparr>sg_size = 3, sg_iovs = [[1, 2], [3]]\<rparr>\<rparr>,
       \<lparr>js_lsn = 5, js_is_empty = True, js_all_zeros = False, js_lba = 0, js_len = 0,
        js_data = \<lparr>sg_size = 0, sg_iovs = []\<rparr>\<rparr>]"]
  by (simp add: slot_ok_def i64_ok_def slot_payload_def norm_slot_def)

end
