(* ===== verification/Replica.thy ===== *)
theory Replica
  imports PeerCodec
begin

text \<open>
  One replica of the reference model (\<open>src/mem/replica.hpp\<close>, \<open>src/mem/replica.cpp\<close>): the data
  journal, the block index of the applied prefix, the session fence, and the synchronous
  cores the transports call. The fields of \<open>CraftPartitionState\<close> are fields of the replica
  record. Every method that takes the replica's mutex is one atomic operation.

  The delivery model around the cores (fault snapshots, timers, late arrivals) is in
  \<open>Cluster\<close>.
\<close>

section \<open>State\<close>

record MemJournalSlot =
  sl_term :: nat
  sl_lba :: nat
  sl_len :: nat
  sl_all_zeros :: bool
  sl_is_empty :: bool
  sl_bytes :: "byte list option"

record IndexCell =
  ic_dlsn :: int
  ic_buf :: "byte list option"
  ic_off :: nat

record replica_faults =
  rf_up :: bool
  rf_write_ok :: bool
  rf_delay :: int

record MemCraftReplica =
  rp_ep :: replica_endpoint
  rp_page_size :: nat
  rp_commit_lsn :: int
  rp_last_append_lsn :: int
  rp_client_token :: nat
  rp_term :: nat
  rp_journal :: "(int, MemJournalSlot) omap"
  rp_index :: "(nat, IndexCell) omap"
  rp_faults :: replica_faults
  rp_reads_served :: nat
  rp_keepalives_served :: nat

definition no_faults :: replica_faults where
  "no_faults = \<lparr>rf_up = True, rf_write_ok = True, rf_delay = 0\<rparr>"

definition make_replica :: "replica_endpoint \<Rightarrow> nat \<Rightarrow> MemCraftReplica" where
  "make_replica ep page_size =
     \<lparr>rp_ep = ep, rp_page_size = page_size, rp_commit_lsn = -1, rp_last_append_lsn = -1,
      rp_client_token = 0, rp_term = 0, rp_journal = [], rp_index = [], rp_faults = no_faults,
      rp_reads_served = 0, rp_keepalives_served = 0\<rparr>"

definition peek_lsns :: "MemCraftReplica \<Rightarrow> lsn_pair" where
  "peek_lsns r = \<lparr>lp_commit_lsn = rp_commit_lsn r, lp_last_append_lsn = rp_last_append_lsn r\<rparr>"

section \<open>Fault knobs\<close>

definition set_up :: "bool \<Rightarrow> MemCraftReplica \<Rightarrow> MemCraftReplica" where
  "set_up up r = r\<lparr>rp_faults := (rp_faults r)\<lparr>rf_up := up\<rparr>\<rparr>"

definition set_delay :: "int \<Rightarrow> MemCraftReplica \<Rightarrow> MemCraftReplica" where
  "set_delay d r = r\<lparr>rp_faults := (rp_faults r)\<lparr>rf_delay := (if 0 < d then d else 0)\<rparr>\<rparr>"

definition drop_writes :: "bool \<Rightarrow> MemCraftReplica \<Rightarrow> MemCraftReplica" where
  "drop_writes dropped r = r\<lparr>rp_faults := (rp_faults r)\<lparr>rf_write_ok := \<not> dropped\<rparr>\<rparr>"

definition clear_faults :: "MemCraftReplica \<Rightarrow> MemCraftReplica" where
  "clear_faults r = r\<lparr>rp_faults := no_faults\<rparr>"

section \<open>Applying the journal to the index\<close>

text \<open>\<open>s.lba + i\<close> is a \<open>uint64_t\<close> sum. The loop over \<open>i\<close> is the fold over \<open>[0..<len]\<close>.\<close>

definition apply_slot :: "int \<Rightarrow> MemJournalSlot \<Rightarrow> MemCraftReplica \<Rightarrow> MemCraftReplica" where
  "apply_slot dlsn s r = r\<lparr>rp_index :=
     (if sl_all_zeros s
      then fold (\<lambda>i ix. om_del (u64 (sl_lba s + i)) ix) [0..<sl_len s] (rp_index r)
      else fold (\<lambda>i ix. om_put (u64 (sl_lba s + i))
                   \<lparr>ic_dlsn = dlsn, ic_buf = sl_bytes s, ic_off = i * rp_page_size r\<rparr> ix)
             [0..<sl_len s] (rp_index r))\<rparr>"

lemma apply_slot_commit [simp]: "rp_commit_lsn (apply_slot d s r) = rp_commit_lsn r"
  by (simp add: apply_slot_def)

function apply_up_to :: "int \<Rightarrow> MemCraftReplica \<Rightarrow> MemCraftReplica" where
  "apply_up_to target r =
     (if rp_commit_lsn r + 1 \<le> target then
        (case map_of (rp_journal r) (rp_commit_lsn r + 1) of
           None \<Rightarrow> r
         | Some s \<Rightarrow>
             apply_up_to target
               ((if sl_is_empty s then r else apply_slot (rp_commit_lsn r + 1) s r)
                  \<lparr>rp_commit_lsn := rp_commit_lsn r + 1\<rparr>))
      else r)"
  by auto
termination
  by (relation "measure (\<lambda>(target, r). nat (target - rp_commit_lsn r))") auto

declare apply_up_to.simps [simp del]

section \<open>Reading\<close>

definition covers :: "MemJournalSlot \<Rightarrow> nat \<Rightarrow> bool" where
  "covers s x \<longleftrightarrow> sl_lba s \<le> x \<and> x < u64 (sl_lba s + sl_len s)"

text \<open>The walk down from \<open>upper_bound(H)\<close>; it stops at the applied prefix.\<close>

fun highest_from :: "(int \<times> MemJournalSlot) list \<Rightarrow> int \<Rightarrow> nat \<Rightarrow> MemJournalSlot option" where
  "highest_from [] commit x = None"
| "highest_from (e # es) commit x =
     (if fst e \<le> commit then None
      else if sl_is_empty (snd e) then highest_from es commit x
      else if covers (snd e) x then Some (snd e)
      else highest_from es commit x)"

definition highest_slot_le :: "MemCraftReplica \<Rightarrow> nat \<Rightarrow> int \<Rightarrow> MemJournalSlot option" where
  "highest_slot_le r x H = highest_from (rev (om_upto H (rp_journal r))) (rp_commit_lsn r) x"

definition all_zero :: "byte list \<Rightarrow> bool" where
  "all_zero p \<longleftrightarrow> list_all (\<lambda>b. b = 0) p"

text \<open>One page of a shared buffer. A null buffer is never dereferenced: see \<open>slot_wf\<close>.\<close>

definition page_of :: "nat \<Rightarrow> byte list option \<Rightarrow> nat \<Rightarrow> byte list" where
  "page_of page_size buf off = (case buf of None \<Rightarrow> [] | Some b \<Rightarrow> bytes_at off page_size b)"

text \<open>The winning version of block \<open>x\<close> at horizon \<open>H\<close>: its page, or \<open>None\<close> for a hole.\<close>

definition read_page :: "MemCraftReplica \<Rightarrow> int \<Rightarrow> nat \<Rightarrow> byte list option" where
  "read_page r H x =
     (let page =
        (case highest_slot_le r x H of
           Some s \<Rightarrow> if sl_all_zeros s then None
                     else Some (page_of (rp_page_size r) (sl_bytes s) ((x - sl_lba s) * rp_page_size r))
         | None \<Rightarrow>
             (case map_of (rp_index r) x of
                Some c \<Rightarrow> Some (page_of (rp_page_size r) (ic_buf c) (ic_off c))
              | None \<Rightarrow> None))
      in case page of None \<Rightarrow> None | Some p \<Rightarrow> if all_zero p then None else Some p)"

text \<open>
  The scatter writer: the destination buffers, the current buffer and the offset in it.
  The offset never passes the end of its buffer, which the guard records.
\<close>

type_synonym sg_cursor = "byte list list \<times> nat \<times> nat"

function sg_write :: "byte list \<Rightarrow> sg_cursor \<Rightarrow> sg_cursor" where
  "sg_write src (iovs, idx, off) =
     (if src \<noteq> [] \<and> idx < length iovs \<and> off \<le> length (iovs ! idx) then
        let iov = iovs ! idx;
            to_write = min (length src) (length iov - off);
            iovs' = iovs[idx := take off iov @ take to_write src @ drop (off + to_write) iov] in
        if off + to_write = length iov then sg_write (drop to_write src) (iovs', idx + 1, 0)
        else sg_write (drop to_write src) (iovs', idx, off + to_write)
      else (iovs, idx, off))"
  by pat_completeness auto
termination
  by (relation "measure (\<lambda>(src, iovs, idx, off). length src + (length iovs - idx))")
    (auto simp: Let_def min_def neq_Nil_conv split: if_splits)

declare sg_write.simps [simp del]

definition push_extent :: "nat \<Rightarrow> nat \<Rightarrow> bool \<Rightarrow> io_extent list \<Rightarrow> io_extent list" where
  "push_extent page_size x_addr hole layout =
     (if layout \<noteq> [] \<and> ie_hole (last layout) = hole \<and>
         u64 (ie_addr (last layout) + ie_len (last layout)) = x_addr
      then butlast layout @ [(last layout)\<lparr>ie_len := u64 (ie_len (last layout) + page_size)\<rparr>]
      else layout @ [\<lparr>ie_addr = x_addr, ie_len = page_size, ie_hole = hole\<rparr>])"

definition read_block ::
  "MemCraftReplica \<Rightarrow> int \<Rightarrow> nat \<Rightarrow> nat \<Rightarrow> io_extent list \<times> sg_cursor \<Rightarrow> io_extent list \<times> sg_cursor" where
  "read_block r H lba0 i = (\<lambda>(layout, cur).
     (let x = u64 (lba0 + i);
          page = read_page r H x;
          hole = (page = None);
          cur' = sg_write (case page of None \<Rightarrow> replicate (rp_page_size r) 0 | Some p \<Rightarrow> p) cur
      in (push_extent (rp_page_size r) (u64 (x * rp_page_size r)) hole layout, cur')))"

definition read_range ::
  "MemCraftReplica \<Rightarrow> int \<Rightarrow> nat \<Rightarrow> nat \<Rightarrow> byte list list \<Rightarrow> io_extent list \<times> byte list list" where
  "read_range r H addr len dest =
     (let lba0 = addr div rp_page_size r;
          nblk = u32 (len div rp_page_size r);
          (layout, cur) = fold (read_block r H lba0) [0..<nblk] ([], (dest, 0, 0))
      in (layout, fst cur))"

section \<open>The synchronous cores\<close>

definition misaligned :: "MemCraftReplica \<Rightarrow> nat \<Rightarrow> nat \<Rightarrow> bool" where
  "misaligned r addr len \<longleftrightarrow>
     addr mod rp_page_size r \<noteq> 0 \<or> len mod rp_page_size r \<noteq> 0 \<or> len = 0"

definition do_write ::
  "client_hdr \<Rightarrow> int \<Rightarrow> nat \<Rightarrow> nat \<Rightarrow> byte list option \<Rightarrow> MemCraftReplica
     \<Rightarrow> lsn_pair result \<times> MemCraftReplica" where
  "do_write hdr dlsn addr len bytes r =
     (if misaligned r addr len then (Inl (Errc invalid_argument), r)
      else if (case bytes of None \<Rightarrow> False | Some b \<Rightarrow> length b \<noteq> len) then (Inl (Errc invalid_argument), r)
      else if ch_term hdr \<noteq> rp_term r then (Inl (Craft STALE_TERM), r)
      else if (case map_of (rp_journal r) dlsn of None \<Rightarrow> False | Some s \<Rightarrow> sl_is_empty s)
        then (Inl (Errc invalid_argument), r)
      else let slot = \<lparr>sl_term = ch_term hdr, sl_lba = addr div rp_page_size r,
                       sl_len = u32 (len div rp_page_size r), sl_all_zeros = (bytes = None),
                       sl_is_empty = False, sl_bytes = bytes\<rparr>;
               r1 = r\<lparr>rp_journal := om_put dlsn slot (rp_journal r),
                      rp_last_append_lsn := max (rp_last_append_lsn r) dlsn\<rparr>;
               r2 = apply_up_to (ch_commit_lsn hdr) r1
           in (Inr (peek_lsns r2), r2))"

text \<open>The returned triple is the reply, the caller's buffers afterwards, and the replica.\<close>

definition do_read ::
  "client_hdr \<Rightarrow> int \<Rightarrow> nat \<Rightarrow> nat \<Rightarrow> sg_list \<Rightarrow> MemCraftReplica
     \<Rightarrow> read_result result \<times> byte list list \<times> MemCraftReplica" where
  "do_read hdr read_lsn addr len dest r =
     (if misaligned r addr len then (Inl (Errc invalid_argument), sg_iovs dest, r)
      else if sg_size dest < len then (Inl (Errc invalid_argument), sg_iovs dest, r)
      else if ch_term hdr \<noteq> rp_term r then (Inl (Craft STALE_TERM), sg_iovs dest, r)
      else let r1 = apply_up_to (ch_commit_lsn hdr) r;
               r2 = r1\<lparr>rp_reads_served := rp_reads_served r1 + 1\<rparr>;
               (layout, iovs) = read_range r2 read_lsn addr len (sg_iovs dest)
           in (Inr \<lparr>rr_extents = layout, rr_lsns = peek_lsns r2\<rparr>, iovs, r2))"

definition do_keep_alive ::
  "client_hdr \<Rightarrow> MemCraftReplica \<Rightarrow> lsn_pair result \<times> MemCraftReplica" where
  "do_keep_alive hdr r =
     (if ch_term hdr \<noteq> rp_term r then (Inl (Craft STALE_TERM), r)
      else let r1 = apply_up_to (ch_commit_lsn hdr) (r\<lparr>rp_keepalives_served := rp_keepalives_served r + 1\<rparr>)
           in (Inr (peek_lsns r1), r1))"

text \<open>\<open>net_up\<close> is \<open>None\<close> when the replica has no transport, else what it says of this id.\<close>

definition do_lsns :: "bool option \<Rightarrow> MemCraftReplica \<Rightarrow> lsn_pair result" where
  "do_lsns net_up r = (if net_up = Some False then Inl (Craft REPLICA_DOWN) else Inr (peek_lsns r))"

definition cold_truncate_above :: "int \<Rightarrow> MemCraftReplica \<Rightarrow> MemCraftReplica" where
  "cold_truncate_above rs r = r\<lparr>rp_journal := om_upto rs (rp_journal r),
     rp_last_append_lsn := min (rp_last_append_lsn r) rs\<rparr>"

definition do_truncate :: "int \<Rightarrow> MemCraftReplica \<Rightarrow> MemCraftReplica" where
  "do_truncate lsn r = r\<lparr>rp_journal := om_upto lsn (rp_journal r),
     rp_last_append_lsn := min (rp_last_append_lsn r) lsn\<rparr>"

definition journal_slot_of :: "int \<Rightarrow> MemJournalSlot \<Rightarrow> JournalSlot" where
  "journal_slot_of lsn s =
     \<lparr>js_lsn = lsn, js_is_empty = sl_is_empty s, js_all_zeros = sl_all_zeros s, js_lba = sl_lba s,
      js_len = sl_len s,
      js_data = (case sl_bytes s of
         Some b \<Rightarrow> if \<not> sl_all_zeros s \<and> \<not> sl_is_empty s then \<lparr>sg_size = length b, sg_iovs = [b]\<rparr>
                   else \<lparr>sg_size = 0, sg_iovs = []\<rparr>
       | None \<Rightarrow> \<lparr>sg_size = 0, sg_iovs = []\<rparr>)\<rparr>"

definition do_fetch :: "int list \<Rightarrow> MemCraftReplica \<Rightarrow> JournalSlot list" where
  "do_fetch lsns r = List.map_filter
     (\<lambda>lsn. map_option (journal_slot_of lsn) (map_of (rp_journal r) lsn)) lsns"

definition empty_slot :: "nat \<Rightarrow> MemJournalSlot" where
  "empty_slot trm = \<lparr>sl_term = trm, sl_lba = 0, sl_len = 0, sl_all_zeros = False, sl_is_empty = True,
     sl_bytes = None\<rparr>"

text \<open>One step of the resolution loop at dLSN \<open>d\<close>; the list collects the Empty verdicts.\<close>

definition resolve_local_step ::
  "int \<Rightarrow> int list \<times> MemCraftReplica \<Rightarrow> int list \<times> MemCraftReplica" where
  "resolve_local_step d = (\<lambda>(empties, r).
     (case map_of (rp_journal r) d of
        None \<Rightarrow> (empties @ [d], r\<lparr>rp_journal := om_put d (empty_slot (rp_term r)) (rp_journal r)\<rparr>)
      | Some s \<Rightarrow> if sl_is_empty s then (empties @ [d], r) else (empties, r)))"

definition do_resolve_local ::
  "client_hdr \<Rightarrow> int \<Rightarrow> MemCraftReplica \<Rightarrow> resolution_result result \<times> MemCraftReplica" where
  "do_resolve_local hdr lim r =
     (if ch_term hdr \<noteq> rp_term r then (Inl (Craft STALE_TERM), r)
      else let (empties, r1) = fold resolve_local_step [rp_commit_lsn r + 1..lim] ([], r);
               r2 = r1\<lparr>rp_last_append_lsn := max (rp_last_append_lsn r1) lim\<rparr>
           in (Inr \<lparr>rs_resolved_upto = lim, rs_empty_slots = empties\<rparr>, apply_up_to lim r2))"

section \<open>Cold-path hooks\<close>

definition cold_apply_sync :: "int \<Rightarrow> MemCraftReplica \<Rightarrow> MemCraftReplica" where
  "cold_apply_sync rs r = apply_up_to rs r"

definition cold_apply_login :: "nat \<Rightarrow> nat \<Rightarrow> MemCraftReplica \<Rightarrow> MemCraftReplica" where
  "cold_apply_login token trm r = r\<lparr>rp_client_token := token, rp_term := trm\<rparr>"

definition cold_apply_logout :: "MemCraftReplica \<Rightarrow> MemCraftReplica" where
  "cold_apply_logout r = r\<lparr>rp_client_token := 0, rp_term := 0\<rparr>"

definition peek_slot :: "int \<Rightarrow> MemCraftReplica \<Rightarrow> MemJournalSlot option" where
  "peek_slot dlsn r = map_of (rp_journal r) dlsn"

definition cold_install_slot :: "int \<Rightarrow> MemJournalSlot \<Rightarrow> MemCraftReplica \<Rightarrow> MemCraftReplica" where
  "cold_install_slot dlsn s r =
     (if map_of (rp_journal r) dlsn \<noteq> None then r
      else r\<lparr>rp_journal := om_put dlsn s (rp_journal r),
             rp_last_append_lsn := max (rp_last_append_lsn r) dlsn\<rparr>)"

definition cold_mark_empty :: "int \<Rightarrow> MemCraftReplica \<Rightarrow> MemCraftReplica" where
  "cold_mark_empty dlsn r =
     r\<lparr>rp_journal := om_put dlsn (empty_slot (rp_term r)) (rp_journal r),
       rp_last_append_lsn := max (rp_last_append_lsn r) dlsn\<rparr>"

definition peek_empties :: "int \<Rightarrow> MemCraftReplica \<Rightarrow> int list" where
  "peek_empties lim r =
     map fst (filter (\<lambda>e. sl_is_empty (snd e)) (takeWhile (\<lambda>e. fst e \<le> lim) (rp_journal r)))"

section \<open>Observability\<close>

record replica_stats =
  st_id :: peer_id
  st_addr :: "byte list"
  st_page_size :: nat
  st_commit_lsn :: int
  st_last_append_lsn :: int
  st_term :: nat
  st_client_token :: nat
  st_journal_slots :: nat
  st_journal_first_dlsn :: int
  st_journal_last_dlsn :: int
  st_zero_write_slots :: nat
  st_empty_slots :: nat
  st_journal_data_bytes :: nat
  st_missing_count :: nat
  st_missing_sample :: "int list"
  st_mapped_blocks :: nat

definition k_missing_sample :: nat where
  "k_missing_sample = 16"

text \<open>\<open>for (; expect < bound \<and> size < k_missing_sample; ++expect) push_back(expect)\<close>\<close>

function sample_gap :: "int \<Rightarrow> int \<Rightarrow> int list \<Rightarrow> int list" where
  "sample_gap expect bound sample =
     (if expect < bound \<and> length sample < k_missing_sample
      then sample_gap (expect + 1) bound (sample @ [expect]) else sample)"
  by auto
termination
  by (relation "measure (\<lambda>(expect, bound, sample). nat (bound - expect))") auto

declare sample_gap.simps [simp del]

fun sample_entries :: "(int \<times> MemJournalSlot) list \<Rightarrow> int \<Rightarrow> int list \<Rightarrow> int \<times> int list" where
  "sample_entries [] expect sample = (expect, sample)"
| "sample_entries (e # es) expect sample =
     (if length sample < k_missing_sample
      then sample_entries es (fst e + 1) (sample_gap expect (fst e) sample)
      else (expect, sample))"

text \<open>The count and the sample of the Missing dLSNs.\<close>

definition missing :: "MemCraftReplica \<Rightarrow> nat \<times> int list" where
  "missing r =
     (let lo = rp_commit_lsn r + 1; hi = rp_last_append_lsn r in
      if lo \<le> hi then
        let es = filter (\<lambda>e. lo \<le> fst e \<and> fst e \<le> hi) (rp_journal r);
            (expect, sample) = sample_entries es lo []
        in (nat (hi - lo + 1) - length es, sample_gap expect (hi + 1) sample)
      else (0, []))"

definition stats :: "MemCraftReplica \<Rightarrow> replica_stats" where
  "stats r =
     (let j = rp_journal r; data = filter (\<lambda>e. \<not> sl_is_empty (snd e) \<and> \<not> sl_all_zeros (snd e)) j in
      \<lparr>st_id = ep_id (rp_ep r), st_addr = ep_addr (rp_ep r), st_page_size = rp_page_size r,
       st_commit_lsn = rp_commit_lsn r, st_last_append_lsn = rp_last_append_lsn r,
       st_term = rp_term r, st_client_token = rp_client_token r,
       st_journal_slots = length j,
       st_journal_first_dlsn = (if j = [] then -1 else fst (hd j)),
       st_journal_last_dlsn = (if j = [] then -1 else fst (last j)),
       st_zero_write_slots = length (filter (\<lambda>e. \<not> sl_is_empty (snd e) \<and> sl_all_zeros (snd e)) j),
       st_empty_slots = length (filter (\<lambda>e. sl_is_empty (snd e)) j),
       st_journal_data_bytes = fold (\<lambda>e acc. u64 (acc + u64 (sl_len (snd e) * rp_page_size r))) data 0,
       st_missing_count = fst (missing r), st_missing_sample = snd (missing r),
       st_mapped_blocks = length (rp_index r)\<rparr>)"

section \<open>Specification vocabulary\<close>

text \<open>
  The version of block \<open>x\<close> that a reader at horizon \<open>U\<close> must see: the highest non-Empty slot
  at or below \<open>U\<close> that covers it.
\<close>

definition winner_le :: "(int, MemJournalSlot) omap \<Rightarrow> int \<Rightarrow> nat \<Rightarrow> (int \<times> MemJournalSlot) option" where
  "winner_le j U x = find (\<lambda>e. \<not> sl_is_empty (snd e) \<and> covers (snd e) x) (rev (om_upto U j))"

definition block_value :: "nat \<Rightarrow> (int, MemJournalSlot) omap \<Rightarrow> int \<Rightarrow> nat \<Rightarrow> byte list" where
  "block_value ps j U x =
     (case winner_le j U x of
        None \<Rightarrow> replicate ps 0
      | Some (d, s) \<Rightarrow> if sl_all_zeros s then replicate ps 0
                       else page_of ps (sl_bytes s) ((x - sl_lba s) * ps))"

definition slot_wf :: "nat \<Rightarrow> MemJournalSlot \<Rightarrow> bool" where
  "slot_wf ps s \<longleftrightarrow> sl_lba s + sl_len s < 2 ^ 64 \<and>
     (\<not> sl_is_empty s \<and> \<not> sl_all_zeros s \<longrightarrow>
        (case sl_bytes s of None \<Rightarrow> False | Some b \<Rightarrow> sl_len s * ps \<le> length b))"

text \<open>The index is the replay of the journal's committed prefix.\<close>

definition index_view :: "nat \<Rightarrow> (int, MemJournalSlot) omap \<Rightarrow> int \<Rightarrow> nat \<Rightarrow> IndexCell option" where
  "index_view ps j c x =
     (case winner_le j c x of
        None \<Rightarrow> None
      | Some (d, s) \<Rightarrow> if sl_all_zeros s then None
          else Some \<lparr>ic_dlsn = d, ic_buf = sl_bytes s, ic_off = (x - sl_lba s) * ps\<rparr>)"

definition replica_inv :: "MemCraftReplica \<Rightarrow> bool" where
  "replica_inv r \<longleftrightarrow>
     om_ok (rp_journal r) \<and> 2 \<le> rp_page_size r \<and> rp_page_size r < 2 ^ 32 \<and>
     - 1 \<le> rp_commit_lsn r \<and> rp_commit_lsn r \<le> rp_last_append_lsn r \<and>
     (\<forall>d. 0 \<le> d \<and> d \<le> rp_commit_lsn r \<longrightarrow> map_of (rp_journal r) d \<noteq> None) \<and>
     (\<forall>(d, s) \<in> set (rp_journal r). 0 \<le> d \<and> d \<le> rp_last_append_lsn r \<and> slot_wf (rp_page_size r) s) \<and>
     (\<forall>x. map_of (rp_index r) x = index_view (rp_page_size r) (rp_journal r) (rp_commit_lsn r) x)"

text \<open>
  What survives when a dLSN at or below the commit frontier is written or voided: the journal
  stays complete up to the frontier, and an index cell names a version at or below the
  frontier and a whole page inside its buffer. Nothing ties the cell to the slot the journal now
  holds at its dLSN.
\<close>

definition cell_ok :: "nat \<Rightarrow> int \<Rightarrow> IndexCell \<Rightarrow> bool" where
  "cell_ok ps c cell \<longleftrightarrow> 0 \<le> ic_dlsn cell \<and> ic_dlsn cell \<le> c \<and>
     (case ic_buf cell of None \<Rightarrow> False | Some b \<Rightarrow> ic_off cell + ps \<le> length b)"

definition journal_inv :: "MemCraftReplica \<Rightarrow> bool" where
  "journal_inv r \<longleftrightarrow>
     om_ok (rp_journal r) \<and> 2 \<le> rp_page_size r \<and> rp_page_size r < 2 ^ 32 \<and>
     - 1 \<le> rp_commit_lsn r \<and> rp_commit_lsn r \<le> rp_last_append_lsn r \<and>
     (\<forall>d. 0 \<le> d \<and> d \<le> rp_commit_lsn r \<longrightarrow> map_of (rp_journal r) d \<noteq> None) \<and>
     (\<forall>(d, s) \<in> set (rp_journal r). d \<le> rp_last_append_lsn r \<and> slot_wf (rp_page_size r) s) \<and>
     (\<forall>x cell. map_of (rp_index r) x = Some cell \<longrightarrow> cell_ok (rp_page_size r) (rp_commit_lsn r) cell)"

section \<open>The winning version\<close>

lemma om_upto_Suc:
  assumes "om_ok (j :: (int, 'v) omap)"
  shows "om_upto (c + 1) j = om_upto c j @ (case map_of j (c + 1) of None \<Rightarrow> [] | Some s \<Rightarrow> [(c + 1, s)])"
  using assms
proof (induction j)
  case Nil
  show ?case by (simp add: om_upto_def)
next
  case (Cons e j)
  then have ok: "om_ok j" and lt: "\<forall>x \<in> set j. fst e < fst x" by (auto simp: om_ok_def)
  note IH = Cons.IH [OF ok]
  have above: "om_upto c j = []" if "c < fst e"
    using lt that by (fastforce simp: om_upto_def filter_empty_conv)
  have none: "map_of j (c + 1) = None" if "c + 1 \<le> fst e"
    using lt that by (fastforce simp: map_of_eq_None_iff)
  show ?case
  proof (cases "fst e \<le> c")
    case True
    then show ?thesis using IH by (simp add: om_upto_def)
  next
    case False
    then have "om_upto c (e # j) = []" "om_upto (c + 1) j = []"
      using above IH none by (simp_all add: om_upto_def)
    with False none show ?thesis
      by (cases e) (auto simp: om_upto_def)
  qed
qed

lemma winner_le_Suc:
  assumes "om_ok j"
  shows "winner_le j (c + 1) x =
     (case map_of j (c + 1) of
        Some s \<Rightarrow> if \<not> sl_is_empty s \<and> covers s x then Some (c + 1, s) else winner_le j c x
      | None \<Rightarrow> winner_le j c x)"
  by (simp add: winner_le_def om_upto_Suc [OF assms] split: option.split)

lemma winner_leD:
  assumes "winner_le j U x = Some (d, s)"
  shows "(d, s) \<in> set j" "d \<le> U" "\<not> sl_is_empty s" "covers s x"
  using assms by (auto simp: winner_le_def om_upto_def dest!: find_SomeD)

lemma winner_le_split:
  assumes "om_ok j" and "c \<le> U"
  shows "om_upto U j = om_upto c j @ filter (\<lambda>e. c < fst e \<and> fst e \<le> U) j"
  using assms(1)
proof (induction j)
  case Nil
  show ?case by (simp add: om_upto_def)
next
  case (Cons e j)
  then have ok: "om_ok j" and lt: "\<forall>x \<in> set j. fst e < fst x" by (auto simp: om_ok_def)
  show ?case
  proof (cases "fst e \<le> c")
    case True
    then show ?thesis using Cons.IH [OF ok] assms(2) by (auto simp: om_upto_def)
  next
    case False
    then have "om_upto c j = []"
      using lt by (fastforce simp: om_upto_def filter_empty_conv)
    with False show ?thesis using Cons.IH [OF ok] by (simp add: om_upto_def)
  qed
qed

lemma winner_le_mono:
  assumes "om_ok j" and "c \<le> U"
  shows "winner_le j U x =
     (case find (\<lambda>e. \<not> sl_is_empty (snd e) \<and> covers (snd e) x) (rev (filter (\<lambda>e. c < fst e \<and> fst e \<le> U) j)) of
        None \<Rightarrow> winner_le j c x | Some e \<Rightarrow> Some e)"
  unfolding winner_le_def winner_le_split [OF assms] by (simp add: find_append)

lemma winner_le_below:
  assumes "om_ok j" and "c \<le> U"
    and "\<And>d s. winner_le j U x = Some (d, s) \<Longrightarrow> d \<le> c"
  shows "winner_le j U x = winner_le j c x"
proof -
  let ?P = "\<lambda>e. \<not> sl_is_empty (snd e) \<and> covers (snd e) x"
  let ?f = "find ?P (rev (filter (\<lambda>e. c < fst e \<and> fst e \<le> U) j))"
  have "?f = None"
  proof (rule ccontr)
    assume "?f \<noteq> None"
    then obtain d s where f: "?f = Some (d, s)" by auto
    then have "(d, s) \<in> set (rev (filter (\<lambda>e. c < fst e \<and> fst e \<le> U) j))"
      using find_SomeD by fast
    then have "c < d" by auto
    moreover have "winner_le j U x = Some (d, s)"
      using winner_le_mono [OF assms(1,2), of x] f by simp
    ultimately show False using assms(3) by fastforce
  qed
  then show ?thesis using winner_le_mono [OF assms(1,2), of x] by simp
qed

lemma highest_from_find:
  assumes "sorted_wrt (>) (map fst es)"
  shows "highest_from es c x =
     (case find (\<lambda>e. \<not> sl_is_empty (snd e) \<and> covers (snd e) x) es of
        Some (d, s) \<Rightarrow> if c < d then Some s else None | None \<Rightarrow> None)"
  using assms
proof (induction es)
  case Nil
  show ?case by simp
next
  case (Cons e es)
  have low: "d \<le> c" if "fst e \<le> c" "find P es = Some (d, s)" for P d s
  proof -
    have "(d, s) \<in> set es" using that(2) find_SomeD by fast
    with Cons.prems that(1) show ?thesis by fastforce
  qed
  show ?case
  proof (cases "fst e \<le> c")
    case True
    then show ?thesis by (cases e) (auto split: option.split dest: low [OF True])
  next
    case False
    with Cons show ?thesis by (cases e) (auto split: option.split)
  qed
qed

lemma highest_slot_le_winner:
  assumes "om_ok (rp_journal r)"
  shows "highest_slot_le r x H =
     (case winner_le (rp_journal r) H x of
        Some (d, s) \<Rightarrow> if rp_commit_lsn r < d then Some s else None | None \<Rightarrow> None)"
proof -
  have "om_ok (om_upto H (rp_journal r))" using assms by simp
  then have "sorted_wrt (>) (map fst (rev (om_upto H (rp_journal r))))"
    unfolding om_ok_def rev_map [symmetric] sorted_wrt_rev by (simp add: sorted_wrt_iff_nth_less)
  then show ?thesis
    unfolding highest_slot_le_def winner_le_def by (rule highest_from_find)
qed


section \<open>Applying\<close>

lemma fold_om_put:
  "map_of (fold (\<lambda>i ix. om_put (f i) (g i) ix) xs ix0) =
     (map_of ix0) ++ map_of (rev (map (\<lambda>i. (f i, g i)) xs))"
  by (induction xs arbitrary: ix0) simp_all

lemma fold_om_del:
  "map_of (fold (\<lambda>i ix. om_del (f i) ix) xs ix0) x = (if x \<in> f ` set xs then None else map_of ix0 x)"
  by (induction xs arbitrary: ix0) simp_all

lemma covers_wf: "slot_wf ps s \<Longrightarrow> covers s x \<longleftrightarrow> sl_lba s \<le> x \<and> x < sl_lba s + sl_len s"
  by (simp add: covers_def slot_wf_def)

lemma apply_slot_index:
  assumes "slot_wf ps s"
  shows "map_of (rp_index (apply_slot d s r)) x =
     (if covers s x then
        if sl_all_zeros s then None
        else Some \<lparr>ic_dlsn = d, ic_buf = sl_bytes s, ic_off = (x - sl_lba s) * rp_page_size r\<rparr>
      else map_of (rp_index r) x)"
proof -
  let ?f = "\<lambda>i. u64 (sl_lba s + i)"
  let ?g = "\<lambda>i. \<lparr>ic_dlsn = d, ic_buf = sl_bytes s, ic_off = i * rp_page_size r\<rparr>"
  have f: "?f i = sl_lba s + i" if "i < sl_len s" for i
    using assms that by (simp add: slot_wf_def)
  have cov: "covers s x \<longleftrightarrow> x \<in> ?f ` set [0..<sl_len s]"
  proof
    assume "covers s x"
    then have "x - sl_lba s < sl_len s" "x = sl_lba s + (x - sl_lba s)"
      by (auto simp: covers_wf [OF assms])
    then show "x \<in> ?f ` set [0..<sl_len s]" using f by fastforce
  qed (use f in \<open>auto simp: covers_wf [OF assms]\<close>)
  have "map_of (rev (map (\<lambda>i. (?f i, ?g i)) [0..<n])) x =
      (if sl_lba s \<le> x \<and> x < sl_lba s + n then Some (?g (x - sl_lba s)) else None)" if "n \<le> sl_len s" for n
    using that
  proof (induction n)
    case (Suc n)
    then show ?case using f [of n] by (auto simp: less_Suc_eq)
  qed simp
  from this [OF order_refl] show ?thesis
    using cov by (auto simp: apply_slot_def fold_om_put fold_om_del map_add_def covers_wf [OF assms])
qed

lemma apply_slot_frame [simp]:
  "rp_journal (apply_slot d s r) = rp_journal r" "rp_page_size (apply_slot d s r) = rp_page_size r"
  "rp_last_append_lsn (apply_slot d s r) = rp_last_append_lsn r" "rp_term (apply_slot d s r) = rp_term r"
  "rp_client_token (apply_slot d s r) = rp_client_token r" "rp_faults (apply_slot d s r) = rp_faults r"
  "rp_ep (apply_slot d s r) = rp_ep r" "rp_reads_served (apply_slot d s r) = rp_reads_served r"
  "rp_keepalives_served (apply_slot d s r) = rp_keepalives_served r"
  by (simp_all add: apply_slot_def)

lemma apply_up_to_frame [simp]:
  "rp_journal (apply_up_to t r) = rp_journal r \<and> rp_page_size (apply_up_to t r) = rp_page_size r \<and>
   rp_last_append_lsn (apply_up_to t r) = rp_last_append_lsn r \<and> rp_term (apply_up_to t r) = rp_term r \<and>
   rp_client_token (apply_up_to t r) = rp_client_token r \<and> rp_faults (apply_up_to t r) = rp_faults r \<and>
   rp_ep (apply_up_to t r) = rp_ep r"
proof (induction t r rule: apply_up_to.induct)
  case (1 t r)
  then show ?case
    by (subst (1 2 3 4 5 6 7) apply_up_to.simps) (simp split: option.split)
qed

text \<open>The frontier stops exactly at the target or at the first Missing slot.\<close>

lemma apply_up_to_commit:
  "rp_commit_lsn r \<le> rp_commit_lsn (apply_up_to t r) \<and>
   rp_commit_lsn (apply_up_to t r) \<le> max (rp_commit_lsn r) t \<and>
   (\<forall>d. rp_commit_lsn r < d \<and> d \<le> rp_commit_lsn (apply_up_to t r) \<longrightarrow> map_of (rp_journal r) d \<noteq> None) \<and>
   (rp_commit_lsn (apply_up_to t r) < t \<longrightarrow>
      map_of (rp_journal r) (rp_commit_lsn (apply_up_to t r) + 1) = None)"
proof (induction t r rule: apply_up_to.induct)
  case (1 t r)
  show ?case
  proof (cases "rp_commit_lsn r + 1 \<le> t \<and> map_of (rp_journal r) (rp_commit_lsn r + 1) \<noteq> None")
    case True
    then obtain s where s: "map_of (rp_journal r) (rp_commit_lsn r + 1) = Some s" by auto
    let ?r = "(if sl_is_empty s then r else apply_slot (rp_commit_lsn r + 1) s r)\<lparr>rp_commit_lsn := rp_commit_lsn r + 1\<rparr>"
    have step: "apply_up_to t r = apply_up_to t ?r"
      using True s by (subst apply_up_to.simps) simp
    have j: "rp_journal ?r = rp_journal r" "rp_commit_lsn ?r = rp_commit_lsn r + 1" by simp_all
    note IH = 1 [OF conjunct1 [OF True] s, unfolded j]
    have "map_of (rp_journal r) d \<noteq> None"
      if "rp_commit_lsn r < d" "d \<le> rp_commit_lsn (apply_up_to t ?r)" for d
      using that IH s by (cases "d = rp_commit_lsn r + 1") auto
    with IH True show ?thesis unfolding step by auto
  next
    case False
    then have "apply_up_to t r = r"
      by (subst apply_up_to.simps) (auto split: option.split)
    with False show ?thesis by auto
  qed
qed

lemma apply_up_to_complete:
  assumes "\<And>d. rp_commit_lsn r < d \<Longrightarrow> d \<le> t \<Longrightarrow> map_of (rp_journal r) d \<noteq> None"
  shows "rp_commit_lsn (apply_up_to t r) = max (rp_commit_lsn r) t"
proof -
  let ?c = "rp_commit_lsn (apply_up_to t r)"
  have ac: "rp_commit_lsn r \<le> ?c" "?c \<le> max (rp_commit_lsn r) t"
    "?c < t \<Longrightarrow> map_of (rp_journal r) (?c + 1) = None"
    using apply_up_to_commit [of r t] by blast+
  have "\<not> ?c < t" using assms [of "?c + 1"] ac by force
  with ac(1,2) show ?thesis by simp
qed

lemma replica_invD:
  assumes "replica_inv r"
  shows "om_ok (rp_journal r)" "2 \<le> rp_page_size r" "- 1 \<le> rp_commit_lsn r"
    "rp_commit_lsn r \<le> rp_last_append_lsn r"
    "map_of (rp_journal r) d = Some s \<Longrightarrow> 0 \<le> d \<and> d \<le> rp_last_append_lsn r \<and> slot_wf (rp_page_size r) s"
    "0 \<le> d \<Longrightarrow> d \<le> rp_commit_lsn r \<Longrightarrow> map_of (rp_journal r) d \<noteq> None"
    "map_of (rp_index r) x = index_view (rp_page_size r) (rp_journal r) (rp_commit_lsn r) x"
  using assms by (auto simp: replica_inv_def dest: map_of_SomeD)

lemma apply_step_inv:
  assumes inv: "replica_inv r" and s: "map_of (rp_journal r) (rp_commit_lsn r + 1) = Some s"
  shows "replica_inv ((if sl_is_empty s then r else apply_slot (rp_commit_lsn r + 1) s r)
           \<lparr>rp_commit_lsn := rp_commit_lsn r + 1\<rparr>)"
proof -
  let ?r = "(if sl_is_empty s then r else apply_slot (rp_commit_lsn r + 1) s r)\<lparr>rp_commit_lsn := rp_commit_lsn r + 1\<rparr>"
  note ok = replica_invD(1) [OF inv] and wf = replica_invD(5) [OF inv s]
  have "map_of (rp_index ?r) x = index_view (rp_page_size r) (rp_journal r) (rp_commit_lsn r + 1) x" for x
    using replica_invD(7) [OF inv, of x] wf
    by (auto simp: index_view_def winner_le_Suc [OF ok] s apply_slot_index [of "rp_page_size r"] split: option.split)
  moreover have "map_of (rp_journal r) d \<noteq> None" if "0 \<le> d" "d \<le> rp_commit_lsn r + 1" for d
    using that s replica_invD(6) [OF inv, of d] by (cases "d = rp_commit_lsn r + 1") auto
  ultimately show ?thesis
    using inv wf by (simp add: replica_inv_def)
qed

lemma apply_up_to_inv: "replica_inv r \<Longrightarrow> replica_inv (apply_up_to t r)"
proof (induction t r rule: apply_up_to.induct)
  case (1 t r)
  show ?case
    using 1 apply_step_inv [OF \<open>replica_inv r\<close>]
    by (subst apply_up_to.simps) (auto split: option.split)
qed

lemma journal_invD:
  assumes "journal_inv r"
  shows "om_ok (rp_journal r)" "2 \<le> rp_page_size r" "- 1 \<le> rp_commit_lsn r"
    "rp_commit_lsn r \<le> rp_last_append_lsn r"
    "map_of (rp_journal r) d = Some s \<Longrightarrow> d \<le> rp_last_append_lsn r \<and> slot_wf (rp_page_size r) s"
    "0 \<le> d \<Longrightarrow> d \<le> rp_commit_lsn r \<Longrightarrow> map_of (rp_journal r) d \<noteq> None"
    "map_of (rp_index r) x = Some cell \<Longrightarrow> cell_ok (rp_page_size r) (rp_commit_lsn r) cell"
  using assms by (auto simp: journal_inv_def dest: map_of_SomeD)

lemma slot_cell_ok:
  assumes "slot_wf ps s" "\<not> sl_is_empty s" "\<not> sl_all_zeros s" "covers s x" "0 \<le> d" "d \<le> c"
  shows "cell_ok ps c \<lparr>ic_dlsn = d, ic_buf = sl_bytes s, ic_off = (x - sl_lba s) * ps\<rparr>"
proof -
  obtain b where b: "sl_bytes s = Some b" "sl_len s * ps \<le> length b"
    using assms by (auto simp: slot_wf_def split: option.splits)
  have "x - sl_lba s + 1 \<le> sl_len s"
    using assms(4) covers_wf [OF assms(1), of x] by auto
  then have "(x - sl_lba s + 1) * ps \<le> sl_len s * ps" by (rule mult_le_mono1)
  with b assms show ?thesis by (simp add: cell_ok_def algebra_simps)
qed

lemma cell_ok_mono: "cell_ok ps c cell \<Longrightarrow> c \<le> c' \<Longrightarrow> cell_ok ps c' cell"
  by (simp add: cell_ok_def)

lemma inv_journal:
  assumes "replica_inv r"
  shows "journal_inv r"
proof -
  have "cell_ok (rp_page_size r) (rp_commit_lsn r) cell" if "map_of (rp_index r) x = Some cell" for x cell
  proof -
    from that replica_invD(7) [OF assms, of x] obtain d s where
      w: "winner_le (rp_journal r) (rp_commit_lsn r) x = Some (d, s)" "\<not> sl_all_zeros s"
        "cell = \<lparr>ic_dlsn = d, ic_buf = sl_bytes s, ic_off = (x - sl_lba s) * rp_page_size r\<rparr>"
      by (auto simp: index_view_def split: option.splits if_splits)
    note D = winner_leD [OF w(1)]
    have "0 \<le> d" "slot_wf (rp_page_size r) s" using assms D(1) by (auto simp: replica_inv_def)
    with slot_cell_ok [OF _ D(3) w(2) D(4)] D(2) show ?thesis by (simp add: w(3))
  qed
  then show ?thesis using assms by (auto simp: journal_inv_def replica_inv_def)
qed

lemma apply_step_journal:
  assumes inv: "journal_inv r" and s: "map_of (rp_journal r) (rp_commit_lsn r + 1) = Some s"
  shows "journal_inv ((if sl_is_empty s then r else apply_slot (rp_commit_lsn r + 1) s r)
           \<lparr>rp_commit_lsn := rp_commit_lsn r + 1\<rparr>)"
proof -
  let ?r = "(if sl_is_empty s then r else apply_slot (rp_commit_lsn r + 1) s r)\<lparr>rp_commit_lsn := rp_commit_lsn r + 1\<rparr>"
  note wf = journal_invD(5) [OF inv s]
  have "cell_ok (rp_page_size r) (rp_commit_lsn r + 1) cell" if "map_of (rp_index ?r) x = Some cell" for x cell
  proof (cases "\<not> sl_is_empty s \<and> covers s x")
    case True
    with that wf have "\<not> sl_all_zeros s"
      "cell = \<lparr>ic_dlsn = rp_commit_lsn r + 1, ic_buf = sl_bytes s, ic_off = (x - sl_lba s) * rp_page_size r\<rparr>"
      by (auto simp: apply_slot_index [of "rp_page_size r"] split: if_splits)
    with True wf journal_invD(3) [OF inv] show ?thesis by (simp add: slot_cell_ok)
  next
    case False
    with that wf have "map_of (rp_index r) x = Some cell"
      by (auto simp: apply_slot_index [of "rp_page_size r"] split: if_splits)
    from journal_invD(7) [OF inv this] show ?thesis by (rule cell_ok_mono) simp
  qed
  moreover have "map_of (rp_journal r) d \<noteq> None" if "0 \<le> d" "d \<le> rp_commit_lsn r + 1" for d
    using that s journal_invD(6) [OF inv, of d] by (cases "d = rp_commit_lsn r + 1") auto
  ultimately show ?thesis
    using inv wf by (simp add: journal_inv_def)
qed

lemma apply_up_to_journal: "journal_inv r \<Longrightarrow> journal_inv (apply_up_to t r)"
proof (induction t r rule: apply_up_to.induct)
  case (1 t r)
  show ?case
    using 1 apply_step_journal [OF \<open>journal_inv r\<close>]
    by (subst apply_up_to.simps) (auto split: option.split)
qed

section \<open>Reading\<close>

lemma page_of_length:
  assumes "slot_wf ps s" "\<not> sl_is_empty s" "\<not> sl_all_zeros s" "covers s x"
  shows "length (page_of ps (sl_bytes s) ((x - sl_lba s) * ps)) = ps"
proof -
  obtain b where b: "sl_bytes s = Some b" "sl_len s * ps \<le> length b"
    using assms by (auto simp: slot_wf_def split: option.splits)
  have "x - sl_lba s + 1 \<le> sl_len s"
    using assms(4) covers_wf [OF assms(1), of x] by auto
  then have "(x - sl_lba s + 1) * ps \<le> sl_len s * ps" by (rule mult_le_mono1)
  with b show ?thesis by (simp add: page_of_def bytes_at_def algebra_simps)
qed

lemma all_zero_page: "all_zero p \<Longrightarrow> p = replicate (length p) 0"
  by (simp add: all_zero_def list_all_iff replicate_length_same)

lemma block_value_length:
  assumes "replica_inv r"
  shows "length (block_value (rp_page_size r) (rp_journal r) U x) = rp_page_size r"
proof (cases "winner_le (rp_journal r) U x")
  case (Some e)
  obtain d s where e: "e = (d, s)" by (cases e)
  note w = winner_leD [OF Some [unfolded e]]
  have "slot_wf (rp_page_size r) s"
    using w(1) assms by (auto simp: replica_inv_def)
  then show ?thesis using Some e w by (simp add: block_value_def page_of_length)
qed (simp add: block_value_def)

text \<open>A page read at horizon \<open>H\<close> is the specified version at \<open>max H commit_lsn\<close>.\<close>

lemma read_page_value:
  assumes inv: "replica_inv r"
  shows "(case read_page r H x of None \<Rightarrow> replicate (rp_page_size r) 0 | Some p \<Rightarrow> p) =
     block_value (rp_page_size r) (rp_journal r) (max H (rp_commit_lsn r)) x"
    and "read_page r H x = None \<longleftrightarrow>
     block_value (rp_page_size r) (rp_journal r) (max H (rp_commit_lsn r)) x = replicate (rp_page_size r) 0"
proof -
  let ?ps = "rp_page_size r" and ?j = "rp_journal r" and ?c = "rp_commit_lsn r"
  note ok = replica_invD(1) [OF inv]
  have len: "length (block_value ?ps ?j (max H ?c) x) = ?ps"
    by (rule block_value_length [OF inv])
  have "\<exists>page. read_page r H x = (case page of None \<Rightarrow> None | Some p \<Rightarrow> if all_zero p then None else Some p) \<and>
      block_value ?ps ?j (max H ?c) x = (case page of None \<Rightarrow> replicate ?ps 0 | Some p \<Rightarrow> p)"
  proof (cases "highest_slot_le r x H")
    case (Some s)
    then obtain d where w: "winner_le ?j H x = Some (d, s)" "?c < d"
      by (auto simp: highest_slot_le_winner [OF ok] split: option.splits if_splits)
    then have "?c \<le> H" using winner_leD(2) [OF w(1)] by simp
    then have "block_value ?ps ?j (max H ?c) x =
        (if sl_all_zeros s then replicate ?ps 0 else page_of ?ps (sl_bytes s) ((x - sl_lba s) * ?ps))"
      using w by (simp add: block_value_def max_def)
    then show ?thesis
      by (intro exI [of _ "if sl_all_zeros s then None else Some (page_of ?ps (sl_bytes s) ((x - sl_lba s) * ?ps))"])
        (simp add: read_page_def Some)
  next
    case None
    have low: "d \<le> ?c" if "winner_le ?j H x = Some (d, s)" for d s
      using None that by (auto simp: highest_slot_le_winner [OF ok] split: if_splits)
    have "winner_le ?j (max H ?c) x = winner_le ?j ?c x"
      using winner_le_below [OF ok, of ?c H x] low by (cases "?c \<le> H") (auto simp: max_def)
    then have "block_value ?ps ?j (max H ?c) x =
        (case index_view ?ps ?j ?c x of None \<Rightarrow> replicate ?ps 0 | Some c \<Rightarrow> page_of ?ps (ic_buf c) (ic_off c))"
      by (auto simp: block_value_def index_view_def split: option.split)
    then show ?thesis
      by (intro exI [of _ "map_option (\<lambda>c. page_of ?ps (ic_buf c) (ic_off c)) (index_view ?ps ?j ?c x)"])
        (auto simp: read_page_def None replica_invD(7) [OF inv] split: option.split)
  qed
  then obtain page where
    rd: "read_page r H x = (case page of None \<Rightarrow> None | Some p \<Rightarrow> if all_zero p then None else Some p)" and
    bv: "block_value ?ps ?j (max H ?c) x = (case page of None \<Rightarrow> replicate ?ps 0 | Some p \<Rightarrow> p)"
    by blast
  have zp: "p = replicate ?ps 0" if "all_zero p" "length p = ?ps" for p
    using all_zero_page [OF that(1)] that(2) by simp
  have z: "all_zero (replicate ?ps 0)" by (simp add: all_zero_def list_all_iff)
  show "(case read_page r H x of None \<Rightarrow> replicate ?ps 0 | Some p \<Rightarrow> p) = block_value ?ps ?j (max H ?c) x"
    using len unfolding rd bv by (auto split: option.splits dest: zp)
  show "read_page r H x = None \<longleftrightarrow> block_value ?ps ?j (max H ?c) x = replicate ?ps 0"
    using len z unfolding rd bv by (auto split: option.splits dest: zp)
qed

text \<open>The scatter writer, seen on the concatenation of the buffers.\<close>

definition sg_pos :: "sg_cursor \<Rightarrow> nat" where
  "sg_pos = (\<lambda>(iovs, idx, off). length (concat (take idx iovs)) + off)"

definition sg_cur_ok :: "sg_cursor \<Rightarrow> bool" where
  "sg_cur_ok = (\<lambda>(iovs, idx, off). idx \<le> length iovs \<and> (if idx < length iovs then off \<le> length (iovs ! idx) else off = 0))"

lemma concat_update_split:
  "idx < length iovs \<Longrightarrow> concat (iovs[idx := v]) = concat (take idx iovs) @ v @ concat (drop (Suc idx) iovs)"
  by (simp add: upd_conv_take_nth_drop)

lemma concat_split:
  "idx < length iovs \<Longrightarrow> concat iovs = concat (take idx iovs) @ iovs ! idx @ concat (drop (Suc idx) iovs)"
  by (metis concat_update_split list_update_id)

lemma sg_write_concat:
  assumes "sg_cur_ok cur" and "sg_pos cur + length src \<le> length (concat (fst cur))"
  shows "sg_cur_ok (sg_write src cur) \<and> sg_pos (sg_write src cur) = sg_pos cur + length src \<and>
     map length (fst (sg_write src cur)) = map length (fst cur) \<and>
     concat (fst (sg_write src cur)) =
       take (sg_pos cur) (concat (fst cur)) @ src @ drop (sg_pos cur + length src) (concat (fst cur))"
  using assms
proof (induction src cur rule: sg_write.induct)
  case (1 src iovs idx off)
  show ?case
  proof (cases "src = []")
    case True
    with 1(3) show ?thesis by (subst (1 2 3 4) sg_write.simps) simp
  next
    case False
    have idx: "idx < length iovs"
    proof (rule ccontr)
      assume "\<not> idx < length iovs"
      with 1(3) have "sg_pos (iovs, idx, off) = length (concat iovs)"
        by (simp add: sg_cur_ok_def sg_pos_def)
      with 1(4) False show False by simp
    qed
    have off: "off \<le> length (iovs ! idx)"
      using 1(3) idx by (simp add: sg_cur_ok_def)
    have cond: "src \<noteq> [] \<and> idx < length iovs \<and> off \<le> length (iovs ! idx)"
      using False idx off by simp
    let ?iov = "iovs ! idx"
    let ?k = "min (length src) (length ?iov - off)"
    let ?iov' = "take off ?iov @ take ?k src @ drop (off + ?k) ?iov"
    let ?iovs = "iovs[idx := ?iov']"
    let ?cur = "if off + ?k = length ?iov then (?iovs, idx + 1, 0) else (?iovs, idx, off + ?k)"
    have step: "sg_write src (iovs, idx, off) = sg_write (drop ?k src) ?cur"
      using False idx off by (subst sg_write.simps) (simp add: Let_def)
    have len': "length ?iov' = length ?iov" using off by simp
    then have lens: "map length ?iovs = map length iovs"
      by (simp add: map_update list_update_same_conv idx)
    have ok': "sg_cur_ok ?cur"
      using idx off len' by (auto simp: sg_cur_ok_def min_def split: if_splits)
    have pos': "sg_pos ?cur = sg_pos (iovs, idx, off) + ?k"
      using idx off len' by (auto simp: sg_pos_def take_Suc_conv_app_nth)
    let ?pre = "concat (take idx iovs)" and ?post = "concat (drop (Suc idx) iovs)"
    have c: "concat iovs = ?pre @ ?iov @ ?post" using concat_split [OF idx] .
    have c': "concat ?iovs = ?pre @ ?iov' @ ?post" using concat_update_split [OF idx] .
    have fit: "sg_pos ?cur + length (drop ?k src) \<le> length (concat (fst ?cur))"
      using 1(4) lens pos' by (auto simp: length_concat)
    have IH: "sg_cur_ok (sg_write (drop ?k src) ?cur) \<and>
        sg_pos (sg_write (drop ?k src) ?cur) = sg_pos ?cur + length (drop ?k src) \<and>
        map length (fst (sg_write (drop ?k src) ?cur)) = map length (fst ?cur) \<and>
        concat (fst (sg_write (drop ?k src) ?cur)) =
          take (sg_pos ?cur) (concat (fst ?cur)) @ drop ?k src @
          drop (sg_pos ?cur + length (drop ?k src)) (concat (fst ?cur))"
    proof (cases "off + ?k = length ?iov")
      case True
      from ok' fit show ?thesis
        unfolding if_P [OF True] by (rule 1(1) [OF cond refl refl refl True])
    next
      case F: False
      from ok' fit show ?thesis
        unfolding if_not_P [OF F] by (rule 1(2) [OF cond refl refl refl F])
    qed
    have fst_cur: "fst ?cur = ?iovs" by (cases "off + ?k = length ?iov") simp_all
    have drop_len: "sg_pos ?cur + length (drop ?k src) = sg_pos (iovs, idx, off) + length src"
      unfolding pos' by simp
    have t: "take (sg_pos ?cur) (concat ?iovs) = take (sg_pos (iovs, idx, off)) (concat iovs) @ take ?k src"
      unfolding c c' pos' using off by (simp add: sg_pos_def)
    have d: "drop (sg_pos ?cur + length (drop ?k src)) (concat ?iovs) =
        drop (sg_pos (iovs, idx, off) + length src) (concat iovs)"
      unfolding c c' pos' using off
      by (auto simp: sg_pos_def min_def add.commute)
    have "concat (fst (sg_write (drop ?k src) ?cur)) =
        take (sg_pos (iovs, idx, off)) (concat iovs) @ (take ?k src @ drop ?k src) @
        drop (sg_pos (iovs, idx, off) + length src) (concat iovs)"
      using IH unfolding fst_cur t d by (simp only: append_assoc)
    then show ?thesis
      unfolding step fst_conv append_take_drop_id using IH lens fst_cur drop_len by metis
  qed
qed

lemma read_blocks_data:
  assumes inv: "replica_inv r" and fit: "n * rp_page_size r \<le> length (concat dest)"
    and lba: "lba0 + n \<le> 2 ^ 64"
  shows "\<exists>layout cur. fold (read_block r H lba0) [0..<n] ([], (dest, 0, 0)) = (layout, cur) \<and> sg_cur_ok cur \<and>
     sg_pos cur = n * rp_page_size r \<and> map length (fst cur) = map length dest \<and>
     concat (fst cur) =
       concat (map (\<lambda>i. block_value (rp_page_size r) (rp_journal r) (max H (rp_commit_lsn r)) (lba0 + i)) [0..<n]) @
       drop (n * rp_page_size r) (concat dest)"
  using fit lba
proof (induction n)
  case 0
  show ?case by (auto simp: sg_cur_ok_def sg_pos_def)
next
  case (Suc n)
  let ?ps = "rp_page_size r" and ?U = "max H (rp_commit_lsn r)"
  let ?bv = "\<lambda>i. block_value ?ps (rp_journal r) ?U (lba0 + i)"
  obtain layout cur where IH: "fold (read_block r H lba0) [0..<n] ([], (dest, 0, 0)) = (layout, cur)"
    "sg_cur_ok cur" "sg_pos cur = n * ?ps" "map length (fst cur) = map length dest"
    "concat (fst cur) = concat (map ?bv [0..<n]) @ drop (n * ?ps) (concat dest)"
    using Suc by fastforce
  have x: "u64 (lba0 + n) = lba0 + n" using Suc.prems(2) by simp
  let ?cur = "sg_write (?bv n) cur"
  have step: "\<exists>layout'. fold (read_block r H lba0) [0..<Suc n] ([], (dest, 0, 0)) = (layout', ?cur)"
    using IH(1) read_page_value(1) [OF inv, of H "lba0 + n"] by (simp add: read_block_def x Let_def)
  have bl: "length (?bv i) = ?ps" for i by (rule block_value_length [OF inv])
  have cl: "length (concat (fst cur)) = length (concat dest)"
    using IH(4) by (simp add: length_concat)
  have w: "sg_cur_ok ?cur \<and> sg_pos ?cur = sg_pos cur + ?ps \<and> map length (fst ?cur) = map length (fst cur) \<and>
      concat (fst ?cur) = take (sg_pos cur) (concat (fst cur)) @ ?bv n @ drop (sg_pos cur + ?ps) (concat (fst cur))"
    using sg_write_concat [OF IH(2), of "?bv n"] Suc.prems(1) IH(3) cl unfolding bl by simp
  have pre: "length (concat (map ?bv [0..<n])) = n * ?ps"
    by (induction n) (simp_all add: bl)
  have "concat (fst ?cur) = concat (map ?bv [0..<Suc n]) @ drop (Suc n * ?ps) (concat dest)"
    using w pre by (simp add: IH(3,5))
  moreover obtain layout' where "fold (read_block r H lba0) [0..<Suc n] ([], (dest, 0, 0)) = (layout', ?cur)"
    using step by blast
  ultimately show ?case
    using w IH(3,4) by (intro exI [of _ layout'] exI [of _ ?cur]) simp
qed

definition expand_extents :: "nat \<Rightarrow> io_extent list \<Rightarrow> (nat \<times> bool) list" where
  "expand_extents ps layout =
     concat (map (\<lambda>e. map (\<lambda>k. (ie_addr e + k * ps, ie_hole e)) [0..<ie_len e div ps]) layout)"

definition layout_ok :: "nat \<Rightarrow> nat \<Rightarrow> io_extent list \<Rightarrow> bool" where
  "layout_ok ps e_end layout \<longleftrightarrow> layout \<noteq> [] \<longrightarrow>
     ps dvd ie_len (last layout) \<and> ie_addr (last layout) + ie_len (last layout) = e_end"

lemma push_extent_expand:
  assumes "layout_ok ps x_addr layout" and "x_addr + ps < 2 ^ 64" and "0 < ps"
  shows "expand_extents ps (push_extent ps x_addr hole layout) = expand_extents ps layout @ [(x_addr, hole)]"
    and "layout_ok ps (x_addr + ps) (push_extent ps x_addr hole layout)"
proof -
  show "expand_extents ps (push_extent ps x_addr hole layout) = expand_extents ps layout @ [(x_addr, hole)]"
  proof (cases "layout \<noteq> [] \<and> ie_hole (last layout) = hole")
    case True
    then obtain pre e where lay: "layout = pre @ [e]" and h: "ie_hole e = hole"
      by (metis append_butlast_last_id)
    have "ps dvd ie_len e" and en: "ie_addr e + ie_len e = x_addr"
      using assms(1) by (auto simp: layout_ok_def lay)
    then obtain k where k: "ie_len e = ps * k" by (auto elim: dvdE)
    have "ie_len e + ps < 18446744073709551616" "x_addr < 18446744073709551616"
      using en assms(2) by simp_all
    then show ?thesis
      using h en k assms(3) by (simp add: push_extent_def lay expand_extents_def mult.commute)
  next
    case False
    then show ?thesis
      using assms(3) by (auto simp: push_extent_def expand_extents_def)
  qed
  show "layout_ok ps (x_addr + ps) (push_extent ps x_addr hole layout)"
    using assms by (auto simp: push_extent_def layout_ok_def)
qed

lemma read_blocks_layout:
  assumes inv: "replica_inv r" and lba: "(lba0 + n) * rp_page_size r < 2 ^ 64"
  shows "layout_ok (rp_page_size r) ((lba0 + n) * rp_page_size r)
       (fst (fold (read_block r H lba0) [0..<n] ([], cur))) \<and>
     expand_extents (rp_page_size r) (fst (fold (read_block r H lba0) [0..<n] ([], cur))) =
       map (\<lambda>i. ((lba0 + i) * rp_page_size r,
                 block_value (rp_page_size r) (rp_journal r) (max H (rp_commit_lsn r)) (lba0 + i)
                   = replicate (rp_page_size r) 0)) [0..<n]"
  using lba
proof (induction n)
  case 0
  show ?case by (simp add: layout_ok_def expand_extents_def)
next
  case (Suc n)
  let ?ps = "rp_page_size r"
  have ps: "2 \<le> ?ps" using replica_invD(2) [OF inv] .
  have "(lba0 + n) * ?ps < 2 ^ 64" using Suc.prems by simp
  note IH = Suc.IH [OF this]
  have x: "u64 ((lba0 + n) * ?ps) = (lba0 + n) * ?ps" using \<open>(lba0 + n) * ?ps < 2 ^ 64\<close> by simp
  have "(lba0 + n) * 1 \<le> (lba0 + n) * ?ps" using ps by (intro mult_le_mono2) simp
  from le_less_trans [OF this \<open>(lba0 + n) * ?ps < 2 ^ 64\<close>]
  have lx: "u64 (lba0 + n) = lba0 + n" by simp
  obtain layout c where st: "fold (read_block r H lba0) [0..<n] ([], cur) = (layout, c)"
    by (metis surj_pair)
  have "fst (fold (read_block r H lba0) [0..<Suc n] ([], cur)) =
      push_extent ?ps ((lba0 + n) * ?ps) (read_page r H (lba0 + n) = None) layout"
    by (simp add: st read_block_def Let_def lx x)
  moreover have "(lba0 + n) * ?ps + ?ps < 2 ^ 64" using Suc.prems by (simp add: algebra_simps)
  moreover have "(lba0 + Suc n) * ?ps = (lba0 + n) * ?ps + ?ps" by simp
  ultimately show ?case
    using IH push_extent_expand [of ?ps "(lba0 + n) * ?ps" layout "read_page r H (lba0 + n) = None"] ps
      read_page_value(2) [OF inv, of H "lba0 + n"]
    by (simp add: st add.commute [of ?ps "(lba0 + n) * ?ps"])
qed

text \<open>The extents of a read tile its range: each starts where the one before it ends, in whole pages.\<close>

fun tiled :: "nat \<Rightarrow> nat \<Rightarrow> nat \<Rightarrow> io_extent list \<Rightarrow> bool" where
  "tiled ps a b [] \<longleftrightarrow> a = b"
| "tiled ps a b (e # es) \<longleftrightarrow> ie_addr e = a \<and> 0 < ie_len e \<and> ps dvd ie_len e \<and> tiled ps (a + ie_len e) b es"

lemma tiled_snoc:
  "tiled ps a b (es @ [e]) \<longleftrightarrow> tiled ps a (ie_addr e) es \<and> 0 < ie_len e \<and> ps dvd ie_len e \<and> ie_addr e + ie_len e = b"
  by (induction es arbitrary: a) auto

lemma push_extent_tiled:
  assumes "tiled ps a x_addr layout" and "x_addr + ps < 2 ^ 64" and "0 < ps"
  shows "tiled ps a (x_addr + ps) (push_extent ps x_addr hole layout)"
proof (cases "layout \<noteq> [] \<and> ie_hole (last layout) = hole")
  case True
  then obtain pre e where lay: "layout = pre @ [e]" and h: "ie_hole e = hole" by (metis append_butlast_last_id)
  have e: "tiled ps a (ie_addr e) pre" "0 < ie_len e" "ps dvd ie_len e" "ie_addr e + ie_len e = x_addr"
    using assms(1) by (simp_all add: lay tiled_snoc)
  have "u64 (ie_len e + ps) = ie_len e + ps" "u64 x_addr = x_addr" using e(4) assms(2) by simp_all
  then show ?thesis using e h by (simp add: push_extent_def lay tiled_snoc)
next
  case False
  then have "push_extent ps x_addr hole layout = layout @ [\<lparr>ie_addr = x_addr, ie_len = ps, ie_hole = hole\<rparr>]"
    by (auto simp: push_extent_def)
  then show ?thesis using assms by (simp add: tiled_snoc)
qed

lemma read_blocks_tiled:
  assumes inv: "replica_inv r" and lba: "(lba0 + n) * rp_page_size r < 2 ^ 64"
  shows "tiled (rp_page_size r) (lba0 * rp_page_size r) ((lba0 + n) * rp_page_size r)
     (fst (fold (read_block r H lba0) [0..<n] ([], cur)))"
  using lba
proof (induction n)
  case 0
  show ?case by simp
next
  case (Suc n)
  let ?ps = "rp_page_size r"
  have ps: "2 \<le> ?ps" using replica_invD(2) [OF inv] .
  have lim: "(lba0 + n) * ?ps + ?ps < 2 ^ 64" using Suc.prems by (simp add: algebra_simps)
  then have x: "u64 ((lba0 + n) * ?ps) = (lba0 + n) * ?ps" by simp
  have "(lba0 + n) * 1 \<le> (lba0 + n) * ?ps" using ps by (intro mult_le_mono2) simp
  from le_less_trans [OF this, of "2 ^ 64"] lim have lx: "u64 (lba0 + n) = lba0 + n" by simp
  obtain layout c where st: "fold (read_block r H lba0) [0..<n] ([], cur) = (layout, c)" by (metis surj_pair)
  have "fst (fold (read_block r H lba0) [0..<Suc n] ([], cur)) =
      push_extent ?ps ((lba0 + n) * ?ps) (read_page r H (lba0 + n) = None) layout"
    by (simp add: st read_block_def Let_def lx x)
  moreover have "tiled ?ps (lba0 * ?ps) ((lba0 + n) * ?ps) layout" using Suc.IH lim st by simp
  moreover have "(lba0 + Suc n) * ?ps = (lba0 + n) * ?ps + ?ps" by simp
  ultimately show ?case using push_extent_tiled [OF _ lim] ps by (simp add: add.commute [of ?ps "(lba0 + n) * ?ps"])
qed

section \<open>Every operation keeps the invariant\<close>

lemma om_upto_put: "c < d \<Longrightarrow> om_upto c (om_put d v j) = om_upto c j"
  by (induction j) (auto simp: om_upto_def)

lemma winner_le_put: "c < d \<Longrightarrow> winner_le (om_put d v j) c x = winner_le j c x"
  by (simp add: winner_le_def om_upto_put)

lemma om_put_mem: "om_ok j \<Longrightarrow> e \<in> set (om_put d v j) \<Longrightarrow> e = (d, v) \<or> e \<in> set j"
  by (cases e) (auto simp: om_ok_mem split: if_splits)

lemma inv_put:
  assumes "replica_inv r" "rp_commit_lsn r < d" "slot_wf (rp_page_size r) s"
  shows "replica_inv (r\<lparr>rp_journal := om_put d s (rp_journal r), rp_last_append_lsn := max (rp_last_append_lsn r) d\<rparr>)"
  using assms
  by (fastforce simp: replica_inv_def index_view_def winner_le_put dest: om_put_mem)

lemma inv_truncate:
  assumes "replica_inv r" "rp_commit_lsn r \<le> rs"
  shows "replica_inv (r\<lparr>rp_journal := om_upto rs (rp_journal r), rp_last_append_lsn := min (rp_last_append_lsn r) rs\<rparr>)"
proof -
  have "om_upto (rp_commit_lsn r) (om_upto rs (rp_journal r)) = om_upto (rp_commit_lsn r) (rp_journal r)"
    using assms(2) by (auto simp: om_upto_def intro!: filter_cong)
  moreover have "\<forall>(d, s) \<in> set (om_upto rs (rp_journal r)).
      0 \<le> d \<and> d \<le> min (rp_last_append_lsn r) rs \<and> slot_wf (rp_page_size r) s"
    using assms(1) by (auto simp: replica_inv_def om_upto_def)
  ultimately show ?thesis
    using assms by (auto simp: replica_inv_def index_view_def winner_le_def map_of_om_upto)
qed

lemma inv_irrelevant:
  assumes "replica_inv r"
  shows "replica_inv (r\<lparr>rp_client_token := a, rp_term := b\<rparr>)" "replica_inv (r\<lparr>rp_faults := f\<rparr>)"
    "replica_inv (r\<lparr>rp_reads_served := n\<rparr>)" "replica_inv (r\<lparr>rp_keepalives_served := n\<rparr>)"
  using assms by (simp_all add: replica_inv_def index_view_def)

lemma journal_put:
  assumes "journal_inv r" "slot_wf (rp_page_size r) s"
  shows "journal_inv (r\<lparr>rp_journal := om_put d s (rp_journal r), rp_last_append_lsn := max (rp_last_append_lsn r) d\<rparr>)"
  using assms by (fastforce simp: journal_inv_def dest: om_put_mem)

lemma journal_truncate:
  assumes "journal_inv r" "rp_commit_lsn r \<le> rs"
  shows "journal_inv (r\<lparr>rp_journal := om_upto rs (rp_journal r), rp_last_append_lsn := min (rp_last_append_lsn r) rs\<rparr>)"
proof -
  have "\<forall>(d, s) \<in> set (om_upto rs (rp_journal r)). d \<le> min (rp_last_append_lsn r) rs \<and> slot_wf (rp_page_size r) s"
    using assms(1) by (auto simp: journal_inv_def om_upto_def)
  with assms show ?thesis by (auto simp: journal_inv_def map_of_om_upto)
qed

lemma journal_irrelevant:
  assumes "journal_inv r"
  shows "journal_inv (r\<lparr>rp_client_token := a, rp_term := b\<rparr>)" "journal_inv (r\<lparr>rp_faults := f\<rparr>)"
    "journal_inv (r\<lparr>rp_reads_served := n\<rparr>)" "journal_inv (r\<lparr>rp_keepalives_served := n\<rparr>)"
  using assms by (simp_all add: journal_inv_def)

lemma slot_wf_empty [simp]: "slot_wf ps (empty_slot t)"
  by (simp add: slot_wf_def empty_slot_def)

lemma do_write_slot_wf:
  assumes "journal_inv r" "addr < 2 ^ 64" "case bytes of None \<Rightarrow> True | Some b \<Rightarrow> length b = len"
  shows "slot_wf (rp_page_size r)
     \<lparr>sl_term = t, sl_lba = addr div rp_page_size r, sl_len = u32 (len div rp_page_size r),
      sl_all_zeros = (bytes = None), sl_is_empty = False, sl_bytes = bytes\<rparr>"
proof -
  have "addr div rp_page_size r \<le> addr div 2"
    using journal_invD(2) [OF assms(1)] by (simp add: div_le_mono2)
  then have "addr div rp_page_size r < 2 ^ 63" using assms(2) by simp
  moreover have "u32 (len div rp_page_size r) < 2 ^ 32" by (simp add: u32_def)
  ultimately have "addr div rp_page_size r + u32 (len div rp_page_size r) < 2 ^ 64" by simp
  moreover have "u32 (len div rp_page_size r) * rp_page_size r \<le> len"
    using u32_le [of "len div rp_page_size r"] by (metis div_times_less_eq_dividend le_trans mult_le_mono1)
  ultimately show ?thesis
    using assms(3) by (auto simp: slot_wf_def split: option.splits)
qed

lemma do_write_inv:
  assumes "replica_inv r" "rp_commit_lsn r < dlsn" "addr < 2 ^ 64"
  shows "replica_inv (snd (do_write hdr dlsn addr len bytes r))"
proof -
  have "case bytes of None \<Rightarrow> True | Some b \<Rightarrow> length b = len"
    if "\<not> (case bytes of None \<Rightarrow> False | Some b \<Rightarrow> length b \<noteq> len)"
    using that by (simp split: option.splits)
  from do_write_slot_wf [OF inv_journal [OF assms(1)] assms(3) this, of "ch_term hdr"] show ?thesis
    using assms(1,2) by (auto simp: do_write_def Let_def intro!: apply_up_to_inv inv_put)
qed

lemma do_write_journal:
  assumes "journal_inv r" "addr < 2 ^ 64"
  shows "journal_inv (snd (do_write hdr dlsn addr len bytes r))"
proof -
  have "case bytes of None \<Rightarrow> True | Some b \<Rightarrow> length b = len"
    if "\<not> (case bytes of None \<Rightarrow> False | Some b \<Rightarrow> length b \<noteq> len)"
    using that by (simp split: option.splits)
  from do_write_slot_wf [OF assms this, of "ch_term hdr"] show ?thesis
    using assms(1) by (auto simp: do_write_def Let_def intro!: apply_up_to_journal journal_put)
qed

lemma do_read_journal: "journal_inv r \<Longrightarrow> journal_inv (snd (snd (do_read hdr H addr len dest r)))"
  by (simp add: do_read_def Let_def case_prod_beta apply_up_to_journal journal_irrelevant)

lemma do_keep_alive_journal: "journal_inv r \<Longrightarrow> journal_inv (snd (do_keep_alive hdr r))"
  by (simp add: do_keep_alive_def Let_def apply_up_to_journal journal_irrelevant)

lemma do_read_inv: "replica_inv r \<Longrightarrow> replica_inv (snd (snd (do_read hdr H addr len dest r)))"
  by (simp add: do_read_def Let_def case_prod_beta apply_up_to_inv inv_irrelevant)

lemma do_keep_alive_inv: "replica_inv r \<Longrightarrow> replica_inv (snd (do_keep_alive hdr r))"
  by (simp add: do_keep_alive_def Let_def apply_up_to_inv inv_irrelevant)

text \<open>The resolution loop tombstones exactly the absent dLSNs.\<close>

definition unresolved_at :: "MemCraftReplica \<Rightarrow> int \<Rightarrow> bool" where
  "unresolved_at r d \<longleftrightarrow> (case map_of (rp_journal r) d of None \<Rightarrow> True | Some s \<Rightarrow> sl_is_empty s)"

lemma resolve_local_fold:
  assumes "distinct ds" and "\<forall>d \<in> set ds. c < d" and "om_ok (rp_journal r)"
  shows "\<exists>j. fold resolve_local_step ds (em, r) = (em @ filter (unresolved_at r) ds, r\<lparr>rp_journal := j\<rparr>) \<and>
     om_ok j \<and> om_upto c j = om_upto c (rp_journal r) \<and>
     (\<forall>d. map_of j d = (if d \<in> set ds \<and> map_of (rp_journal r) d = None then Some (empty_slot (rp_term r))
                        else map_of (rp_journal r) d))"
  using assms
proof (induction ds arbitrary: em r)
  case Nil
  show ?case by (intro exI [of _ "rp_journal r"]) (simp add: Nil)
next
  case (Cons d ds)
  let ?j = "if map_of (rp_journal r) d = None then om_put d (empty_slot (rp_term r)) (rp_journal r) else rp_journal r"
  let ?em = "if unresolved_at r d then em @ [d] else em"
  have step: "resolve_local_step d (em, r) = (?em, r\<lparr>rp_journal := ?j\<rparr>)"
    by (simp add: resolve_local_step_def unresolved_at_def split: option.split)
  have j: "om_ok ?j" "om_upto c ?j = om_upto c (rp_journal r)"
    using Cons.prems by (simp_all add: om_upto_put)
  obtain j' where j': "fold resolve_local_step ds (?em, r\<lparr>rp_journal := ?j\<rparr>) =
      (?em @ filter (unresolved_at (r\<lparr>rp_journal := ?j\<rparr>)) ds, (r\<lparr>rp_journal := ?j\<rparr>)\<lparr>rp_journal := j'\<rparr>)"
    "om_ok j'" "om_upto c j' = om_upto c ?j"
    "\<forall>d. map_of j' d = (if d \<in> set ds \<and> map_of ?j d = None then Some (empty_slot (rp_term r)) else map_of ?j d)"
    using Cons.IH [of "r\<lparr>rp_journal := ?j\<rparr>" ?em] Cons.prems j by auto
  have "filter (unresolved_at (r\<lparr>rp_journal := ?j\<rparr>)) ds = filter (unresolved_at r) ds"
    using Cons.prems(1) by (intro filter_cong) (auto simp: unresolved_at_def)
  then show ?case
    using step j j' Cons.prems(1) by (intro exI [of _ j']) auto
qed

lemma do_resolve_local_spec:
  assumes inv: "replica_inv r" and trm: "ch_term hdr = rp_term r"
  obtains r' where "do_resolve_local hdr lim r =
       (Inr \<lparr>rs_resolved_upto = lim,
             rs_empty_slots = filter (unresolved_at r) [rp_commit_lsn r + 1..lim]\<rparr>, r')"
    and "replica_inv r'" and "rp_commit_lsn r' = max (rp_commit_lsn r) lim"
    and "\<And>d. map_of (rp_journal r') d =
       (if rp_commit_lsn r < d \<and> d \<le> lim \<and> map_of (rp_journal r) d = None
        then Some (empty_slot (rp_term r)) else map_of (rp_journal r) d)"
proof -
  let ?c = "rp_commit_lsn r" and ?ds = "[rp_commit_lsn r + 1..lim]"
  obtain j where f: "fold resolve_local_step ?ds ([], r) = ([] @ filter (unresolved_at r) ?ds, r\<lparr>rp_journal := j\<rparr>)"
    and j: "om_ok j" "om_upto ?c j = om_upto ?c (rp_journal r)"
    and m: "\<forall>d. map_of j d = (if d \<in> set ?ds \<and> map_of (rp_journal r) d = None then Some (empty_slot (rp_term r))
                        else map_of (rp_journal r) d)"
    using resolve_local_fold [of ?ds ?c r "[]"] replica_invD(1) [OF inv] by auto
  let ?r2 = "r\<lparr>rp_journal := j, rp_last_append_lsn := max (rp_last_append_lsn r) lim\<rparr>"
  have mem: "0 \<le> d \<and> d \<le> max (rp_last_append_lsn r) lim \<and> slot_wf (rp_page_size r) s" if "(d, s) \<in> set j" for d s
    using that m replica_invD(3) [OF inv] replica_invD(5) [OF inv, of d s]
    by (auto simp: om_ok_mem [OF j(1)] split: if_splits)
  have inv2: "replica_inv ?r2"
    using inv j m mem by (auto simp: replica_inv_def index_view_def winner_le_def)
  let ?r' = "apply_up_to lim ?r2"
  have present: "map_of j d \<noteq> None" if "?c < d" "d \<le> lim" for d
    using that m by auto
  have commit: "rp_commit_lsn ?r' = max ?c lim"
    using apply_up_to_complete [of ?r2 lim] present by simp
  show thesis
  proof (rule that [of ?r'])
    show "do_resolve_local hdr lim r =
        (Inr \<lparr>rs_resolved_upto = lim, rs_empty_slots = filter (unresolved_at r) ?ds\<rparr>, ?r')"
      using trm f by (simp add: do_resolve_local_def Let_def)
    show "replica_inv ?r'" by (rule apply_up_to_inv [OF inv2])
    show "rp_commit_lsn ?r' = max ?c lim" by (rule commit)
    show "map_of (rp_journal ?r') d = (if ?c < d \<and> d \<le> lim \<and> map_of (rp_journal r) d = None
        then Some (empty_slot (rp_term r)) else map_of (rp_journal r) d)" for d
      using m by auto
  qed
qed

lemma do_resolve_local_inv: "replica_inv r \<Longrightarrow> replica_inv (snd (do_resolve_local hdr lim r))"
  by (cases "ch_term hdr = rp_term r")
    (auto elim: do_resolve_local_spec [where hdr = hdr and lim = lim] simp: do_resolve_local_def)

lemma cold_install_slot_inv:
  assumes "replica_inv r" "0 \<le> d" "slot_wf (rp_page_size r) s"
  shows "replica_inv (cold_install_slot d s r)"
proof -
  have "rp_commit_lsn r < d" if "map_of (rp_journal r) d = None"
    using replica_invD(6) [OF assms(1), of d] assms(2) that by fastforce
  then show ?thesis
    using assms inv_put by (simp add: cold_install_slot_def)
qed

lemma cold_install_slot_journal:
  "journal_inv r \<Longrightarrow> slot_wf (rp_page_size r) s \<Longrightarrow> journal_inv (cold_install_slot d s r)"
  by (simp add: cold_install_slot_def journal_put)

lemma cold_mark_empty_journal: "journal_inv r \<Longrightarrow> journal_inv (cold_mark_empty d r)"
  by (simp add: cold_mark_empty_def journal_put)

lemma do_resolve_local_journal:
  assumes inv: "journal_inv r"
  shows "journal_inv (snd (do_resolve_local hdr lim r)) \<and> rp_commit_lsn r \<le> rp_commit_lsn (snd (do_resolve_local hdr lim r))"
proof (cases "ch_term hdr = rp_term r")
  case True
  let ?c = "rp_commit_lsn r" and ?ds = "[rp_commit_lsn r + 1..lim]"
  obtain j where f: "fold resolve_local_step ?ds ([], r) = ([] @ filter (unresolved_at r) ?ds, r\<lparr>rp_journal := j\<rparr>)"
    and j: "om_ok j"
    and m: "\<forall>d. map_of j d = (if d \<in> set ?ds \<and> map_of (rp_journal r) d = None then Some (empty_slot (rp_term r))
                        else map_of (rp_journal r) d)"
    using resolve_local_fold [of ?ds ?c r "[]"] journal_invD(1) [OF inv] by auto
  let ?r2 = "r\<lparr>rp_journal := j, rp_last_append_lsn := max (rp_last_append_lsn r) lim\<rparr>"
  have mem: "d \<le> max (rp_last_append_lsn r) lim \<and> slot_wf (rp_page_size r) s" if "(d, s) \<in> set j" for d s
    using that m journal_invD(5) [OF inv, of d s] by (auto simp: om_ok_mem [OF j] split: if_splits)
  have "journal_inv ?r2" using inv j m mem by (auto simp: journal_inv_def)
  from apply_up_to_journal [OF this, of lim] show ?thesis
    using True f apply_up_to_commit [of ?r2 lim] by (simp add: do_resolve_local_def Let_def)
qed (simp add: do_resolve_local_def inv)

section \<open>Reachable replicas\<close>

text \<open>
  What may happen to a replica. A write, an Empty verdict and a fetched copy carry any dLSN:
  neither the replica nor its callers compare it with the commit frontier
  (\<open>mem/replica.cpp\<close> \<open>do_write\<close>, \<open>mem/cluster.cpp\<close> \<open>run_resolution\<close>, \<open>raft_replica.cpp\<close>
  \<open>apply_sync\<close>). The flag \<open>ahead\<close> selects the runs in which written and voided dLSNs happen to
  lie above the frontier and installed ones are not negative. A truncation does not cut into
  the committed prefix: the login of the in-memory group cuts at the largest append LSN of the
  live members, the Raft apply only at a frontier its messages never carry, and
  \<open>do_truncate\<close> has no caller. A fetched slot is well formed.
\<close>

inductive replica_step :: "bool \<Rightarrow> MemCraftReplica \<Rightarrow> MemCraftReplica \<Rightarrow> bool" for ahead where
  step_write: "(ahead \<Longrightarrow> rp_commit_lsn r < dlsn) \<Longrightarrow> addr < 2 ^ 64 \<Longrightarrow>
     replica_step ahead r (snd (do_write hdr dlsn addr len bytes r))"
| step_read: "replica_step ahead r (snd (snd (do_read hdr H addr len dest r)))"
| step_keep_alive: "replica_step ahead r (snd (do_keep_alive hdr r))"
| step_resolve_local: "replica_step ahead r (snd (do_resolve_local hdr lim r))"
| step_sync: "replica_step ahead r (cold_apply_sync rs r)"
| step_truncate: "rp_commit_lsn r \<le> rs \<Longrightarrow> replica_step ahead r (cold_truncate_above rs r)"
| step_do_truncate: "rp_commit_lsn r \<le> rs \<Longrightarrow> replica_step ahead r (do_truncate rs r)"
| step_login: "replica_step ahead r (cold_apply_login token trm r)"
| step_logout: "replica_step ahead r (cold_apply_logout r)"
| step_install: "(ahead \<Longrightarrow> 0 \<le> d) \<Longrightarrow> slot_wf (rp_page_size r) s \<Longrightarrow> replica_step ahead r (cold_install_slot d s r)"
| step_mark_empty: "(ahead \<Longrightarrow> rp_commit_lsn r < d) \<Longrightarrow> replica_step ahead r (cold_mark_empty d r)"
| step_set_up: "replica_step ahead r (set_up b r)"
| step_set_delay: "replica_step ahead r (set_delay ms r)"
| step_drop_writes: "replica_step ahead r (drop_writes b r)"
| step_clear_faults: "replica_step ahead r (clear_faults r)"

lemmas cold_defs = cold_apply_sync_def cold_truncate_above_def do_truncate_def cold_apply_login_def
  cold_apply_logout_def set_up_def set_delay_def drop_writes_def clear_faults_def

lemma replica_step_inv: "replica_step True r r' \<Longrightarrow> replica_inv r \<Longrightarrow> replica_inv r'"
proof (induction rule: replica_step.induct)
  case (step_mark_empty r d)
  then show ?case unfolding cold_mark_empty_def by (intro inv_put) simp_all
qed (simp_all add: do_write_inv do_read_inv do_keep_alive_inv do_resolve_local_inv cold_install_slot_inv
    apply_up_to_inv inv_truncate inv_irrelevant cold_defs)

lemma replica_step_journal: "replica_step ahead r r' \<Longrightarrow> journal_inv r \<Longrightarrow> journal_inv r'"
  by (induction rule: replica_step.induct)
    (simp_all add: do_write_journal do_read_journal do_keep_alive_journal do_resolve_local_journal cold_install_slot_journal
      cold_mark_empty_journal apply_up_to_journal journal_truncate journal_irrelevant cold_defs)

lemma replica_step_commit: "replica_step ahead r r' \<Longrightarrow> journal_inv r \<Longrightarrow> rp_commit_lsn r \<le> rp_commit_lsn r'"
  by (induction rule: replica_step.induct)
    (simp_all add: do_resolve_local_journal do_write_def do_read_def do_keep_alive_def Let_def case_prod_beta
      cold_install_slot_def cold_mark_empty_def cold_defs apply_up_to_commit [THEN conjunct1, THEN order_trans [rotated]])

lemma make_replica_inv: "2 \<le> ps \<Longrightarrow> ps < 2 ^ 32 \<Longrightarrow> replica_inv (make_replica ep ps)"
  by (simp add: make_replica_def replica_inv_def index_view_def winner_le_def om_upto_def)

lemma reachable_journal:
  "(replica_step ahead)\<^sup>*\<^sup>* r r' \<Longrightarrow> journal_inv r \<Longrightarrow> journal_inv r' \<and> rp_commit_lsn r \<le> rp_commit_lsn r'"
  by (induction rule: rtranclp_induct) (auto dest: replica_step_journal replica_step_commit)

lemma reachable_inv: "(replica_step True)\<^sup>*\<^sup>* r r' \<Longrightarrow> replica_inv r \<Longrightarrow> replica_inv r'"
  by (induction rule: rtranclp_induct) (auto dest: replica_step_inv)

section \<open>The Missing report\<close>

lemma take_take_append: "take n (take n xs @ ys) = take n (xs @ ys)"
  by (simp add: min_def)

lemma sample_gap_take:
  "length s \<le> k_missing_sample \<Longrightarrow> sample_gap e b s = take k_missing_sample (s @ [e..b - 1])"
proof (induction e b s rule: sample_gap.induct)
  case (1 e b s)
  show ?case
  proof (cases "e < b \<and> length s < k_missing_sample")
    case True
    then have "sample_gap e b s = take k_missing_sample ((s @ [e]) @ [e + 1..b - 1])"
      using 1 by (subst sample_gap.simps) simp
    with True show ?thesis by (simp add: upto_rec1 [of e "b - 1"])
  next
    case False
    with 1(2) show ?thesis by (subst sample_gap.simps) auto
  qed
qed

lemma sample_entries_take:
  assumes "om_ok es" "\<forall>k \<in> fst ` set es. e \<le> k \<and> k \<le> hi" "length s \<le> k_missing_sample" "e \<le> hi + 1"
  shows "(case sample_entries es e s of (e', s') \<Rightarrow> sample_gap e' (hi + 1) s') =
     take k_missing_sample (s @ filter (\<lambda>d. d \<notin> fst ` set es) [e..hi])"
  using assms
proof (induction es arbitrary: e s)
  case Nil
  then show ?case by (simp add: sample_gap_take)
next
  case (Cons en es)
  let ?k = "fst en"
  have ok: "om_ok es" "\<forall>k \<in> fst ` set es. ?k < k" "e \<le> ?k" "?k \<le> hi"
    using Cons.prems(1,2) by (auto simp: om_ok_def)
  show ?case
  proof (cases "length s < k_missing_sample")
    case True
    have split: "[e..hi] = [e..?k - 1] @ ?k # [?k + 1..hi]"
      using upto_split3 [OF ok(3,4)] by simp
    have f1: "filter (\<lambda>d. d \<notin> fst ` set (en # es)) [e..?k - 1] = [e..?k - 1]"
      using ok(2) by (fastforce simp: filter_id_conv)
    have f2: "filter (\<lambda>d. d \<notin> fst ` set (en # es)) [?k + 1..hi] = filter (\<lambda>d. d \<notin> fst ` set es) [?k + 1..hi]"
      by (intro filter_cong) auto
    have "(case sample_entries (en # es) e s of (e', s') \<Rightarrow> sample_gap e' (hi + 1) s') =
        take k_missing_sample (take k_missing_sample (s @ [e..?k - 1]) @ filter (\<lambda>d. d \<notin> fst ` set es) [?k + 1..hi])"
      using True Cons.IH [OF ok(1), of "?k + 1" "sample_gap e ?k s"] ok Cons.prems(2)
      by (fastforce simp: sample_gap_take)
    then show ?thesis
      unfolding take_take_append split filter_append f1 using f2 by simp
  next
    case False
    with Cons.prems(3) show ?thesis by (simp add: sample_gap_take)
  qed
qed

lemma missing_spec:
  assumes "om_ok (rp_journal r)"
  shows "missing r =
     (let gaps = filter (\<lambda>d. map_of (rp_journal r) d = None) [rp_commit_lsn r + 1..rp_last_append_lsn r]
      in (length gaps, take k_missing_sample gaps))"
proof (cases "rp_commit_lsn r + 1 \<le> rp_last_append_lsn r")
  case True
  let ?lo = "rp_commit_lsn r + 1" and ?hi = "rp_last_append_lsn r"
  let ?es = "filter (\<lambda>e. ?lo \<le> fst e \<and> fst e \<le> ?hi) (rp_journal r)"
  let ?gaps = "filter (\<lambda>d. map_of (rp_journal r) d = None) [?lo..?hi]"
  have keys: "map_of (rp_journal r) d = None \<longleftrightarrow> d \<notin> fst ` set ?es" if "?lo \<le> d" "d \<le> ?hi" for d
    using that by (auto simp: map_of_eq_None_iff)
  have gaps: "?gaps = filter (\<lambda>d. d \<notin> fst ` set ?es) [?lo..?hi]"
    using keys by (intro filter_cong) auto
  have ok: "om_ok ?es" using assms by simp
  have "length ?gaps = card ({?lo..?hi} - fst ` set ?es)"
  proof -
    have "distinct (filter (\<lambda>d. d \<notin> fst ` set ?es) [?lo..?hi])" by simp
    from distinct_card [OF this] show ?thesis
      unfolding gaps set_filter set_upto by (simp only: set_diff_eq)
  qed
  also have "\<dots> = nat (?hi - ?lo + 1) - length ?es"
  proof -
    have "fst ` set ?es \<subseteq> {?lo..?hi}" by auto
    moreover have "card (fst ` set ?es) = length ?es"
      using distinct_card [OF om_ok_distinct [OF ok]] unfolding set_map length_map .
    ultimately show ?thesis by (simp add: card_Diff_subset)
  qed
  finally have count: "nat (?hi - ?lo + 1) - length ?es = length ?gaps" by (rule sym)
  have "\<forall>k \<in> fst ` set ?es. ?lo \<le> k \<and> k \<le> ?hi" by auto
  from sample_entries_take [OF ok this, of "[]"] True
  have sample: "(case sample_entries ?es ?lo [] of (e', s') \<Rightarrow> sample_gap e' (?hi + 1) s') = take k_missing_sample ?gaps"
    unfolding gaps by simp
  have "missing r = (nat (?hi - ?lo + 1) - length ?es,
      case sample_entries ?es ?lo [] of (e', s') \<Rightarrow> sample_gap e' (?hi + 1) s')"
    using True by (simp only: missing_def Let_def if_True case_prod_beta)
  then show ?thesis unfolding count sample by (simp only: Let_def)
next
  case False
  then show ?thesis by (simp add: missing_def)
qed

section \<open>Properties\<close>

text \<open>The example replica of the witnesses: one two-byte block written at dLSN 0.\<close>

definition hdr0 :: client_hdr where
  "hdr0 = \<lparr>ch_term = 0, ch_commit_lsn = -1, ch_all_committed_lsn = -1, ch_client_token = 0\<rparr>"

definition fresh0 :: MemCraftReplica where
  "fresh0 = make_replica \<lparr>ep_id = [], ep_addr = []\<rparr> 2"

definition slot0 :: MemJournalSlot where
  "slot0 = \<lparr>sl_term = 0, sl_lba = 3, sl_len = 1, sl_all_zeros = False, sl_is_empty = False, sl_bytes = Some [7, 8]\<rparr>"

definition written0 :: MemCraftReplica where
  "written0 = fresh0\<lparr>rp_journal := [(0, slot0)], rp_last_append_lsn := 0\<rparr>"

lemma apply_up_to_stop: "t \<le> rp_commit_lsn r \<Longrightarrow> apply_up_to t r = r"
  by (subst apply_up_to.simps) simp

lemma written0_write: "do_write hdr0 0 6 2 (Some [7, 8]) fresh0 = (Inr \<lparr>lp_commit_lsn = -1, lp_last_append_lsn = 0\<rparr>, written0)"
  by (simp add: do_write_def misaligned_def hdr0_def fresh0_def written0_def slot0_def make_replica_def Let_def
      apply_up_to_stop peek_lsns_def)

lemma fresh0_inv: "replica_inv fresh0"
  by (simp add: fresh0_def make_replica_inv)

lemma written0_inv: "replica_inv written0"
proof -
  have "rp_commit_lsn fresh0 < 0" by (simp add: fresh0_def make_replica_def)
  from do_write_inv [OF fresh0_inv this, of 6 hdr0 2 "Some [7, 8]"] show ?thesis
    by (simp add: written0_write)
qed

lemma written0_simps:
  "rp_page_size written0 = 2" "rp_journal written0 = [(0, slot0)]" "rp_commit_lsn written0 = -1"
  "rp_term written0 = 0" "ch_term hdr0 = 0"
  by (simp_all add: written0_def fresh0_def make_replica_def hdr0_def)

text \<open>C27: Every replica reachable from a fresh one, whatever dLSNs the writes, Empty verdicts and
  fetched copies carry, keeps its journal complete up to \<open>commit_lsn\<close>, its watermarks and
  payload sizes consistent and every index cell inside a buffer and at or below the frontier;
  and \<open>commit_lsn\<close> never moves back. The steps assume that a fetched copy is well formed and that
  a truncation does not cut into the committed prefix, as no caller's does. When no write and no verdict lands at or below the commit
  frontier (the flag \<open>ahead\<close>), the block index is moreover exactly the replay of the committed
  prefix. The code does not enforce that condition, and the witness is a run without it: an
  applied slot is voided, the journal holds the tombstone, the index still serves the data.\<close>

theorem replica_reachable:
  assumes "2 \<le> ps" "ps < 2 ^ 32" "(replica_step ahead)\<^sup>*\<^sup>* (make_replica ep ps) r" "(replica_step ahead)\<^sup>*\<^sup>* r r'"
  shows "journal_inv r' \<and> rp_commit_lsn r \<le> rp_commit_lsn r' \<and> (ahead \<longrightarrow> replica_inv r')"
proof -
  note mk = make_replica_inv [OF assms(1,2), of ep]
  have "journal_inv r" using reachable_journal [OF assms(3) inv_journal [OF mk]] by simp
  moreover have "replica_inv r'" if ahead
  proof -
    have a: "ahead = True" using that by simp
    from assms(3,4) have "(replica_step True)\<^sup>*\<^sup>* (make_replica ep ps) r'" unfolding a by (rule rtranclp_trans)
    from reachable_inv [OF this mk] show ?thesis .
  qed
  ultimately show ?thesis using reachable_journal [OF assms(4)] by simp
qed

text \<open>The example replica with its slot applied, and then voided.\<close>

definition applied0 :: MemCraftReplica where
  "applied0 = cold_apply_sync 0 written0"

lemma applied0_eq:
  "applied0 = written0\<lparr>rp_commit_lsn := 0, rp_index := [(3, \<lparr>ic_dlsn = 0, ic_buf = Some [7, 8], ic_off = 0\<rparr>)]\<rparr>"
  by (simp add: applied0_def cold_apply_sync_def apply_up_to.simps [of 0 written0] written0_simps apply_up_to_stop
      apply_slot_def slot0_def) (simp add: written0_def fresh0_def make_replica_def)

lemma applied0_run: "(replica_step ahead)\<^sup>*\<^sup>* fresh0 applied0"
proof -
  have "replica_step ahead fresh0 written0"
    using step_write [of ahead fresh0 0 6 hdr0 2 "Some [7, 8]", unfolded written0_write]
    by (simp add: fresh0_def make_replica_def)
  moreover have "replica_step ahead written0 applied0" unfolding applied0_def by (rule step_sync)
  ultimately show ?thesis by (blast intro: rtranclp.rtrancl_into_rtrancl)
qed

theorem replica_reachable_witness:
  "replica_inv applied0 \<and>
   (let r' = cold_mark_empty 0 applied0 in
    (replica_step False)\<^sup>*\<^sup>* fresh0 applied0 \<and> (replica_step False)\<^sup>*\<^sup>* applied0 r' \<and> journal_inv r' \<and>
    0 \<le> rp_commit_lsn r' \<and> map_of (rp_journal r') 0 = Some (empty_slot 0) \<and>
    map_of (rp_index r') 3 = Some \<lparr>ic_dlsn = 0, ic_buf = Some [7, 8], ic_off = 0\<rparr> \<and> \<not> replica_inv r')"
proof -
  let ?r = "cold_mark_empty 0 applied0"
  have run: "(replica_step False)\<^sup>*\<^sup>* applied0 ?r" by (intro r_into_rtranclp step_mark_empty) simp
  note reach = replica_reachable [of 2 _ "\<lparr>ep_id = [], ep_addr = []\<rparr>", folded fresh0_def, simplified]
  have "replica_inv applied0" using reach [OF applied0_run rtranclp.rtrancl_refl, of True] by simp
  moreover have "journal_inv ?r \<and> rp_commit_lsn applied0 \<le> rp_commit_lsn ?r" using reach [OF applied0_run run] by simp
  moreover have cells: "rp_commit_lsn applied0 = 0" "map_of (rp_journal ?r) 0 = Some (empty_slot 0)"
    "map_of (rp_index ?r) 3 = Some \<lparr>ic_dlsn = 0, ic_buf = Some [7, 8], ic_off = 0\<rparr>"
    by (simp_all add: applied0_eq cold_mark_empty_def written0_simps)
  moreover have "\<not> replica_inv ?r"
  proof
    assume "replica_inv ?r"
    from replica_invD(7) [OF this, of 3] show False unfolding cells(3)
      by (simp add: applied0_eq cold_mark_empty_def written0_simps index_view_def winner_le_def om_upto_def empty_slot_def)
  qed
  ultimately show ?thesis using run applied0_run unfolding Let_def by auto
qed

lemma do_read_spec:
  assumes "replica_inv r" and "\<not> misaligned r addr len" and "ch_term hdr = rp_term r"
    and "len \<le> sg_size dest" and "sg_size dest = length (concat (sg_iovs dest))"
    and "addr + len < 2 ^ 64" and "len div rp_page_size r < 2 ^ 32"
  obtains rr iovs r' where "do_read hdr H addr len dest r = (Inr rr, iovs, r')"
    and "r' = (apply_up_to (ch_commit_lsn hdr) r)\<lparr>rp_reads_served := rp_reads_served (apply_up_to (ch_commit_lsn hdr) r) + 1\<rparr>"
    and "rr_lsns rr = peek_lsns r'"
    and "concat iovs = concat (map (\<lambda>i. block_value (rp_page_size r) (rp_journal r) (max H (rp_commit_lsn r')) (addr div rp_page_size r + i))
           [0..<len div rp_page_size r]) @ drop len (concat (sg_iovs dest))"
    and "expand_extents (rp_page_size r) (rr_extents rr) = map (\<lambda>i. (addr + i * rp_page_size r,
           block_value (rp_page_size r) (rp_journal r) (max H (rp_commit_lsn r')) (addr div rp_page_size r + i) = replicate (rp_page_size r) 0))
           [0..<len div rp_page_size r]"
    and "tiled (rp_page_size r) addr (addr + len) (rr_extents rr)"
proof -
  let ?r1 = "apply_up_to (ch_commit_lsn hdr) r"
  let ?r2 = "?r1\<lparr>rp_reads_served := rp_reads_served ?r1 + 1\<rparr>"
  let ?ps = "rp_page_size r"
  let ?n = "len div ?ps" and ?lba0 = "addr div ?ps"
  let ?bv = "\<lambda>i. block_value ?ps (rp_journal r) (max H (rp_commit_lsn ?r1)) (?lba0 + i)"
  have inv: "replica_inv ?r2" using assms(1) by (simp add: apply_up_to_inv inv_irrelevant)
  have al: "?lba0 * ?ps = addr" "?n * ?ps = len"
    using assms(2) by (auto simp: misaligned_def)
  have n: "u32 ?n = ?n" using assms(7) by simp
  have "(?lba0 + ?n) * ?ps = addr + len" using al by (simp add: add_mult_distrib)
  then have lim: "(?lba0 + ?n) * ?ps < 2 ^ 64" using assms(6) by simp
  have "(?lba0 + ?n) * 1 \<le> (?lba0 + ?n) * ?ps"
    using replica_invD(2) [OF assms(1)] by (intro mult_le_mono2) simp
  from le_less_trans [OF this lim] have lba: "?lba0 + ?n \<le> 2 ^ 64" by simp
  obtain layout cur where f: "fold (read_block ?r2 H ?lba0) [0..<?n] ([], (sg_iovs dest, 0, 0)) = (layout, cur)"
    and bytes: "concat (fst cur) = concat (map ?bv [0..<?n]) @ drop len (concat (sg_iovs dest))"
    using read_blocks_data [OF inv, of ?n "sg_iovs dest" ?lba0 H] assms(4,5) lba al(2) by auto
  have "expand_extents ?ps layout = map (\<lambda>i. ((?lba0 + i) * ?ps, ?bv i = replicate ?ps 0)) [0..<?n]"
    using read_blocks_layout [OF inv, of ?lba0 ?n H "(sg_iovs dest, 0, 0)"] lim f by simp
  moreover have "(?lba0 + i) * ?ps = addr + i * ?ps" for i using al(1) by (simp add: add_mult_distrib)
  ultimately have lay: "expand_extents ?ps layout = map (\<lambda>i. (addr + i * ?ps, ?bv i = replicate ?ps 0)) [0..<?n]"
    by simp
  have "do_read hdr H addr len dest r =
      (Inr \<lparr>rr_extents = layout, rr_lsns = peek_lsns ?r2\<rparr>, fst cur, ?r2)"
    using assms(2,3,4) f by (simp add: do_read_def read_range_def Let_def n)
  moreover have "tiled ?ps addr (addr + len) layout"
    using read_blocks_tiled [OF inv, of ?lba0 ?n H "(sg_iovs dest, 0, 0)"] lim f al
    by (simp add: add_mult_distrib)
  ultimately show ?thesis using that bytes lay by simp
qed

text \<open>C13: A read returns the right bytes, on a replica whose index is the replay of its committed
  prefix. After the piggybacked commit is applied, the caller's
  buffers hold, block by block, the highest non-Empty version at or below the larger of the
  read horizon and the replica's commit frontier (zeros where there is none), bytes past the
  range are untouched, and the returned extents list exactly the requested blocks with a hole
  for each block that reads as zeros. When the frontier is above the horizon this serves
  versions above the horizon: the index keeps no older version of an applied block.\<close>

theorem do_read_correct:
  assumes "replica_inv r" and "\<not> misaligned r addr len" and "ch_term hdr = rp_term r"
    and "len \<le> sg_size dest" and "sg_size dest = length (concat (sg_iovs dest))"
    and "addr + len < 2 ^ 64" and "len div rp_page_size r < 2 ^ 32"
  shows "\<exists>rr iovs r'. do_read hdr H addr len dest r = (Inr rr, iovs, r') \<and>
     (let ps = rp_page_size r; lba0 = addr div ps; n = len div ps;
          bv = (\<lambda>i. block_value ps (rp_journal r) (max H (rp_commit_lsn r')) (lba0 + i)) in
      concat iovs = concat (map bv [0..<n]) @ drop len (concat (sg_iovs dest)) \<and>
      expand_extents ps (rr_extents rr) = map (\<lambda>i. (addr + i * ps, bv i = replicate ps 0)) [0..<n])"
proof -
  from assms obtain rr iovs r' where *: "do_read hdr H addr len dest r = (Inr rr, iovs, r')"
    "concat iovs = concat (map (\<lambda>i. block_value (rp_page_size r) (rp_journal r) (max H (rp_commit_lsn r')) (addr div rp_page_size r + i))
       [0..<len div rp_page_size r]) @ drop len (concat (sg_iovs dest))"
    "expand_extents (rp_page_size r) (rr_extents rr) = map (\<lambda>i. (addr + i * rp_page_size r,
       block_value (rp_page_size r) (rp_journal r) (max H (rp_commit_lsn r')) (addr div rp_page_size r + i) = replicate (rp_page_size r) 0))
       [0..<len div rp_page_size r]"
    by (rule do_read_spec [of r addr len hdr dest H])
  then show ?thesis by (simp add: Let_def)
qed

theorem do_read_correct_witness:
  "\<exists>rr iovs r'. do_read hdr0 0 4 4 \<lparr>sg_size = 5, sg_iovs = [[1], [1, 1, 1, 9]]\<rparr> written0 = (Inr rr, iovs, r') \<and>
     concat iovs = [0, 0, 7, 8, 9] \<and> expand_extents 2 (rr_extents rr) = [(4, True), (6, False)]"
proof -
  have r': "rp_commit_lsn (snd (snd (do_read hdr0 0 4 4 \<lparr>sg_size = 5, sg_iovs = [[1], [1, 1, 1, 9]]\<rparr> written0))) = -1"
    by (simp add: do_read_def Let_def case_prod_beta apply_up_to_stop written0_simps hdr0_def)
  have "block_value 2 [(0, slot0)] 0 (Suc (Suc 0)) = [0, 0]"
    "block_value 2 [(0, slot0)] 0 (Suc (Suc (Suc 0))) = [7, 8]" "replicate 2 (0 :: byte) = [0, 0]"
    by (simp_all add: block_value_def winner_le_def om_upto_def covers_def slot0_def page_of_def bytes_at_def
        numeral_2_eq_2)
  then show ?thesis
    using do_read_correct [OF written0_inv, of 4 4 hdr0 "\<lparr>sg_size = 5, sg_iovs = [[1], [1, 1, 1, 9]]\<rparr>" 0] r'
    by (auto simp: misaligned_def written0_simps Let_def upt_rec)
qed

lemma winner_le_top:
  assumes "om_ok j" "map_of j d = Some s" "d \<le> U" "\<not> sl_is_empty s" "covers s x"
    and "\<forall>e \<in> set j. d < fst e \<and> fst e \<le> U \<longrightarrow> sl_is_empty (snd e) \<or> \<not> covers (snd e) x"
  shows "winner_le j U x = Some (d, s)"
proof -
  have "winner_le j d x = Some (d, s)"
    using winner_le_Suc [OF assms(1), of "d - 1" x] assms(2,4,5) by simp
  moreover have "find (\<lambda>e. \<not> sl_is_empty (snd e) \<and> covers (snd e) x)
      (rev (filter (\<lambda>e. d < fst e \<and> fst e \<le> U) j)) = None"
    using assms(6) by (auto simp: find_None_iff)
  ultimately show ?thesis using winner_le_mono [OF assms(1,3), of x] by simp
qed

lemma written_block:
  assumes "replica_inv r" "do_write hdr dlsn addr len (Some b) r = (Inr lsns, r')" "len div rp_page_size r < 2 ^ 32"
    "rp_commit_lsn r < dlsn" "addr < 2 ^ 64" "dlsn \<le> U" "i < len div rp_page_size r"
    and "\<forall>e \<in> set (rp_journal r). dlsn < fst e \<and> fst e \<le> U \<longrightarrow>
           sl_is_empty (snd e) \<or> \<not> covers (snd e) (addr div rp_page_size r + i)"
  shows "block_value (rp_page_size r') (rp_journal r') U (addr div rp_page_size r + i) =
     take (rp_page_size r) (drop (i * rp_page_size r) b)"
proof -
  let ?ps = "rp_page_size r"
  let ?s = "\<lparr>sl_term = ch_term hdr, sl_lba = addr div ?ps, sl_len = u32 (len div ?ps), sl_all_zeros = False,
     sl_is_empty = False, sl_bytes = Some b\<rparr>"
  from assms(2) have b: "length b = len" and j: "rp_journal r' = om_put dlsn ?s (rp_journal r)"
    and ps: "rp_page_size r' = ?ps"
    by (auto simp: do_write_def Let_def split: if_splits option.splits)
  have ok: "om_ok (rp_journal r)" by (rule replica_invD(1) [OF assms(1)])
  have "slot_wf ?ps ?s"
    using do_write_slot_wf [OF inv_journal [OF assms(1)] assms(5), where bytes = "Some b" and len = len] b by simp
  then have "covers ?s (addr div ?ps + i)"
    using assms(3,7) by (simp add: covers_wf)
  moreover have "\<forall>e \<in> set (rp_journal r'). dlsn < fst e \<and> fst e \<le> U \<longrightarrow>
      sl_is_empty (snd e) \<or> \<not> covers (snd e) (addr div ?ps + i)"
    using assms(8) om_put_mem [OF ok] unfolding j by fastforce
  ultimately have "winner_le (rp_journal r') U (addr div ?ps + i) = Some (dlsn, ?s)"
    using assms(6) ok by (intro winner_le_top) (simp_all add: j)
  then show ?thesis
    by (simp add: block_value_def ps page_of_def bytes_at_def)
qed

text \<open>C30: A stored write is what later reads see: after an accepted write of \<open>b\<close> at \<open>dlsn\<close>, at every
  horizon that reaches \<open>dlsn\<close>, each block of the range has its page of \<open>b\<close>, unless a non-Empty
  slot between \<open>dlsn\<close> and the horizon also covers it.\<close>

theorem do_write_read_back:
  assumes "replica_inv r" "do_write hdr dlsn addr len (Some b) r = (Inr lsns, r')" "len div rp_page_size r < 2 ^ 32"
    "rp_commit_lsn r < dlsn" "addr < 2 ^ 64" "dlsn \<le> U" "i < len div rp_page_size r"
    and "\<forall>e \<in> set (rp_journal r). dlsn < fst e \<and> fst e \<le> U \<longrightarrow>
           sl_is_empty (snd e) \<or> \<not> covers (snd e) (addr div rp_page_size r + i)"
  shows "block_value (rp_page_size r') (rp_journal r') U (addr div rp_page_size r + i) =
     take (rp_page_size r) (drop (i * rp_page_size r) b)"
  by (rule written_block [OF assms])

theorem do_write_read_back_witness:
  "block_value 2 (rp_journal written0) 5 3 = [7, 8]"
  using do_write_read_back [OF fresh0_inv written0_write [folded numeral_One], of 5 0]
  by (simp add: written0_simps fresh0_def make_replica_def)

text \<open>C33: The fence: an operation that carries another term than the session's is refused and
  changes nothing, neither the replica nor the caller's buffers.\<close>

theorem stale_term_fenced:
  assumes "ch_term hdr \<noteq> rp_term r"
  shows "snd (do_write hdr dlsn addr len bytes r) = r \<and>
     fst (do_write hdr dlsn addr len bytes r) \<in> {Inl (Craft STALE_TERM), Inl (Errc invalid_argument)} \<and>
     snd (do_read hdr H addr len dest r) = (sg_iovs dest, r) \<and>
     fst (do_read hdr H addr len dest r) \<in> {Inl (Craft STALE_TERM), Inl (Errc invalid_argument)} \<and>
     do_keep_alive hdr r = (Inl (Craft STALE_TERM), r) \<and>
     do_resolve_local hdr lim r = (Inl (Craft STALE_TERM), r)"
  using assms by (simp add: do_write_def do_read_def do_keep_alive_def do_resolve_local_def)

theorem stale_term_fenced_witness:
  "do_keep_alive (hdr0\<lparr>ch_term := 3\<rparr>) written0 = (Inl (Craft STALE_TERM), written0)"
  using stale_term_fenced [of "hdr0\<lparr>ch_term := 3\<rparr>" written0] by (simp add: written0_simps)

lemma empty_stays:
  assumes "replica_inv r" "map_of (rp_journal r) d = Some s" "sl_is_empty s"
  shows "\<exists>s'. map_of (rp_journal (snd (do_resolve_local hdr lim r))) d = Some s' \<and> sl_is_empty s'"
proof (cases "ch_term hdr = rp_term r")
  case True
  from do_resolve_local_spec [OF assms(1) True, of lim] obtain e r' where
    "do_resolve_local hdr lim r = (e, r')" "map_of (rp_journal r') d = map_of (rp_journal r) d"
    using assms(2) by (metis option.distinct(1))
  then show ?thesis using assms by simp
next
  case False
  then show ?thesis using assms by (simp add: do_resolve_local_def)
qed

text \<open>C31: An Empty verdict is permanent: writes into the slot are rejected and change nothing, and
  no client operation, resolution, sync or fetched copy turns the slot back into data.\<close>

theorem empty_verdict_permanent:
  assumes "replica_inv r" "map_of (rp_journal r) d = Some s" "sl_is_empty s"
  shows "snd (do_write hdr d addr len bytes r) = r \<and> (\<exists>e. fst (do_write hdr d addr len bytes r) = Inl e) \<and>
     (\<forall>r' \<in> {snd (do_write hdr dlsn addr len bytes r), snd (snd (do_read hdr H addr len dest r)),
             snd (do_keep_alive hdr r), snd (do_resolve_local hdr lim r), cold_apply_sync rs r,
             cold_install_slot dlsn slot r, cold_mark_empty dlsn r}.
        \<exists>s'. map_of (rp_journal r') d = Some s' \<and> sl_is_empty s')"
  using assms empty_stays [OF assms, of hdr lim]
  by (auto simp: do_write_def do_read_def do_keep_alive_def cold_apply_sync_def cold_install_slot_def
      cold_mark_empty_def empty_slot_def Let_def case_prod_beta)

theorem empty_verdict_permanent_witness:
  "snd (do_write hdr0 0 6 2 (Some [7, 8]) (cold_mark_empty 0 written0)) = cold_mark_empty 0 written0"
proof -
  have "replica_inv (cold_mark_empty 0 written0)"
    using replica_step_inv [OF step_mark_empty written0_inv, of 0] by (simp add: written0_simps)
  from empty_verdict_permanent [OF this, of 0 "empty_slot 0"] show ?thesis
    by (simp add: cold_mark_empty_def written0_simps empty_slot_def)
qed

text \<open>C32: The standalone resolution round leaves nothing unresolved: it commits everything up to
  the requested dLSN, reports exactly the slots of that range that hold no data, and writes a
  tombstone into each absent one while leaving every held slot as it was.\<close>

theorem do_resolve_local_complete:
  assumes "replica_inv r" "ch_term hdr = rp_term r"
  shows "\<exists>r'. do_resolve_local hdr lim r =
       (Inr \<lparr>rs_resolved_upto = lim,
             rs_empty_slots = filter (unresolved_at r) [rp_commit_lsn r + 1..lim]\<rparr>, r') \<and>
     rp_commit_lsn r' = max (rp_commit_lsn r) lim \<and>
     (\<forall>d. map_of (rp_journal r') d =
       (if rp_commit_lsn r < d \<and> d \<le> lim \<and> map_of (rp_journal r) d = None
        then Some (empty_slot (rp_term r)) else map_of (rp_journal r) d))"
  using do_resolve_local_spec [OF assms, of lim] by metis

theorem do_resolve_local_complete_witness:
  "\<exists>r'. do_resolve_local hdr0 2 written0 = (Inr \<lparr>rs_resolved_upto = 2, rs_empty_slots = [1, 2]\<rparr>, r') \<and>
     rp_commit_lsn r' = 2"
proof -
  have "filter (unresolved_at written0) [0..2] = [1, 2]"
    by (simp add: unresolved_at_def written0_simps slot0_def upto_rec1)
  then show ?thesis
    using do_resolve_local_complete [OF written0_inv, of hdr0 2] by (auto simp: written0_simps)
qed

text \<open>The observability report is exact: \<open>missing_count\<close> is the number of dLSNs between the
  commit frontier and the last append that have no journal slot, computed by subtraction, and
  the sample lists the first sixteen of them in order.\<close>

lemma stats_missing_exact:
  assumes "replica_inv r"
  shows "st_missing_count (stats r) =
       card {d. rp_commit_lsn r < d \<and> d \<le> rp_last_append_lsn r \<and> map_of (rp_journal r) d = None} \<and>
     st_missing_sample (stats r) =
       take 16 (filter (\<lambda>d. map_of (rp_journal r) d = None) [rp_commit_lsn r + 1..rp_last_append_lsn r])"
proof -
  let ?gaps = "filter (\<lambda>d. map_of (rp_journal r) d = None) [rp_commit_lsn r + 1..rp_last_append_lsn r]"
  have "length ?gaps = card (set ?gaps)" using distinct_card [of ?gaps] by simp
  also have "set ?gaps = {d. rp_commit_lsn r < d \<and> d \<le> rp_last_append_lsn r \<and> map_of (rp_journal r) d = None}"
    by auto
  finally show ?thesis
    by (simp add: stats_def missing_spec [OF replica_invD(1) [OF assms]] Let_def k_missing_sample_def)
qed

end
