(* ===== verification/Server.thy ===== *)
theory Server
  imports Conn Replica
begin

text \<open>
  The part of a request handler that the TCP server (\<open>src/net/tcp_server.cpp\<close>) and the cluster
  server (\<open>src/net/cluster_server.cpp\<close>) have in common: decode the operation header, run the
  synchronous core of the replica, and frame its answer. A handler's reply is a \<open>frame\<close>, the
  arguments of the call of \<open>frame_message\<close> whose bytes go to \<open>send_all\<close>.
\<close>

section \<open>Decoding\<close>

definition io_hdr :: "nat \<Rightarrow> req_hdr \<Rightarrow> client_hdr" where
  "io_hdr trm h = \<lparr>ch_term = trm, ch_commit_lsn = sint (rh_commit_lsn h), ch_all_committed_lsn = sint (rh_all_committed_lsn h),
     ch_client_token = 0\<rparr>"

text \<open>An empty body is a zero write.\<close>

definition body_bytes :: "byte list \<Rightarrow> byte list option" where
  "body_bytes body = (if body = [] then None else Some body)"

section \<open>Framing\<close>

definition reply_of :: "message \<Rightarrow> wire_op \<Rightarrow> wire_status \<Rightarrow> byte list \<Rightarrow> byte list \<Rightarrow> frame" where
  "reply_of req opc code hdr body =
     \<lparr>fr_op = opc, fr_status = status_code code, fr_rid = mh_request_id (ms_hdr req), fr_hdr = hdr, fr_body = body\<rparr>"

definition write_rsp_of :: "lsn_pair \<Rightarrow> byte list" where
  "write_rsp_of l = put_write_rsp \<lparr>wp_commit_lsn = word_of_int (lp_commit_lsn l), wp_last_append_lsn = word_of_int (lp_last_append_lsn l)\<rparr>"

definition keepalive_rsp_of :: "lsn_pair \<Rightarrow> byte list" where
  "keepalive_rsp_of l = put_keepalive_rsp \<lparr>kp_commit_lsn = word_of_int (lp_commit_lsn l), kp_last_append_lsn = word_of_int (lp_last_append_lsn l)\<rparr>"

definition read_rsp_of :: "lsn_pair \<Rightarrow> nat \<Rightarrow> byte list" where
  "read_rsp_of l n = put_read_rsp \<lparr>rdp_commit_lsn = word_of_int (lp_commit_lsn l), rdp_last_append_lsn = word_of_int (lp_last_append_lsn l),
     rdp_extent_count = word_of_nat n, rdp_reserved = 0\<rparr>"

definition resolve_rsp_of :: "int \<Rightarrow> nat \<Rightarrow> byte list" where
  "resolve_rsp_of lim n = put_resolve_rsp \<lparr>sp_resolved_upto = word_of_int lim, sp_empty_count = word_of_nat n, sp_reserved = 0\<rparr>"

definition desc_of_extent :: "io_extent \<Rightarrow> extent_desc" where
  "desc_of_extent e = \<lparr>ed_addr = word_of_nat (ie_addr e), ed_len = word_of_nat (ie_len e), ed_hole = (if ie_hole e then 1 else 0),
     ed_reserved = replicate 7 0\<rparr>"

text \<open>The extent table, then the bytes of the extents that are not holes.\<close>

definition extent_bytes :: "nat \<Rightarrow> byte list \<Rightarrow> io_extent \<Rightarrow> byte list" where
  "extent_bytes addr dest_buf e = (if ie_hole e then [] else bytes_at (sub64 (ie_addr e) addr) (ie_len e) dest_buf)"

definition read_body :: "nat \<Rightarrow> io_extent list \<Rightarrow> byte list \<Rightarrow> byte list" where
  "read_body addr layout dest_buf =
     concat (map (put_extent_desc \<circ> desc_of_extent) layout) @ concat (map (extent_bytes addr dest_buf) layout)"

definition resolve_body :: "int list \<Rightarrow> byte list" where
  "resolve_body empties = concat (map (\<lambda>d. put_u64 (word_of_int d)) empties)"

section \<open>The cores behind a frame\<close>

text \<open>The status, the watermarks of the reply and the replica afterwards.\<close>

definition write_core :: "nat \<Rightarrow> message \<Rightarrow> MemCraftReplica \<Rightarrow> wire_status \<times> lsn_pair \<times> MemCraftReplica" where
  "write_core trm req r =
     (let wr = get_write_req (ms_op_header req) in
      case do_write (io_hdr trm (wq_hdr wr)) (sint (wq_dlsn wr)) (unat (wq_addr wr)) (unat (wq_len wr)) (body_bytes (ms_body req)) r of
        (Inl e, r') \<Rightarrow> (to_wire_status e, peek_lsns r', r')
      | (Inr p, r') \<Rightarrow> (St_ok, p, r'))"

text \<open>The status, the operation header and the body of the reply, and the replica afterwards.\<close>

definition read_core :: "nat \<Rightarrow> message \<Rightarrow> MemCraftReplica \<Rightarrow> wire_status \<times> byte list \<times> byte list \<times> MemCraftReplica" where
  "read_core trm req r =
     (let rr = get_read_req (ms_op_header req); addr = unat (rq_addr rr); len = unat (rq_len rr) in
      case do_read (io_hdr trm (rq_hdr rr)) (sint (rq_read_lsn rr)) addr len \<lparr>sg_size = len, sg_iovs = [replicate len 0]\<rparr> r of
        (Inl e, bufs, r') \<Rightarrow> (to_wire_status e, read_rsp_of (peek_lsns r') 0, [], r')
      | (Inr res, bufs, r') \<Rightarrow>
          (St_ok, read_rsp_of (rr_lsns res) (length (rr_extents res)), read_body addr (rr_extents res) (hd bufs), r'))"

definition no_lsns :: lsn_pair where
  "no_lsns = \<lparr>lp_commit_lsn = -1, lp_last_append_lsn = -1\<rparr>"

definition zero_lsns :: lsn_pair where
  "zero_lsns = \<lparr>lp_commit_lsn = 0, lp_last_append_lsn = 0\<rparr>"

definition keep_alive_core :: "nat \<Rightarrow> message \<Rightarrow> MemCraftReplica \<Rightarrow> wire_status \<times> lsn_pair \<times> MemCraftReplica" where
  "keep_alive_core trm req r =
     (case do_keep_alive (io_hdr trm (kq_hdr (get_keepalive_req (ms_op_header req)))) r of
        (Inl e, r') \<Rightarrow> (to_wire_status e, no_lsns, r')
      | (Inr p, r') \<Rightarrow> (St_ok, p, r'))"

definition resolve_frame :: "message \<Rightarrow> resolution_result result \<Rightarrow> frame" where
  "resolve_frame req res =
     (case res of
        Inl e \<Rightarrow> reply_of req Op_resolve_rsp (to_wire_status e) (resolve_rsp_of 0 0) []
      | Inr r \<Rightarrow> reply_of req Op_resolve_rsp St_ok (resolve_rsp_of (rs_resolved_upto r) (length (rs_empty_slots r)))
                   (resolve_body (rs_empty_slots r)))"

end
