(* ===== verification/Cluster.thy ===== *)
theory Cluster
  imports Replica
begin

text \<open>
  The in-process replica set (\<open>src/mem/cluster.hpp\<close>, \<open>src/mem/cluster.cpp\<close>) and the delivery of
  operations to a replica, over the transport's server pools and over the caller's ring
  (\<open>src/mem/replica.cpp\<close>): login, logout and the leader's resolution round.

  The replicas live in the transport's map \<open>by_id_\<close>, keyed by their id. An operation that
  suspends is split where it suspends: what is decided when it is issued, and what happens
  when it arrives, on whatever state the replica has then. A timed-out write has two
  arrivals: the caller's timeout and the late delivery.
\<close>

section \<open>State\<close>

record MemTransport =
  mt_members :: "replica_endpoint list"
  mt_by_id :: "(peer_id \<times> MemCraftReplica) list"
  mt_leader :: peer_id
  mt_term :: nat
  mt_lba_size :: nat
  mt_capacity :: nat
  mt_max_tx :: nat
  mt_op_timeout :: int

definition quorum :: "nat \<Rightarrow> nat" where
  "quorum n = n div 2 + 1"

definition make_transport :: "replica_endpoint list \<Rightarrow> nat \<Rightarrow> nat \<Rightarrow> nat \<Rightarrow> MemTransport" where
  "make_transport members lba_size capacity max_tx =
     \<lparr>mt_members = members, mt_by_id = [], mt_leader = (case members of [] \<Rightarrow> replicate 16 0 | m # _ \<Rightarrow> ep_id m),
      mt_term = 0, mt_lba_size = lba_size, mt_capacity = capacity, mt_max_tx = max_tx, mt_op_timeout = 0\<rparr>"

definition replica_for :: "MemTransport \<Rightarrow> peer_id \<Rightarrow> MemCraftReplica option" where
  "replica_for t pid = map_of (mt_by_id t) pid"

text \<open>A call \<open>r->f()\<close> on the replica registered under \<open>pid\<close>, and on each of several.\<close>

definition on_replica :: "peer_id \<Rightarrow> (MemCraftReplica \<Rightarrow> MemCraftReplica) \<Rightarrow> MemTransport \<Rightarrow> MemTransport" where
  "on_replica pid f t = t\<lparr>mt_by_id := map (\<lambda>(k, r). (k, if k = pid then f r else r)) (mt_by_id t)\<rparr>"

definition for_each :: "peer_id list \<Rightarrow> (MemCraftReplica \<Rightarrow> MemCraftReplica) \<Rightarrow> MemTransport \<Rightarrow> MemTransport" where
  "for_each ids f t = fold (\<lambda>pid. on_replica pid f) ids t"

definition register_replica :: "MemCraftReplica \<Rightarrow> MemTransport \<Rightarrow> MemTransport" where
  "register_replica r t =
     t\<lparr>mt_by_id := filter (\<lambda>e. fst e \<noteq> ep_id (rp_ep r)) (mt_by_id t) @ [(ep_id (rp_ep r), r)]\<rparr>"

definition set_leader :: "peer_id \<Rightarrow> MemTransport \<Rightarrow> MemTransport" where
  "set_leader pid t = t\<lparr>mt_leader := pid\<rparr>"

section \<open>Fault forwarders\<close>

definition net_is_up :: "MemTransport \<Rightarrow> peer_id \<Rightarrow> bool" where
  "net_is_up t pid = (case replica_for t pid of None \<Rightarrow> True | Some r \<Rightarrow> rf_up (rp_faults r))"

definition net_write_allowed :: "MemTransport \<Rightarrow> peer_id \<Rightarrow> bool" where
  "net_write_allowed t pid = (case replica_for t pid of None \<Rightarrow> True | Some r \<Rightarrow> rf_write_ok (rp_faults r))"

definition net_delay_for :: "MemTransport \<Rightarrow> peer_id \<Rightarrow> int" where
  "net_delay_for t pid = (case replica_for t pid of None \<Rightarrow> 0 | Some r \<Rightarrow> rf_delay (rp_faults r))"

definition net_set_up :: "peer_id \<Rightarrow> bool \<Rightarrow> MemTransport \<Rightarrow> MemTransport" where
  "net_set_up pid up t = on_replica pid (set_up up) t"

definition force_subquorum :: "peer_id list \<Rightarrow> MemTransport \<Rightarrow> MemTransport" where
  "force_subquorum keep t =
     fold (\<lambda>m. on_replica (ep_id m) (drop_writes (ep_id m \<notin> set keep))) (mt_members t) t"

definition net_clear_faults :: "MemTransport \<Rightarrow> MemTransport" where
  "net_clear_faults t = for_each (map ep_id (mt_members t)) clear_faults t"

definition net_set_delay :: "peer_id \<Rightarrow> int \<Rightarrow> MemTransport \<Rightarrow> MemTransport" where
  "net_set_delay pid d t = on_replica pid (set_delay d) t"

definition set_op_timeout :: "int \<Rightarrow> MemTransport \<Rightarrow> MemTransport" where
  "set_op_timeout d t = t\<lparr>mt_op_timeout := (if 0 < d then d else 0)\<rparr>"

section \<open>Delivery\<close>

record delivery =
  dv_wait :: int
  dv_deliver :: int
  dv_timed_out :: bool

definition plan_delivery :: "int \<Rightarrow> int \<Rightarrow> delivery" where
  "plan_delivery delay op_timeout =
     (if delay \<le> 0 then \<lparr>dv_wait = 0, dv_deliver = 0, dv_timed_out = False\<rparr>
      else if 0 < op_timeout \<and> op_timeout \<le> delay
        then \<lparr>dv_wait = op_timeout, dv_deliver = delay, dv_timed_out = True\<rparr>
      else \<lparr>dv_wait = delay, dv_deliver = 0, dv_timed_out = False\<rparr>)"

text \<open>What a verb did when it was issued: it failed at once, or it is on the wire.\<close>

datatype 'a issued = Rejected error_condition | InFlight delivery 'a

definition payload_of :: "sg_list \<Rightarrow> byte list option" where
  "payload_of data = (if sg_size data = 0 then None else Some (take_payload data))"

definition send_write_issue :: "replica_faults \<Rightarrow> int \<Rightarrow> sg_list \<Rightarrow> byte list option issued" where
  "send_write_issue rf op_timeout data =
     (if \<not> rf_up rf \<or> \<not> rf_write_ok rf then Rejected (Craft REPLICA_DOWN)
      else InFlight (plan_delivery (rf_delay rf) op_timeout) (payload_of data))"

definition send_write_reply ::
  "delivery \<Rightarrow> client_hdr \<Rightarrow> int \<Rightarrow> nat \<Rightarrow> nat \<Rightarrow> byte list option \<Rightarrow> MemCraftReplica
     \<Rightarrow> lsn_pair result \<times> MemCraftReplica" where
  "send_write_reply p hdr dlsn addr len bytes r =
     (if dv_timed_out p then (Inl (Errc timed_out), r)
      else if \<not> rf_up (rp_faults r) \<or> \<not> rf_write_ok (rp_faults r) then (Inl (Craft REPLICA_DOWN), r)
      else do_write hdr dlsn addr len bytes r)"

definition send_write_late ::
  "client_hdr \<Rightarrow> int \<Rightarrow> nat \<Rightarrow> nat \<Rightarrow> byte list option \<Rightarrow> MemCraftReplica \<Rightarrow> MemCraftReplica" where
  "send_write_late hdr dlsn addr len bytes r =
     (if \<not> rf_up (rp_faults r) \<or> \<not> rf_write_ok (rp_faults r) then r
      else snd (do_write hdr dlsn addr len bytes r))"

definition send_read_issue :: "replica_faults \<Rightarrow> int \<Rightarrow> unit issued" where
  "send_read_issue rf op_timeout =
     (if \<not> rf_up rf then Rejected (Craft REPLICA_DOWN)
      else InFlight (plan_delivery (rf_delay rf) op_timeout) ())"

definition send_read_reply ::
  "delivery \<Rightarrow> client_hdr \<Rightarrow> int \<Rightarrow> nat \<Rightarrow> nat \<Rightarrow> sg_list \<Rightarrow> MemCraftReplica
     \<Rightarrow> read_result result \<times> byte list list \<times> MemCraftReplica" where
  "send_read_reply p hdr read_lsn addr len dest r =
     (if dv_timed_out p then (Inl (Errc timed_out), sg_iovs dest, r)
      else if \<not> rf_up (rp_faults r) then (Inl (Craft REPLICA_DOWN), sg_iovs dest, r)
      else do_read hdr read_lsn addr len dest r)"

definition send_keep_alive_issue :: "replica_faults \<Rightarrow> int \<Rightarrow> unit issued" where
  "send_keep_alive_issue rf op_timeout =
     (if \<not> rf_up rf then Rejected (Craft REPLICA_DOWN)
      else InFlight (plan_delivery (rf_delay rf) op_timeout) ())"

definition send_keep_alive_reply ::
  "delivery \<Rightarrow> client_hdr \<Rightarrow> MemCraftReplica \<Rightarrow> lsn_pair result \<times> MemCraftReplica" where
  "send_keep_alive_reply p hdr r =
     (if dv_timed_out p then (Inl (Errc timed_out), r)
      else if \<not> rf_up (rp_faults r) then (Inl (Craft REPLICA_DOWN), r)
      else do_keep_alive hdr r)"

text \<open>
  The same verbs over the caller's ring. \<open>net_op_timeout\<close> is \<open>None\<close> when the replica has no
  transport. The wait is a ring timer of that many milliseconds.
\<close>

definition ring_times_out :: "int \<Rightarrow> int \<Rightarrow> bool" where
  "ring_times_out delay op_to \<longleftrightarrow> 0 < delay \<and> 0 < op_to \<and> op_to \<le> delay"

definition ring_write_issue :: "int option \<Rightarrow> replica_faults \<Rightarrow> sg_list \<Rightarrow> byte list option issued" where
  "ring_write_issue net_op_timeout rf data =
     (case net_op_timeout of
        None \<Rightarrow> Rejected (Craft NO_QUORUM)
      | Some op_to \<Rightarrow>
          if \<not> rf_up rf \<or> \<not> rf_write_ok rf then Rejected (Craft REPLICA_DOWN)
          else let bytes = (if sg_size data = 0 then None else Some (take_payload data)) in
            if ring_times_out (rf_delay rf) op_to
            then InFlight \<lparr>dv_wait = op_to, dv_deliver = rf_delay rf, dv_timed_out = True\<rparr> bytes
            else InFlight \<lparr>dv_wait = rf_delay rf, dv_deliver = 0, dv_timed_out = False\<rparr> bytes)"

definition ring_read_issue :: "int option \<Rightarrow> replica_faults \<Rightarrow> unit issued" where
  "ring_read_issue net_op_timeout rf =
     (case net_op_timeout of
        None \<Rightarrow> Rejected (Craft NO_QUORUM)
      | Some op_to \<Rightarrow>
          if \<not> rf_up rf then Rejected (Craft REPLICA_DOWN)
          else let late = ring_times_out (rf_delay rf) op_to in
            InFlight \<lparr>dv_wait = (if late then op_to else rf_delay rf), dv_deliver = (if late then rf_delay rf else 0),
                      dv_timed_out = late\<rparr> ())"

text \<open>The arrivals, which re-read the faults: a write, the late write, a read, a keep-alive.\<close>

definition ring_write_reply ::
  "delivery \<Rightarrow> client_hdr \<Rightarrow> int \<Rightarrow> nat \<Rightarrow> nat \<Rightarrow> byte list option \<Rightarrow> MemCraftReplica
     \<Rightarrow> lsn_pair result \<times> MemCraftReplica" where
  "ring_write_reply p hdr dlsn addr len bytes r =
     (if dv_timed_out p then (Inl (Errc timed_out), r)
      else let rf2 = rp_faults r in
        if \<not> rf_up rf2 \<or> \<not> rf_write_ok rf2 then (Inl (Craft REPLICA_DOWN), r)
        else do_write hdr dlsn addr len bytes r)"

definition late_write ::
  "client_hdr \<Rightarrow> int \<Rightarrow> nat \<Rightarrow> nat \<Rightarrow> byte list option \<Rightarrow> MemCraftReplica \<Rightarrow> MemCraftReplica" where
  "late_write hdr dlsn addr len bytes r =
     (if rf_up (rp_faults r) \<and> rf_write_ok (rp_faults r) then snd (do_write hdr dlsn addr len bytes r) else r)"

section \<open>Login, resolution, logout\<close>

definition live_replicas :: "MemTransport \<Rightarrow> peer_id list" where
  "live_replicas t =
     filter (\<lambda>pid. case replica_for t pid of None \<Rightarrow> False | Some r \<Rightarrow> rf_up (rp_faults r))
       (map ep_id (mt_members t))"

text \<open>The calling replica is registered, so its knob is the one found under its pid.\<close>

definition caller_up :: "MemTransport \<Rightarrow> peer_id \<Rightarrow> bool" where
  "caller_up t pid = (case replica_for t pid of None \<Rightarrow> False | Some r \<Rightarrow> rf_up (rp_faults r))"

definition redirect_login :: "peer_id \<Rightarrow> LoginResult" where
  "redirect_login leader = \<lparr>lr_members = [], lr_dLSN = -1, lr_term = 0, lr_lba_size = 0, lr_capacity = 0,
     lr_leader_hint = leader, lr_max_tx = unat k_default_max_tx\<rparr>"

definition rs_commit :: "MemTransport \<Rightarrow> peer_id list \<Rightarrow> int" where
  "rs_commit t live =
     fold (\<lambda>pid rs. case replica_for t pid of None \<Rightarrow> rs | Some r \<Rightarrow> max rs (lp_last_append_lsn (peek_lsns r)))
       live (- 1)"

definition run_login :: "peer_id \<Rightarrow> nat \<Rightarrow> MemTransport \<Rightarrow> LoginResult result \<times> MemTransport" where
  "run_login caller client_token t =
     (if \<not> caller_up t caller then (Inl (Craft REPLICA_DOWN), t)
      else if caller \<noteq> mt_leader t then (Inr (redirect_login (mt_leader t)), t)
      else let live = live_replicas t in
        if length live < quorum (length (mt_members t)) then (Inl (Craft NO_QUORUM), t)
        else let nt = mt_term t + 1;
                 t1 = t\<lparr>mt_term := nt\<rparr>;
                 rs = rs_commit t1 live;
                 t2 = for_each live (cold_apply_sync rs) t1;
                 t3 = for_each live (cold_apply_login client_token nt) t2;
                 t4 = for_each live (\<lambda>r. if rs < lp_last_append_lsn (peek_lsns r) then cold_truncate_above rs r else r) t3
             in (Inr \<lparr>lr_members = mt_members t, lr_dLSN = rs, lr_term = nt, lr_lba_size = mt_lba_size t,
                      lr_capacity = mt_capacity t, lr_leader_hint = replicate 16 0, lr_max_tx = mt_max_tx t\<rparr>, t4))"

text \<open>One pass over the slots the live members hold at a dLSN: a verdict ends the pass.\<close>

fun scan_slots :: "MemJournalSlot option list \<Rightarrow> MemJournalSlot option \<Rightarrow> bool \<times> MemJournalSlot option" where
  "scan_slots [] copy = (False, copy)"
| "scan_slots (None # ss) copy = scan_slots ss copy"
| "scan_slots (Some s # ss) copy =
     (if sl_is_empty s then (True, copy)
      else scan_slots ss (case copy of None \<Rightarrow> Some s | Some c \<Rightarrow> Some c))"

definition slots_at :: "MemTransport \<Rightarrow> peer_id list \<Rightarrow> int \<Rightarrow> MemJournalSlot option list" where
  "slots_at t live d = map (\<lambda>pid. Option.bind (replica_for t pid) (peek_slot d)) live"

definition resolve_one :: "peer_id list \<Rightarrow> int \<Rightarrow> MemTransport \<Rightarrow> MemTransport" where
  "resolve_one live d t =
     (case scan_slots (slots_at t live d) None of
        (False, Some copy) \<Rightarrow>
          for_each live (\<lambda>r. if peek_slot d r = None then cold_install_slot d copy r else r) t
      | _ \<Rightarrow> for_each live (cold_mark_empty d) t)"

definition live_floor :: "MemTransport \<Rightarrow> peer_id list \<Rightarrow> int" where
  "live_floor t live =
     fold (\<lambda>pid fl. case replica_for t pid of None \<Rightarrow> fl | Some r \<Rightarrow> min fl (lp_commit_lsn (peek_lsns r)))
       live (2 ^ 63 - 1)"

definition run_resolution ::
  "peer_id \<Rightarrow> nat \<Rightarrow> int \<Rightarrow> MemTransport \<Rightarrow> resolution_result result \<times> MemTransport" where
  "run_resolution caller trm lim t =
     (if \<not> caller_up t caller then (Inl (Craft REPLICA_DOWN), t)
      else if caller \<noteq> mt_leader t then (Inl (Craft NOT_LEADER), t)
      else if trm \<noteq> mt_term t then (Inl (Craft STALE_TERM), t)
      else let live = live_replicas t in
        if length live < quorum (length (mt_members t)) then (Inl (Craft NO_QUORUM), t)
        else let t1 = fold (resolve_one live) [live_floor t live + 1..lim] t;
                 t2 = for_each live (cold_apply_sync lim) t1
             in (Inr \<lparr>rs_resolved_upto = lim,
                      rs_empty_slots = (case replica_for t2 caller of None \<Rightarrow> [] | Some r \<Rightarrow> peek_empties lim r)\<rparr>, t2))"

definition run_logout :: "peer_id \<Rightarrow> MemTransport \<Rightarrow> unit result \<times> MemTransport" where
  "run_logout caller t =
     (if \<not> caller_up t caller then (Inl (Craft REPLICA_DOWN), t)
      else if caller \<noteq> mt_leader t then (Inl (Craft NOT_LEADER), t)
      else (Inr (), for_each (live_replicas t) cold_apply_logout t))"

section \<open>The verbs that reach the transport through a replica\<close>

text \<open>\<open>t = None\<close> is a replica built without a transport.\<close>

definition replica_login ::
  "peer_id \<Rightarrow> nat \<Rightarrow> MemTransport option \<Rightarrow> LoginResult result \<times> MemTransport option" where
  "replica_login self client_token t =
     (case t of
        None \<Rightarrow> (Inl (Craft NO_QUORUM), None)
      | Some n \<Rightarrow> if \<not> caller_up n self then (Inl (Craft REPLICA_DOWN), t)
                  else let (res, n') = run_login self client_token n in (res, Some n'))"

definition replica_logout ::
  "peer_id \<Rightarrow> client_hdr \<Rightarrow> nat \<Rightarrow> MemTransport option \<Rightarrow> unit result \<times> MemTransport option" where
  "replica_logout self hdr own_term t =
     (if (case t of None \<Rightarrow> False | Some n \<Rightarrow> \<not> caller_up n self) then (Inl (Craft REPLICA_DOWN), t)
      else if ch_term hdr \<noteq> own_term then (Inl (Craft STALE_TERM), t)
      else (case t of
              None \<Rightarrow> (Inr (), None)
            | Some n \<Rightarrow> let (res, n') = run_logout self n in (res, Some n')))"

definition replica_request_resolution ::
  "peer_id \<Rightarrow> client_hdr \<Rightarrow> nat \<Rightarrow> int \<Rightarrow> MemTransport option \<Rightarrow> resolution_result result \<times> MemTransport option" where
  "replica_request_resolution self hdr own_term lim t =
     (case t of
        None \<Rightarrow> (Inl (Craft NO_QUORUM), None)
      | Some n \<Rightarrow>
          if \<not> caller_up n self then (Inl (Craft REPLICA_DOWN), t)
          else if ch_term hdr \<noteq> own_term then (Inl (Craft STALE_TERM), t)
          else let (res, n') = run_resolution self (ch_term hdr) lim n in (res, Some n'))"

section \<open>The group factory\<close>

unbundle bit_operations_syntax

definition mem_replica_id :: "peer_id \<Rightarrow> 32 word \<Rightarrow> peer_id" where
  "mem_replica_id vol_id index =
     vol_id[12 := vol_id ! 12 XOR ucast (index AND 0xff),
            13 := vol_id ! 13 XOR ucast (drop_bit 8 index AND 0xff),
            14 := vol_id ! 14 XOR ucast (drop_bit 16 index AND 0xff),
            15 := vol_id ! 15 XOR ucast (drop_bit 24 index AND 0xff)]"

text \<open>\<open>addr_of i\<close> is the decimal endpoint name of replica \<open>i\<close>; nothing depends on it.\<close>

definition make_mem_replica_group ::
  "(nat \<Rightarrow> byte list) \<Rightarrow> peer_id \<Rightarrow> nat \<Rightarrow> nat \<Rightarrow> nat \<Rightarrow> nat \<Rightarrow> MemTransport" where
  "make_mem_replica_group addr_of vol_id n page_size capacity max_tx =
     (let members = map (\<lambda>i. \<lparr>ep_id = mem_replica_id vol_id (word_of_nat i), ep_addr = addr_of i\<rparr>) [0..<n]
      in fold (\<lambda>m. register_replica (make_replica m page_size)) members
           (make_transport members page_size capacity max_tx))"

section \<open>Specification vocabulary\<close>

definition replica_ok :: "MemTransport \<Rightarrow> MemCraftReplica \<Rightarrow> bool" where
  "replica_ok t r \<longleftrightarrow> replica_inv r \<and> rp_page_size r = mt_lba_size t \<and> rp_term r \<le> mt_term t"

definition cluster_inv :: "MemTransport \<Rightarrow> bool" where
  "cluster_inv t \<longleftrightarrow> distinct (map ep_id (mt_members t)) \<and>
     (\<forall>k r. replica_for t k = Some r \<longrightarrow> replica_ok t r)"

text \<open>
  What every reachable set keeps. \<open>cluster_inv\<close> asks in addition that each index is the replay of
  its journal, which a round can break on a member that has already applied a slot it voids.
\<close>

definition member_ok :: "MemTransport \<Rightarrow> MemCraftReplica \<Rightarrow> bool" where
  "member_ok t r \<longleftrightarrow> journal_inv r \<and> rp_page_size r = mt_lba_size t \<and> rp_term r \<le> mt_term t"

definition journals_ok :: "MemTransport \<Rightarrow> bool" where
  "journals_ok t \<longleftrightarrow> distinct (map ep_id (mt_members t)) \<and>
     (\<forall>k r. replica_for t k = Some r \<longrightarrow> member_ok t r)"

text \<open>A resolution round voids a slot: a live member has the verdict, or none holds the slot.\<close>

definition voided :: "MemTransport \<Rightarrow> peer_id list \<Rightarrow> int \<Rightarrow> bool" where
  "voided t live d \<longleftrightarrow>
     (\<exists>s. Some s \<in> set (slots_at t live d) \<and> sl_is_empty s) \<or> (\<forall>x \<in> set (slots_at t live d). x = None)"

section \<open>Calls on several replicas\<close>

lemma map_of_map_if:
  "map_of (map (\<lambda>(k, r). (k, if k = i then f r else r)) m) k' = map_option (\<lambda>r. if k' = i then f r else r) (map_of m k')"
  by (induction m) auto

lemma replica_for_on [simp]:
  "replica_for (on_replica k f t) k' = map_option (\<lambda>r. if k' = k then f r else r) (replica_for t k')"
  by (simp add: replica_for_def on_replica_def map_of_map_if)

lemma replica_for_term [simp]: "replica_for (t\<lparr>mt_term := n\<rparr>) k = replica_for t k"
  by (simp add: replica_for_def)

lemma on_replica_frame [simp]:
  "mt_members (on_replica k f t) = mt_members t" "mt_leader (on_replica k f t) = mt_leader t"
  "mt_term (on_replica k f t) = mt_term t" "mt_lba_size (on_replica k f t) = mt_lba_size t"
  by (simp_all add: on_replica_def)

lemma for_each_frame [simp]:
  "mt_members (for_each ks f t) = mt_members t" "mt_leader (for_each ks f t) = mt_leader t"
  "mt_term (for_each ks f t) = mt_term t" "mt_lba_size (for_each ks f t) = mt_lba_size t"
  unfolding for_each_def by (induction ks arbitrary: t) simp_all

lemma replica_for_each:
  "distinct ks \<Longrightarrow>
     replica_for (for_each ks f t) k = map_option (\<lambda>r. if k \<in> set ks then f r else r) (replica_for t k)"
  unfolding for_each_def
proof (induction ks arbitrary: t)
  case Nil
  show ?case by (simp add: option.map_ident)
next
  case (Cons i ks)
  then show ?case by (auto simp: option.map_comp comp_def intro!: option.map_cong)
qed

lemma cluster_inv_journals: "cluster_inv t \<Longrightarrow> journals_ok t"
  by (auto simp: cluster_inv_def journals_ok_def replica_ok_def member_ok_def intro: inv_journal)

lemma journals_okD: "journals_ok t \<Longrightarrow> replica_for t k = Some r \<Longrightarrow> member_ok t r"
  by (simp add: journals_ok_def)

lemma distinct_live: "journals_ok t \<Longrightarrow> distinct (live_replicas t)"
  by (simp add: journals_ok_def live_replicas_def)

lemma live_registered: "k \<in> set (live_replicas t) \<Longrightarrow> \<exists>r. replica_for t k = Some r \<and> rf_up (rp_faults r)"
  by (auto simp: live_replicas_def split: option.splits)

lemma live_member: "k \<in> set (live_replicas t) \<Longrightarrow> k \<in> set (map ep_id (mt_members t))"
  by (auto simp: live_replicas_def)

section \<open>Login\<close>

lemma peek_lsns_fields:
  "lp_last_append_lsn (peek_lsns r) = rp_last_append_lsn r" "lp_commit_lsn (peek_lsns r) = rp_commit_lsn r"
  by (simp_all add: peek_lsns_def)

lemma rs_commit_upper_aux:
  "(\<forall>k \<in> set live. \<forall>r. replica_for t k = Some r \<longrightarrow>
      rp_last_append_lsn r \<le> fold (\<lambda>k rs. case replica_for t k of None \<Rightarrow> rs | Some r \<Rightarrow> max rs (rp_last_append_lsn r)) live m) \<and>
   m \<le> fold (\<lambda>k rs. case replica_for t k of None \<Rightarrow> rs | Some r \<Rightarrow> max rs (rp_last_append_lsn r)) live m"
proof (induction live arbitrary: m)
  case Nil
  show ?case by simp
next
  case (Cons k live)
  let ?m = "case replica_for t k of None \<Rightarrow> m | Some r \<Rightarrow> max m (rp_last_append_lsn r)"
  have "m \<le> ?m" by (simp split: option.split)
  moreover have "rp_last_append_lsn r \<le> ?m" if "replica_for t k = Some r" for r
    using that by simp
  ultimately show ?case using Cons [of ?m] by (auto intro: order_trans)
qed

lemma rs_commit_upper:
  "k \<in> set live \<Longrightarrow> replica_for t k = Some r \<Longrightarrow> rp_last_append_lsn r \<le> rs_commit t live"
  using rs_commit_upper_aux [of live t "- 1"] unfolding rs_commit_def peek_lsns_fields by auto

lemma rs_commit_attained:
  "rs_commit t live = - 1 \<or>
     (\<exists>k \<in> set live. \<exists>r. replica_for t k = Some r \<and> rs_commit t live = rp_last_append_lsn r)"
proof -
  have "fold (\<lambda>k rs. case replica_for t k of None \<Rightarrow> rs | Some r \<Rightarrow> max rs (rp_last_append_lsn r)) live m = m \<or>
     (\<exists>k \<in> set live. \<exists>r. replica_for t k = Some r \<and>
        fold (\<lambda>k rs. case replica_for t k of None \<Rightarrow> rs | Some r \<Rightarrow> max rs (rp_last_append_lsn r)) live m = rp_last_append_lsn r)"
    for m
  proof (induction live arbitrary: m)
    case (Cons k live)
    show ?case
      using Cons [of "case replica_for t k of None \<Rightarrow> m | Some r \<Rightarrow> max m (rp_last_append_lsn r)"]
      by (cases "replica_for t k") (auto simp: max_def split: if_splits)
  qed simp
  then show ?thesis unfolding rs_commit_def peek_lsns_fields .
qed

lemma run_login_ok:
  assumes inv: "journals_ok t" and up: "caller_up t (mt_leader t)"
    and q: "quorum (length (mt_members t)) \<le> length (live_replicas t)"
  obtains t' where "run_login (mt_leader t) token t =
       (Inr \<lparr>lr_members = mt_members t, lr_dLSN = rs_commit t (live_replicas t), lr_term = mt_term t + 1,
             lr_lba_size = mt_lba_size t, lr_capacity = mt_capacity t, lr_leader_hint = replicate 16 0,
             lr_max_tx = mt_max_tx t\<rparr>, t')"
    and "mt_term t' = mt_term t + 1" and "mt_members t' = mt_members t" and "mt_lba_size t' = mt_lba_size t"
    and "\<And>k. replica_for t' k = map_option
       (\<lambda>r. if k \<in> set (live_replicas t)
            then cold_apply_login token (mt_term t + 1) (apply_up_to (rs_commit t (live_replicas t)) r) else r)
       (replica_for t k)"
proof -
  let ?live = "live_replicas t" and ?nt = "mt_term t + 1"
  let ?t1 = "t\<lparr>mt_term := ?nt\<rparr>"
  let ?rs = "rs_commit ?t1 ?live"
  have rs: "?rs = rs_commit t ?live" unfolding rs_commit_def replica_for_term ..
  let ?t2 = "for_each ?live (cold_apply_sync ?rs) ?t1"
  let ?t3 = "for_each ?live (cold_apply_login token ?nt) ?t2"
  let ?t4 = "for_each ?live (\<lambda>r. if ?rs < lp_last_append_lsn (peek_lsns r) then cold_truncate_above ?rs r else r) ?t3"
  have d: "distinct ?live" by (rule distinct_live [OF inv])
  have "replica_for ?t4 k = map_option
      (\<lambda>r. if k \<in> set ?live then cold_apply_login token ?nt (apply_up_to ?rs r) else r) (replica_for t k)" for k
    using rs_commit_upper [of k ?live ?t1]
    by (cases "replica_for t k")
      (auto simp: replica_for_each [OF d] cold_apply_sync_def cold_apply_login_def peek_lsns_def not_less)
  moreover have "run_login (mt_leader t) token t =
       (Inr \<lparr>lr_members = mt_members t, lr_dLSN = ?rs, lr_term = ?nt,
             lr_lba_size = mt_lba_size t, lr_capacity = mt_capacity t, lr_leader_hint = replicate 16 0,
             lr_max_tx = mt_max_tx t\<rparr>, ?t4)"
    unfolding run_login_def Let_def using up q
    by (simp only: not_less [symmetric] simp_thms if_False)
  ultimately show thesis using that [of ?t4] unfolding rs by simp
qed

lemma run_login_inv:
  assumes inv: "cluster_inv t"
  shows "cluster_inv (snd (run_login caller token t))"
proof (cases "caller_up t caller \<and> caller = mt_leader t \<and> quorum (length (mt_members t)) \<le> length (live_replicas t)")
  case True
  then have c: "caller = mt_leader t" and up: "caller_up t (mt_leader t)"
    and q: "quorum (length (mt_members t)) \<le> length (live_replicas t)" by auto
  let ?live = "live_replicas t"
  let ?f = "\<lambda>r. cold_apply_login token (mt_term t + 1) (apply_up_to (rs_commit t ?live) r)"
  obtain lr t' where run: "run_login (mt_leader t) token t = (Inr lr, t')"
    and t: "mt_term t' = mt_term t + 1" "mt_members t' = mt_members t" "mt_lba_size t' = mt_lba_size t"
    and r: "\<And>k. replica_for t' k = map_option (\<lambda>r. if k \<in> set ?live then ?f r else r) (replica_for t k)"
    by (rule run_login_ok [OF cluster_inv_journals [OF inv] up q, of token]) blast
  have "replica_ok t' (?f r) \<and> replica_ok t' r" if "replica_ok t r" for r
    using that t by (simp add: replica_ok_def cold_apply_login_def inv_irrelevant apply_up_to_inv)
  then have "replica_ok t' r'" if "replica_for t' k = Some r'" for k r'
    using that inv unfolding r cluster_inv_def by (cases "replica_for t k") (auto split: if_splits)
  then show ?thesis using inv t(2) by (simp add: c run cluster_inv_def)
next
  case False
  then have "snd (run_login caller token t) = t" by (auto simp: run_login_def Let_def not_less)
  then show ?thesis using inv by simp
qed

section \<open>The resolution round\<close>

lemma scan_slots_verdict:
  "fst (scan_slots ss c) \<longleftrightarrow> (\<exists>s. Some s \<in> set ss \<and> sl_is_empty s)"
  by (induction ss c rule: scan_slots.induct) auto

lemma scan_slots_copy:
  assumes "scan_slots ss c = (False, c')"
  shows "(c' = None \<longleftrightarrow> c = None \<and> (\<forall>x \<in> set ss. x = None)) \<and>
     (\<forall>s. c' = Some s \<longrightarrow> c = Some s \<or> (Some s \<in> set ss \<and> \<not> sl_is_empty s))"
  using assms
  by (induction ss c rule: scan_slots.induct) (auto split: if_splits option.splits)

text \<open>What one dLSN of the round does to a live replica.\<close>

definition resolve_slot :: "bool \<Rightarrow> MemJournalSlot option \<Rightarrow> int \<Rightarrow> MemCraftReplica \<Rightarrow> MemCraftReplica" where
  "resolve_slot void copy d r =
     (if void then cold_mark_empty d r
      else if peek_slot d r = None then (case copy of None \<Rightarrow> r | Some c \<Rightarrow> cold_install_slot d c r) else r)"

lemma resolve_one_slot:
  obtains copy where "resolve_one live d t = for_each live (resolve_slot (voided t live d) copy d) t"
    and "\<not> voided t live d \<longrightarrow> (\<exists>s. copy = Some s \<and> Some s \<in> set (slots_at t live d) \<and> \<not> sl_is_empty s)"
proof (cases "scan_slots (slots_at t live d) None")
  case (Pair v c)
  have v: "v \<longleftrightarrow> (\<exists>s. Some s \<in> set (slots_at t live d) \<and> sl_is_empty s)"
    using scan_slots_verdict [of "slots_at t live d" None] Pair by simp
  show thesis
  proof (cases "v \<or> c = None")
    case True
    have "voided t live d"
      using True v scan_slots_copy [of "slots_at t live d" None c] Pair
      by (cases v) (auto simp: voided_def)
    moreover have "resolve_one live d t = for_each live (cold_mark_empty d) t"
      using True Pair by (auto simp: resolve_one_def split: bool.split option.split)
    moreover have "resolve_slot True None d = cold_mark_empty d"
      by (simp add: resolve_slot_def fun_eq_iff)
    ultimately show thesis
      using that [of None] by simp
  next
    case False
    then obtain s where s: "c = Some s" "\<not> v" by auto
    with Pair have "scan_slots (slots_at t live d) None = (False, Some s)" by simp
    from scan_slots_copy [OF this] have h: "Some s \<in> set (slots_at t live d)" "\<not> sl_is_empty s" by auto
    then have "\<not> voided t live d" using v s(2) by (auto simp: voided_def)
    moreover have "resolve_one live d t =
        for_each live (\<lambda>r. if peek_slot d r = None then cold_install_slot d s r else r) t"
      using Pair s by (simp add: resolve_one_def)
    moreover have "resolve_slot False (Some s) d = (\<lambda>r. if peek_slot d r = None then cold_install_slot d s r else r)"
      by (simp add: resolve_slot_def fun_eq_iff)
    ultimately show thesis
      using that [of "Some s"] h by simp
  qed
qed

lemma resolve_slot_frame [simp]:
  "rp_commit_lsn (resolve_slot v c d r) = rp_commit_lsn r" "rp_term (resolve_slot v c d r) = rp_term r"
  "rp_page_size (resolve_slot v c d r) = rp_page_size r" "rp_faults (resolve_slot v c d r) = rp_faults r"
  "rp_index (resolve_slot v c d r) = rp_index r"
  by (simp_all add: resolve_slot_def cold_mark_empty_def cold_install_slot_def split: option.split)

lemma peek_resolve_slot:
  "peek_slot d' (resolve_slot v c d r) =
     (if d' \<noteq> d then peek_slot d' r
      else if v then Some (empty_slot (rp_term r))
      else if peek_slot d r = None then c else peek_slot d r)"
  by (auto simp: resolve_slot_def peek_slot_def cold_mark_empty_def cold_install_slot_def split: option.split)

lemma slots_at_mem:
  "Some s \<in> set (slots_at t live d) \<longleftrightarrow> (\<exists>k \<in> set live. \<exists>r. replica_for t k = Some r \<and> peek_slot d r = Some s)"
proof -
  have "Some s \<in> set (slots_at t live d) \<longleftrightarrow> (\<exists>k \<in> set live. Option.bind (replica_for t k) (peek_slot d) = Some s)"
    by (auto simp: slots_at_def image_iff eq_commute [of "Some s"])
  then show ?thesis by (simp add: bind_eq_Some_conv)
qed

lemma voided_iff:
  "voided t live d \<longleftrightarrow>
     (\<exists>k \<in> set live. \<exists>r s. replica_for t k = Some r \<and> peek_slot d r = Some s \<and> sl_is_empty s) \<or>
     (\<forall>k \<in> set live. \<forall>r. replica_for t k = Some r \<longrightarrow> peek_slot d r = None)"
proof -
  have "(\<forall>x \<in> set (slots_at t live d). x = None) \<longleftrightarrow>
      (\<forall>k \<in> set live. \<forall>r. replica_for t k = Some r \<longrightarrow> peek_slot d r = None)"
  proof -
    have "Option.bind x f = None \<longleftrightarrow> (\<forall>r. x = Some r \<longrightarrow> f r = None)" for x and f :: "MemCraftReplica \<Rightarrow> MemJournalSlot option"
      by (cases x) simp_all
    then show ?thesis by (simp add: slots_at_def)
  qed
  moreover have "(\<exists>s. Some s \<in> set (slots_at t live d) \<and> sl_is_empty s) \<longleftrightarrow>
      (\<exists>k \<in> set live. \<exists>r s. replica_for t k = Some r \<and> peek_slot d r = Some s \<and> sl_is_empty s)"
    unfolding slots_at_mem by blast
  ultimately show ?thesis by (simp add: voided_def)
qed

text \<open>One dLSN of the round, seen on the registered replicas.\<close>

lemma resolve_one_spec:
  assumes "distinct live"
  obtains copy where
    "\<And>k. replica_for (resolve_one live d t) k =
       map_option (\<lambda>r. if k \<in> set live then resolve_slot (voided t live d) copy d r else r) (replica_for t k)"
    and "\<not> voided t live d \<longrightarrow>
       (\<exists>s k r. copy = Some s \<and> \<not> sl_is_empty s \<and> k \<in> set live \<and> replica_for t k = Some r \<and> peek_slot d r = Some s)"
proof -
  obtain copy where c: "resolve_one live d t = for_each live (resolve_slot (voided t live d) copy d) t"
    "\<not> voided t live d \<longrightarrow> (\<exists>s. copy = Some s \<and> Some s \<in> set (slots_at t live d) \<and> \<not> sl_is_empty s)"
    by (rule resolve_one_slot [of live d t])
  show thesis
    by (rule that [of copy]) (use c replica_for_each [OF assms] slots_at_mem in \<open>auto\<close>)
qed

lemma resolve_one_frame [simp]:
  "mt_members (resolve_one live d t) = mt_members t" "mt_term (resolve_one live d t) = mt_term t"
  "mt_lba_size (resolve_one live d t) = mt_lba_size t" "mt_leader (resolve_one live d t) = mt_leader t"
  by (simp_all add: resolve_one_def split: prod.split bool.split option.split)

section \<open>The whole round\<close>

text \<open>The slot a live replica ends up with.\<close>

definition settled :: "MemTransport \<Rightarrow> peer_id list \<Rightarrow> MemTransport \<Rightarrow> peer_id \<Rightarrow> int \<Rightarrow> bool" where
  "settled t live t' k d \<longleftrightarrow>
     (\<forall>r r'. replica_for t k = Some r \<and> replica_for t' k = Some r' \<longrightarrow>
        (if voided t live d then peek_slot d r' = Some (empty_slot (rp_term r))
         else \<exists>s. peek_slot d r' = Some s \<and> \<not> sl_is_empty s \<and>
           (peek_slot d r = Some s \<or>
            peek_slot d r = None \<and>
              (\<exists>h \<in> set live. \<exists>q. replica_for t h = Some q \<and> peek_slot d q = Some s))))"

text \<open>What a step of the round keeps for every registered replica.\<close>

definition same_frame :: "MemTransport \<Rightarrow> peer_id list \<Rightarrow> MemTransport \<Rightarrow> int set \<Rightarrow> bool" where
  "same_frame t live t' D \<longleftrightarrow>
     mt_members t' = mt_members t \<and> mt_term t' = mt_term t \<and> mt_lba_size t' = mt_lba_size t \<and>
     (\<forall>k. replica_for t k = None \<longleftrightarrow> replica_for t' k = None) \<and>
     (\<forall>k r r'. replica_for t k = Some r \<and> replica_for t' k = Some r' \<longrightarrow>
        (if k \<in> set live then rp_commit_lsn r' = rp_commit_lsn r \<and> rp_term r' = rp_term r \<and>
           rp_faults r' = rp_faults r \<and> rp_index r' = rp_index r \<and> (\<forall>d. d \<notin> D \<longrightarrow> peek_slot d r' = peek_slot d r)
         else r' = r))"

lemma resolve_one_effect:
  assumes "distinct live"
  shows "same_frame t live (resolve_one live d t) {d} \<and> (\<forall>k \<in> set live. settled t live (resolve_one live d t) k d)"
proof -
  obtain copy where r: "\<And>k. replica_for (resolve_one live d t) k =
       map_option (\<lambda>r. if k \<in> set live then resolve_slot (voided t live d) copy d r else r) (replica_for t k)"
    and c: "\<not> voided t live d \<longrightarrow>
       (\<exists>s k r. copy = Some s \<and> \<not> sl_is_empty s \<and> k \<in> set live \<and> replica_for t k = Some r \<and> peek_slot d r = Some s)"
    by (rule resolve_one_spec [OF assms, of d t]) blast
  have "same_frame t live (resolve_one live d t) {d}"
    by (auto simp: same_frame_def r peek_resolve_slot)
  moreover have "settled t live (resolve_one live d t) k d" if k: "k \<in> set live" for k
  proof (cases "voided t live d")
    case True
    then show ?thesis using k by (auto simp: settled_def r peek_resolve_slot)
  next
    case False
    then obtain s h q where s: "copy = Some s" "\<not> sl_is_empty s" "h \<in> set live" "replica_for t h = Some q" "peek_slot d q = Some s"
      using c by blast
    have data: "\<not> sl_is_empty s'" if "replica_for t k = Some r'" "peek_slot d r' = Some s'" for r' s'
      using False k that by (auto simp: voided_iff)
    have hold: "\<exists>h \<in> set live. \<exists>q. replica_for t h = Some q \<and> peek_slot d q = Some s"
      using s(3-5) by blast
    show ?thesis
      unfolding settled_def
    proof (intro allI impI)
      fix r0 r1 assume r01: "replica_for t k = Some r0 \<and> replica_for (resolve_one live d t) k = Some r1"
      then have "peek_slot d r1 = (if peek_slot d r0 = None then Some s else peek_slot d r0)"
        using k False s(1) by (auto simp: r peek_resolve_slot)
      then show "if voided t live d then peek_slot d r1 = Some (empty_slot (rp_term r0))
        else \<exists>s. peek_slot d r1 = Some s \<and> \<not> sl_is_empty s \<and> (peek_slot d r0 = Some s \<or>
          peek_slot d r0 = None \<and> (\<exists>h \<in> set live. \<exists>q. replica_for t h = Some q \<and> peek_slot d q = Some s))"
        using False hold s(2) data r01 by (cases "peek_slot d r0") auto
    qed
  qed
  ultimately show ?thesis by blast
qed

lemma same_frame_dom:
  assumes "same_frame t live t' D"
  shows "replica_for t k = Some r \<Longrightarrow> \<exists>r'. replica_for t' k = Some r'"
    and "replica_for t' k = Some r' \<Longrightarrow> \<exists>r. replica_for t k = Some r"
proof -
  have "replica_for t k = None \<longleftrightarrow> replica_for t' k = None"
    using assms by (simp add: same_frame_def)
  then show "replica_for t k = Some r \<Longrightarrow> \<exists>r'. replica_for t' k = Some r'"
    and "replica_for t' k = Some r' \<Longrightarrow> \<exists>r. replica_for t k = Some r" by auto
qed

lemma same_frame_none:
  assumes "same_frame t live t' D" "replica_for t k = None"
  shows "replica_for t' k = None"
proof -
  have "replica_for t k = None \<longleftrightarrow> replica_for t' k = None"
    using assms(1) by (simp add: same_frame_def)
  with assms(2) show ?thesis by blast
qed

lemma same_frame_cases:
  assumes "same_frame t live t' D" "replica_for t k = Some r" "replica_for t' k = Some r'"
  shows "if k \<in> set live then rp_commit_lsn r' = rp_commit_lsn r \<and> rp_term r' = rp_term r \<and>
           rp_faults r' = rp_faults r \<and> rp_index r' = rp_index r \<and> (\<forall>d. d \<notin> D \<longrightarrow> peek_slot d r' = peek_slot d r) else r' = r"
proof -
  have "\<forall>k r r'. replica_for t k = Some r \<and> replica_for t' k = Some r' \<longrightarrow>
        (if k \<in> set live then rp_commit_lsn r' = rp_commit_lsn r \<and> rp_term r' = rp_term r \<and>
           rp_faults r' = rp_faults r \<and> rp_index r' = rp_index r \<and> (\<forall>d. d \<notin> D \<longrightarrow> peek_slot d r' = peek_slot d r)
         else r' = r)"
    using assms(1) unfolding same_frame_def by (elim conjE)
  with assms(2,3) show ?thesis by simp
qed

lemma same_frame_live:
  assumes "same_frame t live t' D" "k \<in> set live" "replica_for t k = Some r" "replica_for t' k = Some r'"
  shows "rp_commit_lsn r' = rp_commit_lsn r" "rp_term r' = rp_term r" "rp_faults r' = rp_faults r"
    "d \<notin> D \<Longrightarrow> peek_slot d r' = peek_slot d r" "rp_index r' = rp_index r"
  using same_frame_cases [OF assms(1,3,4)] assms(2) by simp_all

lemma same_frame_dead:
  assumes "same_frame t live t' D" "k \<notin> set live"
  shows "replica_for t' k = replica_for t k"
proof (cases "replica_for t k")
  case None
  with same_frame_none [OF assms(1)] show ?thesis by simp
next
  case (Some r)
  then obtain r' where r': "replica_for t' k = Some r'" using same_frame_dom(1) [OF assms(1)] by blast
  with same_frame_cases [OF assms(1) Some r'] assms(2) Some show ?thesis by simp
qed

lemma same_frame_voided:
  assumes "same_frame t live t' D" "d \<notin> D"
  shows "voided t' live d \<longleftrightarrow> voided t live d"
proof -
  have "Option.bind (replica_for t' k) (peek_slot d) = Option.bind (replica_for t k) (peek_slot d)" if "k \<in> set live" for k
  proof (cases "replica_for t k")
    case None
    with same_frame_none [OF assms(1)] show ?thesis by simp
  next
    case (Some r)
    then obtain r' where r': "replica_for t' k = Some r'" using same_frame_dom(1) [OF assms(1)] by blast
    with same_frame_live(4) [OF assms(1) that Some r' assms(2)] Some show ?thesis by simp
  qed
  then have "slots_at t' live d = slots_at t live d" by (simp add: slots_at_def)
  then show ?thesis by (simp add: voided_def)
qed

lemma same_frame_trans:
  assumes "same_frame t live t1 D" "same_frame t1 live t2 E"
  shows "same_frame t live t2 (D \<union> E)"
  unfolding same_frame_def
proof (intro conjI allI impI)
  fix k
  show "replica_for t k = None \<longleftrightarrow> replica_for t2 k = None" using assms by (simp add: same_frame_def)
next
  fix k r r2 assume k: "replica_for t k = Some r \<and> replica_for t2 k = Some r2"
  then obtain r1 where r1: "replica_for t1 k = Some r1"
    using same_frame_dom(1) [OF assms(1)] by blast
  show "if k \<in> set live then rp_commit_lsn r2 = rp_commit_lsn r \<and> rp_term r2 = rp_term r \<and>
           rp_faults r2 = rp_faults r \<and> rp_index r2 = rp_index r \<and> (\<forall>d. d \<notin> D \<union> E \<longrightarrow> peek_slot d r2 = peek_slot d r) else r2 = r"
    using same_frame_cases [OF assms(1) conjunct1 [OF k] r1] same_frame_cases [OF assms(2) r1 conjunct2 [OF k]]
    by (cases "k \<in> set live") simp_all
qed (use assms in \<open>simp_all add: same_frame_def\<close>)

lemma settled_frame_after:
  assumes "settled t live t1 k d" "same_frame t1 live t2 D" "d \<notin> D" "k \<in> set live"
  shows "settled t live t2 k d"
  unfolding settled_def
proof (intro allI impI)
  fix r r2 assume k: "replica_for t k = Some r \<and> replica_for t2 k = Some r2"
  then obtain r1 where r1: "replica_for t1 k = Some r1"
    using same_frame_dom(2) [OF assms(2)] by blast
  have "peek_slot d r2 = peek_slot d r1"
    using same_frame_live(4) [OF assms(2,4) r1 _ assms(3)] k by simp
  then show "if voided t live d then peek_slot d r2 = Some (empty_slot (rp_term r))
     else \<exists>s. peek_slot d r2 = Some s \<and> \<not> sl_is_empty s \<and> (peek_slot d r = Some s \<or>
        peek_slot d r = None \<and> (\<exists>h \<in> set live. \<exists>q. replica_for t h = Some q \<and> peek_slot d q = Some s))"
    using assms(1) k r1 unfolding settled_def by metis
qed

lemma settled_frame_before:
  assumes "same_frame t live t1 D" "settled t1 live t2 k d" "d \<notin> D" "k \<in> set live"
  shows "settled t live t2 k d"
  unfolding settled_def
proof (intro allI impI)
  fix r r2 assume k: "replica_for t k = Some r \<and> replica_for t2 k = Some r2"
  then obtain r1 where r1: "replica_for t1 k = Some r1"
    using same_frame_dom(1) [OF assms(1)] by blast
  have same: "peek_slot d q1 = peek_slot d q" "rp_term q1 = rp_term q"
    if "h \<in> set live" "replica_for t h = Some q" "replica_for t1 h = Some q1" for h q q1
    using same_frame_live(4) [OF assms(1) that assms(3)] same_frame_live(2) [OF assms(1) that] by blast+
  have hold: "\<exists>q. replica_for t h = Some q \<and> peek_slot d q = Some s"
    if h: "h \<in> set live" "replica_for t1 h = Some q1" "peek_slot d q1 = Some s" for h q1 s
  proof -
    obtain q where q: "replica_for t h = Some q"
      using same_frame_dom(2) [OF assms(1) h(2)] by blast
    then show ?thesis using same(1) [OF h(1) q h(2)] h(3) by simp
  qed
  have p: "peek_slot d r1 = peek_slot d r" "rp_term r1 = rp_term r"
    using same [OF assms(4) conjunct1 [OF k] r1] by blast+
  note V = same_frame_voided [OF assms(1,3)]
  have S: "if voided t1 live d then peek_slot d r2 = Some (empty_slot (rp_term r1))
     else \<exists>s. peek_slot d r2 = Some s \<and> \<not> sl_is_empty s \<and> (peek_slot d r1 = Some s \<or>
        peek_slot d r1 = None \<and> (\<exists>h \<in> set live. \<exists>q. replica_for t1 h = Some q \<and> peek_slot d q = Some s))"
    using assms(2) k r1 unfolding settled_def by blast
  show "if voided t live d then peek_slot d r2 = Some (empty_slot (rp_term r))
     else \<exists>s. peek_slot d r2 = Some s \<and> \<not> sl_is_empty s \<and> (peek_slot d r = Some s \<or>
        peek_slot d r = None \<and> (\<exists>h \<in> set live. \<exists>q. replica_for t h = Some q \<and> peek_slot d q = Some s))"
  proof (cases "voided t live d")
    case True
    with S V p show ?thesis by simp
  next
    case False
    with S V obtain s where s: "peek_slot d r2 = Some s" "\<not> sl_is_empty s" "peek_slot d r1 = Some s \<or>
        peek_slot d r1 = None \<and> (\<exists>h \<in> set live. \<exists>q. replica_for t1 h = Some q \<and> peek_slot d q = Some s)"
      by auto
    from s(3) have "peek_slot d r = Some s \<or>
        peek_slot d r = None \<and> (\<exists>h \<in> set live. \<exists>q. replica_for t h = Some q \<and> peek_slot d q = Some s)"
      unfolding p using hold by blast
    with s(1,2) False show ?thesis by simp
  qed
qed

lemma resolve_fold_effect:
  assumes "distinct live" "distinct ds"
  shows "same_frame t live (fold (resolve_one live) ds t) (set ds) \<and>
     (\<forall>k \<in> set live. \<forall>d \<in> set ds. settled t live (fold (resolve_one live) ds t) k d)"
  using assms(2)
proof (induction ds arbitrary: t)
  case Nil
  show ?case by (auto simp: same_frame_def)
next
  case (Cons d ds)
  let ?t1 = "resolve_one live d t" and ?t2 = "fold (resolve_one live) (d # ds) t"
  have one: "same_frame t live ?t1 {d}" "\<forall>k \<in> set live. settled t live ?t1 k d"
    using resolve_one_effect [OF assms(1)] by blast+
  have IH: "same_frame ?t1 live ?t2 (set ds)" "\<forall>k \<in> set live. \<forall>d \<in> set ds. settled ?t1 live ?t2 k d"
    using Cons by simp_all
  have "same_frame t live ?t2 (set (d # ds))"
    using same_frame_trans [OF one(1) IH(1)] by simp
  moreover have "settled t live ?t2 k x" if "k \<in> set live" "x \<in> set (d # ds)" for k x
  proof (cases "x = d")
    case True
    then show ?thesis using settled_frame_after [OF _ IH(1)] one(2) that Cons.prems by simp
  next
    case False
    then show ?thesis using settled_frame_before [OF one(1)] IH(2) that by simp
  qed
  ultimately show ?case by blast
qed

section \<open>The round keeps the journals\<close>

lemma resolve_slot_journal:
  assumes "journal_inv r" "\<And>c. copy = Some c \<Longrightarrow> slot_wf (rp_page_size r) c"
  shows "journal_inv (resolve_slot v copy d r)"
  using assms by (simp add: resolve_slot_def cold_mark_empty_journal cold_install_slot_journal split: option.split)

lemma resolve_one_journals:
  assumes inv: "journals_ok t" and dl: "distinct live"
  shows "journals_ok (resolve_one live d t)"
proof -
  obtain copy where r: "\<And>k. replica_for (resolve_one live d t) k =
       map_option (\<lambda>r. if k \<in> set live then resolve_slot (voided t live d) copy d r else r) (replica_for t k)"
    and c: "\<not> voided t live d \<longrightarrow>
       (\<exists>s k r. copy = Some s \<and> \<not> sl_is_empty s \<and> k \<in> set live \<and> replica_for t k = Some r \<and> peek_slot d r = Some s)"
    by (rule resolve_one_spec [OF dl, of d t]) blast
  have wf: "slot_wf (mt_lba_size t) s" if "\<not> voided t live d" "copy = Some s" for s
  proof -
    from c that obtain k q where "replica_for t k = Some q" "peek_slot d q = Some s" by auto
    then show ?thesis
      using journals_okD [OF inv, of k q] journal_invD(5) [of q d s] by (simp add: member_ok_def peek_slot_def)
  qed
  have step: "member_ok t (resolve_slot (voided t live d) copy d q)" if "replica_for t k = Some q" for k q
  proof -
    have q: "journal_inv q" "rp_page_size q = mt_lba_size t" "rp_term q \<le> mt_term t"
      using journals_okD [OF inv that] by (simp_all add: member_ok_def)
    have "journal_inv (resolve_slot (voided t live d) copy d q)"
    proof (cases "voided t live d")
      case True
      then have "resolve_slot (voided t live d) copy d q = cold_mark_empty d q" by (simp add: resolve_slot_def)
      then show ?thesis using cold_mark_empty_journal [OF q(1)] by simp
    next
      case False
      then show ?thesis using resolve_slot_journal [OF q(1), of copy] wf q(2) by simp
    qed
    with q show ?thesis by (simp add: member_ok_def)
  qed
  have "member_ok t q'" if k: "replica_for (resolve_one live d t) k = Some q'" for k q'
    using k step [of k] journals_okD [OF inv, of k] unfolding r by (cases "replica_for t k") (auto split: if_splits)
  then show ?thesis using inv by (simp add: journals_ok_def member_ok_def)
qed

lemma resolve_fold_journals:
  "journals_ok t \<Longrightarrow> distinct live \<Longrightarrow> journals_ok (fold (resolve_one live) ds t)"
  by (induction ds arbitrary: t) (simp_all add: resolve_one_journals)

lemma live_floor_lower_aux:
  "(\<forall>k \<in> set live. \<forall>r. replica_for t k = Some r \<longrightarrow>
      fold (\<lambda>k fl. case replica_for t k of None \<Rightarrow> fl | Some r \<Rightarrow> min fl (rp_commit_lsn r)) live m \<le> rp_commit_lsn r) \<and>
   fold (\<lambda>k fl. case replica_for t k of None \<Rightarrow> fl | Some r \<Rightarrow> min fl (rp_commit_lsn r)) live m \<le> m \<and>
   ((\<forall>k r. replica_for t k = Some r \<longrightarrow> b \<le> rp_commit_lsn r) \<and> b \<le> m \<longrightarrow>
      b \<le> fold (\<lambda>k fl. case replica_for t k of None \<Rightarrow> fl | Some r \<Rightarrow> min fl (rp_commit_lsn r)) live m)"
proof (induction live arbitrary: m)
  case Nil
  show ?case by simp
next
  case (Cons k live)
  let ?m = "case replica_for t k of None \<Rightarrow> m | Some r \<Rightarrow> min m (rp_commit_lsn r)"
  have "?m \<le> m" by (simp split: option.split)
  moreover have "?m \<le> rp_commit_lsn r" if "replica_for t k = Some r" for r using that by simp
  moreover have "b \<le> ?m" if "\<forall>k r. replica_for t k = Some r \<longrightarrow> b \<le> rp_commit_lsn r" "b \<le> m"
    using that by (simp split: option.split)
  ultimately show ?case using Cons [of ?m] by (auto intro: order_trans)
qed

lemma live_floor_lower:
  "k \<in> set live \<Longrightarrow> replica_for t k = Some r \<Longrightarrow> live_floor t live \<le> rp_commit_lsn r"
  using live_floor_lower_aux [of live t "2 ^ 63 - 1" 0] unfolding live_floor_def peek_lsns_fields by auto

section \<open>Quorums\<close>

text \<open>Two quorums of the same member list meet.\<close>

lemma quorum_meets:
  assumes "distinct ms" "L \<subseteq> set ms" "Q \<subseteq> set ms" "quorum (length ms) \<le> card L" "quorum (length ms) \<le> card Q"
  shows "L \<inter> Q \<noteq> {}"
proof
  assume "L \<inter> Q = {}"
  have fin: "finite L" "finite Q" using assms(2,3) finite_subset by auto
  have "card L + card Q = card (L \<union> Q)" using card_Un_disjoint [OF fin \<open>L \<inter> Q = {}\<close>] by simp
  also have "\<dots> \<le> length ms"
    using assms(1-3) by (metis Un_least card_mono distinct_card finite_set)
  finally show False using assms(4,5) by (simp add: quorum_def)
qed

lemma settled_cong:
  assumes "settled t live t1 k d" "replica_for t1 k = Some r1" "replica_for t2 k = Some r2"
    and "peek_slot d r2 = peek_slot d r1"
  shows "settled t live t2 k d"
  unfolding settled_def
proof (intro allI impI)
  fix r r' assume "replica_for t k = Some r \<and> replica_for t2 k = Some r'"
  then have "replica_for t k = Some r \<and> replica_for t1 k = Some r1" "r' = r2" using assms(2,3) by simp_all
  with assms(1) show "if voided t live d then peek_slot d r' = Some (empty_slot (rp_term r))
     else \<exists>s. peek_slot d r' = Some s \<and> \<not> sl_is_empty s \<and> (peek_slot d r = Some s \<or>
        peek_slot d r = None \<and> (\<exists>h \<in> set live. \<exists>q. replica_for t h = Some q \<and> peek_slot d q = Some s))"
    unfolding settled_def \<open>r' = r2\<close> assms(4) by blast
qed

lemma run_resolution_ok:
  assumes inv: "journals_ok t" and up: "caller_up t (mt_leader t)"
    and q: "quorum (length (mt_members t)) \<le> length (live_replicas t)"
  obtains t' where "run_resolution (mt_leader t) (mt_term t) lim t =
      (Inr \<lparr>rs_resolved_upto = lim,
            rs_empty_slots = (case replica_for t' (mt_leader t) of None \<Rightarrow> [] | Some r \<Rightarrow> peek_empties lim r)\<rparr>, t')"
    and "journals_ok t'" and "mt_members t' = mt_members t"
    and "\<And>k. k \<notin> set (live_replicas t) \<Longrightarrow> replica_for t' k = replica_for t k"
    and "\<And>k. k \<in> set (live_replicas t) \<Longrightarrow> \<exists>r r'. replica_for t k = Some r \<and> replica_for t' k = Some r' \<and>
        rp_commit_lsn r' = max (rp_commit_lsn r) lim \<and> (lim \<le> rp_commit_lsn r \<longrightarrow> rp_index r' = rp_index r) \<and>
        (\<forall>d. d \<le> live_floor t (live_replicas t) \<or> lim < d \<longrightarrow> peek_slot d r' = peek_slot d r)"
    and "\<And>k d. k \<in> set (live_replicas t) \<Longrightarrow> live_floor t (live_replicas t) < d \<Longrightarrow> d \<le> lim \<Longrightarrow>
        settled t (live_replicas t) t' k d"
proof -
  let ?live = "live_replicas t" and ?fl = "live_floor t (live_replicas t)"
  let ?ds = "[?fl + 1..lim]"
  let ?t1 = "fold (resolve_one ?live) ?ds t"
  let ?t2 = "for_each ?live (cold_apply_sync lim) ?t1"
  have dl: "distinct ?live" by (rule distinct_live [OF inv])
  have fr: "same_frame t ?live ?t1 (set ?ds)" and st: "\<forall>k \<in> set ?live. \<forall>d \<in> set ?ds. settled t ?live ?t1 k d"
    using resolve_fold_effect [OF dl, of ?ds t] by simp_all
  have inv1: "journals_ok ?t1" by (rule resolve_fold_journals [OF inv dl])
  have r2: "replica_for ?t2 k = map_option (\<lambda>r. if k \<in> set ?live then apply_up_to lim r else r) (replica_for ?t1 k)" for k
    using replica_for_each [OF dl, of "cold_apply_sync lim" ?t1 k] unfolding cold_apply_sync_def .
  have ok2: "member_ok ?t2 q" if "replica_for ?t2 k = Some q" for k q
    using that inv1 unfolding r2 by (cases "replica_for ?t1 k")
      (auto simp: journals_ok_def member_ok_def apply_up_to_journal split: if_splits)
  have inv2: "journals_ok ?t2" using inv1 ok2 by (simp add: journals_ok_def)
  have mem: "mt_members ?t2 = mt_members t" using fr by (simp add: same_frame_def)
  have commit: "\<exists>r r'. replica_for t k = Some r \<and> replica_for ?t2 k = Some r' \<and>
      rp_commit_lsn r' = max (rp_commit_lsn r) lim \<and> (lim \<le> rp_commit_lsn r \<longrightarrow> rp_index r' = rp_index r) \<and>
      (\<forall>d. d \<le> ?fl \<or> lim < d \<longrightarrow> peek_slot d r' = peek_slot d r)" if k: "k \<in> set ?live" for k
  proof -
    obtain r where r: "replica_for t k = Some r" using live_registered [OF k] by blast
    then obtain r1 where r1: "replica_for ?t1 k = Some r1" using same_frame_dom(1) [OF fr] by blast
    have c1: "rp_commit_lsn r1 = rp_commit_lsn r" using same_frame_live(1) [OF fr k r r1] .
    have "map_of (rp_journal r1) d \<noteq> None" if d: "rp_commit_lsn r1 < d" "d \<le> lim" for d
    proof -
      have "d \<in> set ?ds" using d c1 live_floor_lower [OF k r] by simp
      then have "settled t ?live ?t1 k d" using st k by blast
      then show ?thesis using r r1 unfolding settled_def peek_slot_def by (auto split: if_splits)
    qed
    then have "rp_commit_lsn (apply_up_to lim r1) = max (rp_commit_lsn r1) lim"
      by (rule apply_up_to_complete)
    moreover have "replica_for ?t2 k = Some (apply_up_to lim r1)" using k r1 by (simp add: r2)
    moreover have "rp_index (apply_up_to lim r1) = rp_index r" if "lim \<le> rp_commit_lsn r"
      using same_frame_live(5) [OF fr k r r1] that c1 by (simp add: apply_up_to_stop)
    moreover have "peek_slot d (apply_up_to lim r1) = peek_slot d r" if "d \<le> ?fl \<or> lim < d" for d
      using same_frame_live(4) [OF fr k r r1, of d] that by (auto simp: peek_slot_def)
    ultimately show ?thesis using r c1 by auto
  qed
  have settle: "settled t ?live ?t2 k d" if k: "k \<in> set ?live" and d: "?fl < d" "d \<le> lim" for k d
  proof -
    have "settled t ?live ?t1 k d" using st k d by simp
    moreover obtain r1 where r1: "replica_for ?t1 k = Some r1"
      using live_registered [OF k] same_frame_dom(1) [OF fr] by blast
    moreover have "replica_for ?t2 k = Some (apply_up_to lim r1)" using k r1 by (simp add: r2)
    ultimately show ?thesis by (rule settled_cong) (simp add: peek_slot_def)
  qed
  have dead: "replica_for ?t2 k = replica_for t k" if "k \<notin> set ?live" for k
    using same_frame_dead [OF fr that] that by (simp add: r2 option.map_ident)
  have run: "run_resolution (mt_leader t) (mt_term t) lim t =
      (Inr \<lparr>rs_resolved_upto = lim,
            rs_empty_slots = (case replica_for ?t2 (mt_leader t) of None \<Rightarrow> [] | Some r \<Rightarrow> peek_empties lim r)\<rparr>, ?t2)"
    unfolding run_resolution_def Let_def using up q
    by (simp only: not_less [symmetric] simp_thms if_False)
  show thesis by (rule that [OF run inv2 mem dead commit settle])
qed

section \<open>The group factory\<close>

lemma xor_cancel: "(a :: byte) XOR b = a XOR c \<Longrightarrow> b = c"
proof -
  assume "a XOR b = a XOR c"
  then have "a XOR (a XOR b) = a XOR (a XOR c)" by simp
  then show "b = c" by (simp flip: xor.assoc)
qed

lemma replica_id_inj:
  assumes "length vol_id = 16" "mem_replica_id vol_id i = mem_replica_id vol_id j"
  shows "i = j"
proof -
  have byte: "mem_replica_id vol_id w ! (12 + n) = vol_id ! (12 + n) XOR ucast (drop_bit (8 * n) w AND 0xff)"
    if "n < 4" for n w
  proof -
    have "n \<in> {0, 1, 2, 3}" using that by auto
    then show ?thesis using assms(1) by (auto simp: mem_replica_id_def nth_list_update)
  qed
  have mask: "(0xff :: 32 word) = mask 8" by (simp add: mask_eq_exp_minus_1)
  have eq: "(ucast (drop_bit (8 * n) i AND 0xff) :: byte) = ucast (drop_bit (8 * n) j AND 0xff)" if "n < 4" for n
  proof -
    have "vol_id ! (12 + n) XOR ucast (drop_bit (8 * n) i AND 0xff) = vol_id ! (12 + n) XOR ucast (drop_bit (8 * n) j AND 0xff)"
      using byte [OF that, of i] byte [OF that, of j] assms(2) by simp
    then show ?thesis using xor_cancel by blast
  qed
  show ?thesis
  proof (rule bit_eqI)
    fix m assume "possible_bit TYPE(32 word) m"
    then have m: "m < 32" by simp
    let ?n = "m div 8" and ?b = "m mod 8"
    have n: "?n < 4" using m by auto
    have "?b < 8" by simp
    then have b: "?b < 32" by linarith
    have "bit (ucast (drop_bit (8 * ?n) w AND 0xff) :: byte) ?b = bit w m" for w :: "32 word"
      unfolding mask using m b by (simp add: bit_simps)
    from this [of i] this [of j] eq [OF n] show "bit i m = bit j m" by simp
  qed
qed

lemma group_replica_for:
  "replica_for (fold (\<lambda>m. register_replica (make_replica m ps)) ms t) k = Some r \<Longrightarrow>
     replica_for t k = Some r \<or> (\<exists>m \<in> set ms. r = make_replica m ps \<and> ep_id m = k)"
proof (induction ms arbitrary: t)
  case (Cons m ms)
  have "replica_for (register_replica (make_replica m ps) t) k = Some r \<Longrightarrow>
      replica_for t k = Some r \<or> (r = make_replica m ps \<and> ep_id m = k)"
    by (auto simp: replica_for_def register_replica_def make_replica_def map_add_def
        map_of_filter_key [where P = "\<lambda>x. x \<noteq> ep_id m"] split: option.splits if_splits)
  moreover have "replica_for (register_replica (make_replica m ps) t) k = Some r \<or>
      (\<exists>m \<in> set ms. r = make_replica m ps \<and> ep_id m = k)"
    using Cons by simp
  ultimately show ?case by auto
qed simp

lemma group_registered:
  "k \<in> ep_id ` set ms \<or> replica_for t k \<noteq> None \<Longrightarrow>
     replica_for (fold (\<lambda>m. register_replica (make_replica m ps)) ms t) k \<noteq> None"
proof (induction ms arbitrary: t)
  case (Cons m ms)
  have "replica_for (register_replica (make_replica m ps) t) k \<noteq> None" if "k = ep_id m \<or> replica_for t k \<noteq> None"
    using that by (auto simp: replica_for_def register_replica_def make_replica_def map_add_def
        map_of_filter_key [where P = "\<lambda>x. x \<noteq> ep_id m"] split: option.splits)
  then show ?case using Cons by auto
qed simp

lemma register_frame [simp]:
  "mt_members (fold (\<lambda>m. register_replica (make_replica m ps)) ms t) = mt_members t"
  "mt_lba_size (fold (\<lambda>m. register_replica (make_replica m ps)) ms t) = mt_lba_size t"
  "mt_term (fold (\<lambda>m. register_replica (make_replica m ps)) ms t) = mt_term t"
  "mt_leader (fold (\<lambda>m. register_replica (make_replica m ps)) ms t) = mt_leader t"
  by (induction ms arbitrary: t) (simp_all add: register_replica_def)

lemma group_inv:
  assumes "length vol_id = 16" "n \<le> 2 ^ 32" "2 \<le> ps" "ps < 2 ^ 32"
  shows "cluster_inv (make_mem_replica_group addr_of vol_id n ps capacity max_tx)"
proof -
  let ?ms = "map (\<lambda>i. \<lparr>ep_id = mem_replica_id vol_id (word_of_nat i), ep_addr = addr_of i\<rparr>) [0..<n]"
  let ?t = "make_mem_replica_group addr_of vol_id n ps capacity max_tx"
  have "i = j" if "i < n" "j < n" "mem_replica_id vol_id (word_of_nat i) = mem_replica_id vol_id (word_of_nat j)" for i j
    using arg_cong [OF replica_id_inj [OF assms(1) that(3)], of unat] that(1,2) assms(2)
    by (simp add: unat_of_nat)
  then have "distinct (map ep_id ?ms)" by (auto simp: distinct_map inj_on_def)
  moreover have "replica_ok ?t r" if "replica_for ?t k = Some r" for k r
  proof -
    have "r \<in> (\<lambda>m. make_replica m ps) ` set ?ms"
      using group_replica_for [of ps ?ms "make_transport ?ms ps capacity max_tx" k r] that
      by (auto simp: make_mem_replica_group_def Let_def make_transport_def replica_for_def)
    then obtain m where m: "r = make_replica m ps" by blast
    have "mt_lba_size ?t = ps" "mt_term ?t = 0"
      by (simp_all add: make_mem_replica_group_def Let_def make_transport_def)
    moreover have "rp_page_size r = ps" "rp_term r = 0" by (simp_all add: m make_replica_def)
    ultimately show ?thesis
      using make_replica_inv [OF assms(3,4), of m] by (simp add: replica_ok_def m)
  qed
  ultimately show ?thesis
    by (simp add: cluster_inv_def make_mem_replica_group_def Let_def make_transport_def)
qed

lemma group_live:
  "live_replicas (make_mem_replica_group addr_of vol_id n ps capacity max_tx) =
     map ep_id (mt_members (make_mem_replica_group addr_of vol_id n ps capacity max_tx))"
proof -
  let ?ms = "map (\<lambda>i. \<lparr>ep_id = mem_replica_id vol_id (word_of_nat i), ep_addr = addr_of i\<rparr>) [0..<n]"
  let ?t0 = "make_transport ?ms ps capacity max_tx"
  let ?t = "fold (\<lambda>m. register_replica (make_replica m ps)) ?ms ?t0"
  have "\<exists>r. replica_for ?t k = Some r \<and> rf_up (rp_faults r)" if "k \<in> ep_id ` set ?ms" for k
  proof -
    from that have "replica_for ?t k \<noteq> None" by (intro group_registered disjI1)
    then obtain r where r: "replica_for ?t k = Some r" by blast
    then have "r \<in> (\<lambda>m. make_replica m ps) ` set ?ms"
      using group_replica_for [OF r] by (auto simp: make_transport_def replica_for_def)
    then have "rf_up (rp_faults r)" by (auto simp: make_replica_def no_faults_def)
    with r show ?thesis by blast
  qed
  then have "filter (\<lambda>k. case replica_for ?t k of None \<Rightarrow> False | Some r \<Rightarrow> rf_up (rp_faults r)) (map ep_id ?ms) = map ep_id ?ms"
    by (fastforce simp: filter_id_conv)
  then show ?thesis
    unfolding live_replicas_def make_mem_replica_group_def Let_def register_frame
    by (simp add: make_transport_def)
qed

section \<open>Both delivery paths agree\<close>

lemma ring_write_is_send_write:
  assumes "0 \<le> rf_delay rf"
  shows "ring_write_issue (Some op_to) rf data = send_write_issue rf op_to data"
  using assms by (auto simp: ring_write_issue_def send_write_issue_def plan_delivery_def ring_times_out_def
      payload_of_def Let_def)

lemma peek_empties_upto:
  assumes "om_ok (rp_journal r)"
  shows "peek_empties lim r = map fst (filter (\<lambda>e. sl_is_empty (snd e)) (om_upto lim (rp_journal r)))"
  by (simp add: peek_empties_def takeWhile_upto [OF assms])

lemma set_peek_empties:
  assumes "om_ok (rp_journal r)"
  shows "set (peek_empties lim r) = {d. d \<le> lim \<and> (\<exists>s. peek_slot d r = Some s \<and> sl_is_empty s)}"
  unfolding peek_empties_upto [OF assms] peek_slot_def
  by (force simp: om_upto_def om_ok_mem [OF assms, symmetric])

section \<open>Reachable sets\<close>

text \<open>
  What may happen to a replica set built by the factory: an operation arrives at a member, with
  any header, dLSN and payload and as often as the network likes (a late or repeated delivery
  is one more arrival); a login, a resolution round or a logout runs on any member; a fault
  knob of a member, the leader or the timeout is set. Each is one step, so a write that
  lands inside a round, between its scan and its verdicts, is not covered. \<open>do_resolve_local\<close> is
  not a step: it is the round of a standalone replica that has no group.
\<close>

inductive cluster_step :: "MemTransport \<Rightarrow> MemTransport \<Rightarrow> bool" where
  cs_write: "addr < 2 ^ 64 \<Longrightarrow> cluster_step t (on_replica pid (\<lambda>r. snd (do_write hdr dlsn addr len bytes r)) t)"
| cs_read: "cluster_step t (on_replica pid (\<lambda>r. snd (snd (do_read hdr H addr len dest r))) t)"
| cs_keep_alive: "cluster_step t (on_replica pid (\<lambda>r. snd (do_keep_alive hdr r)) t)"
| cs_login: "cluster_step t (snd (run_login caller token t))"
| cs_resolution: "cluster_step t (snd (run_resolution caller trm lim t))"
| cs_logout: "cluster_step t (snd (run_logout caller t))"
| cs_set_up: "cluster_step t (net_set_up pid b t)"
| cs_set_delay: "cluster_step t (net_set_delay pid ms t)"
| cs_drop_writes: "cluster_step t (on_replica pid (drop_writes b) t)"
| cs_clear_faults: "cluster_step t (on_replica pid clear_faults t)"
| cs_set_leader: "cluster_step t (set_leader pid t)"
| cs_set_op_timeout: "cluster_step t (set_op_timeout ms t)"

text \<open>A member holds data, or a tombstone, at a dLSN.\<close>

definition data_at :: "MemTransport \<Rightarrow> peer_id \<Rightarrow> int \<Rightarrow> bool" where
  "data_at t k d = (case Option.bind (replica_for t k) (peek_slot d) of None \<Rightarrow> False | Some s \<Rightarrow> \<not> sl_is_empty s)"

definition empty_at :: "MemTransport \<Rightarrow> peer_id \<Rightarrow> int \<Rightarrow> bool" where
  "empty_at t k d = (case Option.bind (replica_for t k) (peek_slot d) of None \<Rightarrow> False | Some s \<Rightarrow> sl_is_empty s)"

definition by_quorum :: "MemTransport \<Rightarrow> (peer_id \<Rightarrow> bool) \<Rightarrow> bool" where
  "by_quorum t P \<longleftrightarrow> quorum (length (mt_members t)) \<le> card {k \<in> set (map ep_id (mt_members t)). P k}"

text \<open>A tombstone anywhere is a tombstone on a quorum: rounds write verdicts to the whole live set.\<close>

definition verdicts_backed :: "MemTransport \<Rightarrow> bool" where
  "verdicts_backed t \<longleftrightarrow> (\<forall>k d. empty_at t k d \<longrightarrow> by_quorum t (\<lambda>k. empty_at t k d))"

lemma at_iff:
  "data_at t k d \<longleftrightarrow> (\<exists>r s. replica_for t k = Some r \<and> peek_slot d r = Some s \<and> \<not> sl_is_empty s)"
  "empty_at t k d \<longleftrightarrow> (\<exists>r s. replica_for t k = Some r \<and> peek_slot d r = Some s \<and> sl_is_empty s)"
  by (auto simp: data_at_def empty_at_def bind_eq_Some_conv split: option.splits)

lemma data_not_empty: "data_at t k d \<Longrightarrow> \<not> empty_at t k d"
  by (auto simp: at_iff)

lemma by_quorum_mono:
  assumes "by_quorum t P" "mt_members t' = mt_members t" "\<And>k. P k \<Longrightarrow> P' k"
  shows "by_quorum t' P'"
proof -
  have "card {k \<in> set (map ep_id (mt_members t)). P k} \<le> card {k \<in> set (map ep_id (mt_members t)). P' k}"
    using assms(3) by (intro card_mono) auto
  with assms(1,2) show ?thesis by (simp add: by_quorum_def)
qed

lemma by_quorum_meets:
  assumes "journals_ok t" "by_quorum t P" "by_quorum t P'"
  shows "\<exists>k. P k \<and> P' k"
proof -
  let ?ms = "map ep_id (mt_members t)"
  have "{k \<in> set ?ms. P k} \<inter> {k \<in> set ?ms. P' k} \<noteq> {}"
    by (rule quorum_meets [of ?ms]) (use assms in \<open>auto simp: by_quorum_def journals_ok_def\<close>)
  then show ?thesis by blast
qed

lemma by_quorum_live:
  assumes "journals_ok t" "quorum (length (mt_members t)) \<le> length (live_replicas t)"
  shows "by_quorum t (\<lambda>k. k \<in> set (live_replicas t))"
proof -
  have "{k \<in> set (map ep_id (mt_members t)). k \<in> set (live_replicas t)} = set (live_replicas t)"
    using live_member by blast
  then show ?thesis using assms(2) distinct_card [OF distinct_live [OF assms(1)]] by (simp add: by_quorum_def)
qed

text \<open>
  Every step but a round leaves the tombstones as they are and keeps the data: what it does to
  one replica is \<open>calm\<close>, for a set whose term is \<open>trm\<close> afterwards.
\<close>

definition calm :: "nat \<Rightarrow> MemCraftReplica \<Rightarrow> MemCraftReplica \<Rightarrow> bool" where
  "calm trm r r' \<longleftrightarrow> (journal_inv r \<longrightarrow> journal_inv r') \<and> rp_page_size r' = rp_page_size r \<and>
     (rp_term r \<le> trm \<longrightarrow> rp_term r' \<le> trm) \<and>
     (\<forall>d. case peek_slot d r of
            None \<Rightarrow> (case peek_slot d r' of None \<Rightarrow> True | Some s' \<Rightarrow> \<not> sl_is_empty s')
          | Some s \<Rightarrow> (case peek_slot d r' of None \<Rightarrow> False | Some s' \<Rightarrow> sl_is_empty s' = sl_is_empty s))"

definition calm_step :: "MemTransport \<Rightarrow> MemTransport \<Rightarrow> bool" where
  "calm_step t t' \<longleftrightarrow> journals_ok t' \<and> mt_members t' = mt_members t \<and>
     (\<forall>k d. empty_at t' k d = empty_at t k d) \<and> (\<forall>k d. data_at t k d \<longrightarrow> data_at t' k d)"

lemma calm_refl [simp]: "calm trm r r"
  by (simp add: calm_def split: option.split)

lemma calm_write: "addr < 2 ^ 64 \<Longrightarrow> calm trm r (snd (do_write hdr dlsn addr len bytes r))"
  using do_write_journal [of r addr hdr dlsn len bytes]
  by (auto simp: calm_def do_write_def Let_def peek_slot_def split: option.split)

lemma calm_read: "calm trm r (snd (snd (do_read hdr H addr len dest r)))"
  using do_read_journal [of r hdr H addr len dest]
  by (auto simp: calm_def do_read_def Let_def case_prod_beta peek_slot_def split: option.split)

lemma calm_keep_alive: "calm trm r (snd (do_keep_alive hdr r))"
  using do_keep_alive_journal [of r hdr]
  by (auto simp: calm_def do_keep_alive_def Let_def peek_slot_def split: option.split)

lemma calm_cold:
  "calm trm r (cold_apply_login token trm (apply_up_to rs r))" "calm trm r (cold_apply_logout r)"
  "calm trm r (set_up b r)" "calm trm r (set_delay ms r)" "calm trm r (drop_writes b r)" "calm trm r (clear_faults r)"
  by (auto simp: calm_def cold_defs peek_slot_def apply_up_to_journal journal_irrelevant split: option.split)

lemma calm_stepI:
  assumes "journals_ok t" "mt_members t' = mt_members t" "mt_lba_size t' = mt_lba_size t" "mt_term t \<le> mt_term t'"
    and r: "\<And>k. replica_for t' k = map_option (g k) (replica_for t k)" and g: "\<And>k r. calm (mt_term t') r (g k r)"
  shows "calm_step t t'"
proof -
  have "member_ok t' r'" if "replica_for t' k = Some r'" for k r'
  proof -
    from that obtain q where q: "replica_for t k = Some q" "r' = g k q" by (auto simp: r)
    from journals_okD [OF assms(1) q(1)] g [of q k] assms(3,4) show ?thesis by (auto simp: member_ok_def calm_def q(2))
  qed
  moreover have "empty_at t' k d = empty_at t k d \<and> (data_at t k d \<longrightarrow> data_at t' k d)" for k d
  proof (cases "replica_for t k")
    case (Some q)
    have "case peek_slot d q of
            None \<Rightarrow> (case peek_slot d (g k q) of None \<Rightarrow> True | Some s' \<Rightarrow> \<not> sl_is_empty s')
          | Some s \<Rightarrow> (case peek_slot d (g k q) of None \<Rightarrow> False | Some s' \<Rightarrow> sl_is_empty s' = sl_is_empty s)"
      using g [of q k] unfolding calm_def by blast
    then show ?thesis by (auto simp: at_iff r Some split: option.splits)
  qed (simp add: at_iff r)
  ultimately show ?thesis using assms(1,2) by (simp add: calm_step_def journals_ok_def)
qed

lemma calm_on_replica:
  assumes "journals_ok t" "\<And>r. calm (mt_term t) r (f r)"
  shows "calm_step t (on_replica pid f t)"
  by (rule calm_stepI [OF assms(1), where g = "\<lambda>k r. if k = pid then f r else r"]) (simp_all add: assms(2))

lemma calm_login:
  assumes ok: "journals_ok t"
  shows "calm_step t (snd (run_login caller token t))"
proof (cases "caller_up t caller \<and> caller = mt_leader t \<and> quorum (length (mt_members t)) \<le> length (live_replicas t)")
  case True
  then have c: "caller = mt_leader t" and up: "caller_up t (mt_leader t)"
    and q: "quorum (length (mt_members t)) \<le> length (live_replicas t)" by auto
  let ?g = "\<lambda>k r. if k \<in> set (live_replicas t)
    then cold_apply_login token (mt_term t + 1) (apply_up_to (rs_commit t (live_replicas t)) r) else r"
  obtain lr t' where run: "run_login (mt_leader t) token t = (Inr lr, t')"
    and t: "mt_term t' = mt_term t + 1" "mt_members t' = mt_members t" "mt_lba_size t' = mt_lba_size t"
    and r: "\<And>k. replica_for t' k = map_option (?g k) (replica_for t k)"
    by (rule run_login_ok [OF ok up q, of token]) blast
  have "calm_step t t'"
    by (rule calm_stepI [OF ok t(2,3) _ r]) (simp_all add: t calm_cold)
  then show ?thesis by (simp add: c run)
next
  case False
  then have "snd (run_login caller token t) = t" by (auto simp: run_login_def Let_def not_less)
  then show ?thesis using ok by (simp add: calm_step_def)
qed

lemma calm_logout:
  assumes "journals_ok t"
  shows "calm_step t (snd (run_logout caller t))"
proof -
  have "calm_step t (for_each (live_replicas t) cold_apply_logout t)"
    by (rule calm_stepI [OF assms _ _ _ replica_for_each [OF distinct_live [OF assms]]]) (simp_all add: calm_cold)
  moreover have "calm_step t t" using assms by (simp add: calm_step_def)
  ultimately show ?thesis by (simp add: run_logout_def)
qed

text \<open>A round keeps the tombstones backed, and keeps every slot that a quorum holds.\<close>

lemma round_backed:
  assumes ok: "journals_ok t" and vb: "verdicts_backed t" and t': "t' = snd (run_resolution caller trm lim t)"
  shows "journals_ok t' \<and> mt_members t' = mt_members t \<and> verdicts_backed t' \<and>
    (\<forall>k d. by_quorum t (\<lambda>k. data_at t k d) \<and> data_at t k d \<longrightarrow> data_at t' k d)"
proof (cases "caller_up t caller \<and> caller = mt_leader t \<and> trm = mt_term t \<and>
    quorum (length (mt_members t)) \<le> length (live_replicas t)")
  case True
  let ?live = "live_replicas t" and ?fl = "live_floor t (live_replicas t)"
  have q: "quorum (length (mt_members t)) \<le> length ?live" using True by blast
  obtain e where ok': "journals_ok t'" and mem: "mt_members t' = mt_members t"
    and dead: "\<And>k. k \<notin> set ?live \<Longrightarrow> replica_for t' k = replica_for t k"
    and live: "\<And>k. k \<in> set ?live \<Longrightarrow> \<exists>r r'. replica_for t k = Some r \<and> replica_for t' k = Some r' \<and>
        (\<forall>d. d \<le> ?fl \<or> lim < d \<longrightarrow> peek_slot d r' = peek_slot d r)"
    and st: "\<And>k d. k \<in> set ?live \<Longrightarrow> ?fl < d \<Longrightarrow> d \<le> lim \<Longrightarrow> settled t ?live t' k d"
    by (rule run_resolution_ok [OF ok _ q, of lim]) (use True in \<open>fastforce simp: t'\<close>)+
  note lq = by_quorum_live [OF ok q]
  have out: "empty_at t' k d = empty_at t k d \<and> data_at t' k d = data_at t k d"
    if "k \<notin> set ?live \<or> d \<le> ?fl \<or> lim < d" for k d
    using that dead [of k] live [of k] by (cases "k \<in> set ?live") (auto simp: at_iff)
  have inside: "if voided t ?live d then empty_at t' k d else data_at t' k d"
    if "k \<in> set ?live" "?fl < d" "d \<le> lim" for k d
    using st [OF that] live [OF that(1)] unfolding settled_def at_iff by (fastforce simp: empty_slot_def)
  have "by_quorum t' (\<lambda>k. empty_at t' k d)" if e: "empty_at t' k d" for k d
  proof (cases "?fl < d \<and> d \<le> lim")
    case False
    then have o: "empty_at t' k d = empty_at t k d" for k using out [of k d] by auto
    with e vb have "by_quorum t (\<lambda>k. empty_at t k d)" by (auto simp: verdicts_backed_def)
    then show ?thesis by (rule by_quorum_mono) (simp_all add: mem o)
  next
    case d: True
    show ?thesis
    proof (cases "voided t ?live d")
      case True
      show ?thesis using lq by (rule by_quorum_mono) (use mem inside True d in auto)
    next
      case nv: False
      have "k \<notin> set ?live" using inside [of k d] d nv e data_not_empty by auto
      then have "by_quorum t (\<lambda>k. empty_at t k d)" using e vb out [of k d] by (auto simp: verdicts_backed_def)
      from by_quorum_meets [OF ok this lq] nv have False by (auto simp: voided_iff at_iff)
      then show ?thesis ..
    qed
  qed
  moreover have "data_at t' k d" if dq: "by_quorum t (\<lambda>k. data_at t k d)" and k: "data_at t k d" for k d
  proof -
    have "\<not> voided t ?live d"
    proof
      assume "voided t ?live d"
      then consider j where "empty_at t j d" | "\<forall>k \<in> set ?live. \<not> data_at t k d" by (auto simp: voided_iff at_iff)
      then show False
      proof cases
        case 1
        then have "by_quorum t (\<lambda>k. empty_at t k d)" using vb by (auto simp: verdicts_backed_def)
        from by_quorum_meets [OF ok dq this] data_not_empty show ?thesis by blast
      qed (use by_quorum_meets [OF ok dq lq] in blast)
    qed
    then show ?thesis using inside [of k d] out [of k d] k by (cases "k \<in> set ?live \<and> ?fl < d \<and> d \<le> lim") auto
  qed
  ultimately show ?thesis using ok' mem by (simp add: verdicts_backed_def)
next
  case False
  then have "t' = t" by (auto simp: t' run_resolution_def Let_def not_less)
  then show ?thesis using ok vb by simp
qed

lemma cluster_step_cases:
  assumes "cluster_step t t'" "journals_ok t"
  shows "calm_step t t' \<or> (\<exists>caller trm lim. t' = snd (run_resolution caller trm lim t))"
  using assms(1)
proof cases
  case cs_resolution
  then show ?thesis by blast
next
  case (cs_set_leader pid)
  then show ?thesis
    by (intro disjI1 calm_stepI [OF assms(2), where g = "\<lambda>_ r. r"])
      (simp_all add: set_leader_def replica_for_def option.map_ident)
next
  case (cs_set_op_timeout ms)
  then show ?thesis
    by (intro disjI1 calm_stepI [OF assms(2), where g = "\<lambda>_ r. r"])
      (simp_all add: set_op_timeout_def replica_for_def option.map_ident)
qed (simp_all add: calm_login calm_logout net_set_up_def net_set_delay_def calm_on_replica assms(2) calm_write calm_read
    calm_keep_alive calm_cold)

lemma cluster_step_keeps:
  assumes "cluster_step t t'" "journals_ok t" "verdicts_backed t"
  shows "journals_ok t' \<and> mt_members t' = mt_members t \<and> verdicts_backed t' \<and>
    (\<forall>k d. by_quorum t (\<lambda>k. data_at t k d) \<and> data_at t k d \<longrightarrow> data_at t' k d)"
  using cluster_step_cases [OF assms(1,2)]
proof
  assume c: "calm_step t t'"
  then have e: "empty_at t' k d = empty_at t k d" and m: "mt_members t' = mt_members t" for k d
    by (simp_all add: calm_step_def)
  have "verdicts_backed t'" using assms(3) by (simp add: verdicts_backed_def e by_quorum_def m)
  then show ?thesis using c by (simp add: calm_step_def)
next
  assume "\<exists>caller trm lim. t' = snd (run_resolution caller trm lim t)"
  then show ?thesis using round_backed [OF assms(2,3)] by blast
qed

lemma cluster_steps_keep:
  assumes "cluster_step\<^sup>*\<^sup>* t t'" "journals_ok t" "verdicts_backed t"
  shows "journals_ok t' \<and> mt_members t' = mt_members t \<and> verdicts_backed t' \<and>
    (\<forall>k d. by_quorum t (\<lambda>k. data_at t k d) \<and> data_at t k d \<longrightarrow> data_at t' k d)"
  using assms(1)
proof (induction rule: rtranclp_induct)
  case base
  show ?case using assms(2,3) by simp
next
  case (step t1 t2)
  then have IH: "journals_ok t1" "mt_members t1 = mt_members t" "verdicts_backed t1"
    "\<And>k d. by_quorum t (\<lambda>k. data_at t k d) \<Longrightarrow> data_at t k d \<Longrightarrow> data_at t1 k d" by blast+
  note S = cluster_step_keeps [OF step.hyps(2) IH(1,3)]
  have "data_at t2 k d" if "by_quorum t (\<lambda>k. data_at t k d)" "data_at t k d" for k d
  proof -
    have "by_quorum t1 (\<lambda>k. data_at t1 k d)" by (rule by_quorum_mono [OF that(1) IH(2)]) (rule IH(4) [OF that(1)])
    then show ?thesis using S IH(4) [OF that] by blast
  qed
  then show ?case using S IH(2) by auto
qed

lemma group_backed:
  assumes "length vol_id = 16" "n \<le> 2 ^ 32" "2 \<le> ps" "ps < 2 ^ 32"
  shows "journals_ok (make_mem_replica_group addr_of vol_id n ps capacity max_tx) \<and>
    verdicts_backed (make_mem_replica_group addr_of vol_id n ps capacity max_tx)"
proof -
  let ?ms = "map (\<lambda>i. \<lparr>ep_id = mem_replica_id vol_id (word_of_nat i), ep_addr = addr_of i\<rparr>) [0..<n]"
  let ?t = "make_mem_replica_group addr_of vol_id n ps capacity max_tx"
  have "peek_slot d r = None" if "replica_for ?t k = Some r" for k r d
    using group_replica_for [of ps ?ms "make_transport ?ms ps capacity max_tx" k r] that
    by (auto simp: make_mem_replica_group_def Let_def make_transport_def replica_for_def peek_slot_def make_replica_def)
  then have "verdicts_backed ?t" by (auto simp: verdicts_backed_def at_iff)
  then show ?thesis using cluster_inv_journals [OF group_inv [OF assms]] by simp
qed

text \<open>Every reachable set has sound journals and backed verdicts.\<close>

lemma cluster_reachable:
  assumes "length vol_id = 16" "n \<le> 2 ^ 32" "2 \<le> ps" "ps < 2 ^ 32"
    and "cluster_step\<^sup>*\<^sup>* (make_mem_replica_group addr_of vol_id n ps capacity max_tx) t"
  shows "journals_ok t" "verdicts_backed t"
  using cluster_steps_keep [OF assms(5)] group_backed [OF assms(1-4)] by blast+

section \<open>The example set of the witnesses\<close>

definition set3 :: MemTransport where
  "set3 = make_mem_replica_group (\<lambda>_. []) (replicate 16 0) 3 4096 65536 4096"

lemma set3_inv: "cluster_inv set3"
  unfolding set3_def by (rule group_inv) simp_all

lemma set3_leader: "mt_leader set3 = hd (map ep_id (mt_members set3))" "mt_term set3 = 0" "length (mt_members set3) = 3"
  by (simp_all add: set3_def make_mem_replica_group_def Let_def make_transport_def register_replica_def upt_rec)

lemma set3_live: "live_replicas set3 = map ep_id (mt_members set3)"
  unfolding set3_def by (rule group_live)

lemma set3_up: "caller_up set3 (mt_leader set3)"
proof -
  have "mt_leader set3 \<in> set (live_replicas set3)"
    unfolding set3_leader set3_live using set3_leader(3) by (intro hd_in_set) auto
  from live_registered [OF this] show ?thesis by (auto simp: caller_up_def)
qed

lemma set3_quorum: "quorum (length (mt_members set3)) \<le> length (live_replicas set3)"
  by (simp add: set3_live set3_leader quorum_def)

lemma set3_replica:
  "replica_for set3 k = Some r \<Longrightarrow> rp_journal r = [] \<and> rp_commit_lsn r = -1 \<and> rp_last_append_lsn r = -1 \<and>
     rp_term r = 0 \<and> rp_page_size r = 4096"
  unfolding set3_def make_mem_replica_group_def Let_def
  by (drule group_replica_for) (auto simp: make_transport_def replica_for_def make_replica_def)

text \<open>The same set after one zero write, at dLSN 0, has arrived at every member.\<close>

definition zero_slot :: MemJournalSlot where
  "zero_slot = \<lparr>sl_term = 0, sl_lba = 0, sl_len = 1, sl_all_zeros = True, sl_is_empty = False, sl_bytes = None\<rparr>"

definition data3 :: MemTransport where
  "data3 = for_each (live_replicas set3) (\<lambda>r. snd (do_write hdr0 0 0 4096 None r)) set3"

lemma zero_slot_data: "\<not> sl_is_empty zero_slot"
  by (simp add: zero_slot_def)

lemma writes_reach: "cluster_step\<^sup>*\<^sup>* t (for_each ks (\<lambda>r. snd (do_write hdr d 0 len bytes r)) t)"
  unfolding for_each_def
proof (induction ks arbitrary: t)
  case (Cons k ks)
  have "cluster_step t (on_replica k (\<lambda>r. snd (do_write hdr d 0 len bytes r)) t)" by (rule cs_write) simp
  from converse_rtranclp_into_rtranclp [OF this Cons.IH] show ?case by simp
qed simp

lemma data3_reach: "cluster_step\<^sup>*\<^sup>* (make_mem_replica_group (\<lambda>_. []) (replicate 16 0) 3 4096 65536 4096) data3"
  using writes_reach [of set3] by (simp add: data3_def set3_def)

lemma data3_ok: "journals_ok data3"
  using cluster_reachable(1) [OF _ _ _ _ data3_reach] by simp

lemma data3_for:
  "replica_for data3 k = map_option (\<lambda>r. if k \<in> set (live_replicas set3) then snd (do_write hdr0 0 0 4096 None r) else r)
     (replica_for set3 k)"
  unfolding data3_def by (rule replica_for_each [OF distinct_live [OF cluster_inv_journals [OF set3_inv]]])

lemma data3_frame: "mt_members data3 = mt_members set3" "mt_leader data3 = mt_leader set3" "mt_term data3 = mt_term set3"
  by (simp_all add: data3_def)

lemma data3_live: "live_replicas data3 = live_replicas set3"
proof -
  have "(case replica_for data3 k of None \<Rightarrow> False | Some r \<Rightarrow> rf_up (rp_faults r)) =
      (case replica_for set3 k of None \<Rightarrow> False | Some r \<Rightarrow> rf_up (rp_faults r))" for k
    by (cases "replica_for set3 k") (simp_all add: data3_for do_write_def Let_def)
  then show ?thesis by (simp add: live_replicas_def data3_frame)
qed

lemma data3_replica:
  assumes "k \<in> set (live_replicas data3)" "replica_for data3 k = Some r"
  shows "rp_commit_lsn r = -1 \<and> rp_journal r = [(0, zero_slot)] \<and> peek_slot 0 r = Some zero_slot"
proof -
  obtain q where "replica_for set3 k = Some q" "r = snd (do_write hdr0 0 0 4096 None q)"
    using assms by (auto simp: data3_for data3_live)
  then show ?thesis using set3_replica [of k q]
    by (simp add: do_write_def misaligned_def hdr0_def Let_def apply_up_to_stop peek_slot_def zero_slot_def)
qed

lemma data3_leader: "mt_leader data3 \<in> set (live_replicas data3)"
  unfolding data3_live data3_frame set3_leader set3_live using set3_leader(3) by (intro hd_in_set) auto

lemma data3_up: "caller_up data3 (mt_leader data3)"
  using live_registered [OF data3_leader] by (auto simp: caller_up_def)

lemma data3_quorum: "quorum (length (mt_members data3)) \<le> length (live_replicas data3)"
  using set3_quorum by (simp add: data3_live data3_frame)

lemma data3_data: "k \<in> set (live_replicas data3) \<Longrightarrow> data_at data3 k 0"
  using data3_replica [of k] live_registered [of k data3] zero_slot_data by (auto simp: at_iff)

lemma data3_floor: "live_floor data3 (live_replicas data3) < 0"
proof -
  obtain r where "replica_for data3 (mt_leader data3) = Some r" using live_registered [OF data3_leader] by blast
  with live_floor_lower [OF data3_leader this] data3_replica [OF data3_leader this] show ?thesis by simp
qed

section \<open>Properties\<close>

text \<open>C14: The leader's resolution round reaches agreement. On every set whose journals are sound (as
  those of every reachable set are) a round with a live quorum succeeds, keeps the journals
  sound, leaves unreachable members alone, and commits every live member up to the bound.
  Every dLSN above the live set's common floor ends up the same way in all live journals: a
  tombstone when a member already had the Empty verdict or none held the slot, otherwise
  data, which is the member's own copy or one fetched from a live holder; and the reply lists
  the voided ones. The agreement is one of journals above the floor: slots at or below the
  floor are not compared, and on a member that had already committed up to the bound the
  block index stays as it was, so a slot the round voids there is still served.\<close>

theorem run_resolution_agreement:
  assumes "journals_ok t" "caller_up t (mt_leader t)"
    and "quorum (length (mt_members t)) \<le> length (live_replicas t)"
  shows "\<exists>t' empties. run_resolution (mt_leader t) (mt_term t) lim t =
        (Inr \<lparr>rs_resolved_upto = lim, rs_empty_slots = empties\<rparr>, t') \<and>
      journals_ok t' \<and>
      (\<forall>k. k \<notin> set (live_replicas t) \<longrightarrow> replica_for t' k = replica_for t k) \<and>
      (\<forall>k \<in> set (live_replicas t).
         (\<exists>r r'. replica_for t k = Some r \<and> replica_for t' k = Some r' \<and> rp_commit_lsn r' = max (rp_commit_lsn r) lim \<and>
            (lim \<le> rp_commit_lsn r \<longrightarrow> rp_index r' = rp_index r) \<and>
            (\<forall>d. d \<le> live_floor t (live_replicas t) \<or> lim < d \<longrightarrow> peek_slot d r' = peek_slot d r)) \<and>
         (\<forall>d. live_floor t (live_replicas t) < d \<and> d \<le> lim \<longrightarrow> settled t (live_replicas t) t' k d)) \<and>
      (mt_leader t \<in> set (live_replicas t) \<longrightarrow>
         (\<forall>d. live_floor t (live_replicas t) < d \<and> d \<le> lim \<longrightarrow> (d \<in> set empties \<longleftrightarrow> voided t (live_replicas t) d)))"
proof (rule run_resolution_ok [OF assms, of lim])
  let ?live = "live_replicas t" and ?ld = "mt_leader t"
  fix t'
  assume run: "run_resolution ?ld (mt_term t) lim t = (Inr \<lparr>rs_resolved_upto = lim,
      rs_empty_slots = (case replica_for t' ?ld of None \<Rightarrow> [] | Some r \<Rightarrow> peek_empties lim r)\<rparr>, t')"
    and ok: "journals_ok t'" and dead: "\<And>k. k \<notin> set ?live \<Longrightarrow> replica_for t' k = replica_for t k"
    and live: "\<And>k. k \<in> set ?live \<Longrightarrow> \<exists>r r'. replica_for t k = Some r \<and> replica_for t' k = Some r' \<and>
        rp_commit_lsn r' = max (rp_commit_lsn r) lim \<and> (lim \<le> rp_commit_lsn r \<longrightarrow> rp_index r' = rp_index r) \<and>
        (\<forall>d. d \<le> live_floor t ?live \<or> lim < d \<longrightarrow> peek_slot d r' = peek_slot d r)"
    and st: "\<And>k d. k \<in> set ?live \<Longrightarrow> live_floor t ?live < d \<Longrightarrow> d \<le> lim \<Longrightarrow> settled t ?live t' k d"
  have "d \<in> set (case replica_for t' ?ld of None \<Rightarrow> [] | Some r \<Rightarrow> peek_empties lim r) \<longleftrightarrow> voided t ?live d"
    if l: "?ld \<in> set ?live" and d: "live_floor t ?live < d" "d \<le> lim" for d
  proof -
    obtain r r' where r: "replica_for t ?ld = Some r" "replica_for t' ?ld = Some r'" using live [OF l] by blast
    have "om_ok (rp_journal r')" using journals_okD [OF ok r(2)] by (simp add: member_ok_def journal_inv_def)
    from set_peek_empties [OF this, of lim] st [OF l d] r d(2) show ?thesis
      unfolding settled_def by (auto simp: empty_slot_def split: if_splits)
  qed
  then show ?thesis using run ok dead live st by blast
qed

theorem run_resolution_agreement_witness:
  "\<exists>t' empties. run_resolution (mt_leader data3) (mt_term data3) 1 data3 =
      (Inr \<lparr>rs_resolved_upto = 1, rs_empty_slots = empties\<rparr>, t') \<and> journals_ok t' \<and> 0 \<notin> set empties \<and> 1 \<in> set empties"
proof -
  have "\<not> voided data3 (live_replicas data3) 0"
    using data3_data data3_leader data3_replica zero_slot_data by (fastforce simp: voided_iff at_iff)
  moreover have "voided data3 (live_replicas data3) 1"
    using data3_replica by (fastforce simp: voided_iff peek_slot_def)
  ultimately show ?thesis
    using run_resolution_agreement [OF data3_ok data3_up data3_quorum, of 1] data3_leader data3_floor by fastforce
qed

text \<open>C15: A durable write is never voided. Take any set reachable from a freshly built one, by
  writes, reads and keep-alives with any arguments, logins, logouts, rounds and faults in
  any order. Once a quorum of the members holds data at a dLSN, then whatever happens next every
  member that holds it keeps data there and no member of the group carries an Empty verdict
  for it; and a round that reaches past it leaves data there on every live member and does
  not report it Empty. No condition on the verdicts the set already carries is needed: a
  verdict is always backed by a quorum of tombstones.\<close>

theorem resolution_keeps_quorum_data:
  assumes "length vol_id = 16" "n \<le> 2 ^ 32" "2 \<le> ps" "ps < 2 ^ 32"
    and "cluster_step\<^sup>*\<^sup>* (make_mem_replica_group addr_of vol_id n ps capacity max_tx) t"
    and "quorum (length (mt_members t)) \<le> card {k \<in> set (map ep_id (mt_members t)). data_at t k d}"
    and "cluster_step\<^sup>*\<^sup>* t t'"
  shows "(\<forall>k. data_at t k d \<longrightarrow> data_at t' k d) \<and> (\<forall>k. \<not> empty_at t' k d) \<and>
    (caller_up t' (mt_leader t') \<and> quorum (length (mt_members t')) \<le> length (live_replicas t') \<and> 0 \<le> d \<and> d \<le> lim \<longrightarrow>
      (\<exists>empties t''. run_resolution (mt_leader t') (mt_term t') lim t' =
          (Inr \<lparr>rs_resolved_upto = lim, rs_empty_slots = empties\<rparr>, t'') \<and>
        d \<notin> set empties \<and> (\<forall>k \<in> set (live_replicas t'). data_at t'' k d)))"
proof -
  have ok: "journals_ok t" "verdicts_backed t" by (rule cluster_reachable [OF assms(1-5)])+
  have dq: "by_quorum t (\<lambda>k. data_at t k d)" using assms(6) by (simp add: by_quorum_def)
  have keep: "journals_ok u \<and> (\<forall>k. data_at t k d \<longrightarrow> data_at u k d) \<and> (\<forall>k. \<not> empty_at u k d)"
    if u: "cluster_step\<^sup>*\<^sup>* t u" for u
  proof -
    note K = cluster_steps_keep [OF u ok]
    have "by_quorum u (\<lambda>k. data_at u k d)" by (rule by_quorum_mono [OF dq]) (use K dq in blast)+
    then have "\<not> empty_at u k d" for k
      using K by_quorum_meets [of u "\<lambda>k. data_at u k d" "\<lambda>k. empty_at u k d"] data_not_empty
      by (auto simp: verdicts_backed_def)
    with K dq show ?thesis by blast
  qed
  note K = keep [OF assms(7)]
  have "\<exists>empties t''. run_resolution (mt_leader t') (mt_term t') lim t' =
          (Inr \<lparr>rs_resolved_upto = lim, rs_empty_slots = empties\<rparr>, t'') \<and>
        d \<notin> set empties \<and> (\<forall>k \<in> set (live_replicas t'). data_at t'' k d)"
    if up: "caller_up t' (mt_leader t')" and q: "quorum (length (mt_members t')) \<le> length (live_replicas t')"
      and d: "0 \<le> d" "d \<le> lim"
  proof (rule run_resolution_ok [OF conjunct1 [OF K] up q, of lim])
    fix t''
    let ?es = "case replica_for t'' (mt_leader t') of None \<Rightarrow> [] | Some r \<Rightarrow> peek_empties lim r"
    assume run: "run_resolution (mt_leader t') (mt_term t') lim t' = (Inr \<lparr>rs_resolved_upto = lim, rs_empty_slots = ?es\<rparr>, t'')"
      and live: "\<And>k. k \<in> set (live_replicas t') \<Longrightarrow> \<exists>r r'. replica_for t' k = Some r \<and> replica_for t'' k = Some r' \<and>
        rp_commit_lsn r' = max (rp_commit_lsn r) lim \<and> (lim \<le> rp_commit_lsn r \<longrightarrow> rp_index r' = rp_index r) \<and>
        (\<forall>d. d \<le> live_floor t' (live_replicas t') \<or> lim < d \<longrightarrow> peek_slot d r' = peek_slot d r)"
    have "cluster_step t' t''" using cs_resolution [of t' "mt_leader t'" "mt_term t'" lim] by (simp add: run)
    then have R: "journals_ok t''" "\<And>k. \<not> empty_at t'' k d"
      using keep [of t''] assms(7) by (auto intro: rtranclp.rtrancl_into_rtrancl)
    have J: "journal_inv r" if "replica_for t'' k = Some r" for k r
      using journals_okD [OF R(1) that] by (simp add: member_ok_def)
    have "data_at t'' k d" if k: "k \<in> set (live_replicas t')" for k
    proof -
      obtain r' where r': "replica_for t'' k = Some r'" "lim \<le> rp_commit_lsn r'" using live [OF k] by fastforce
      then show ?thesis using journal_invD(6) [OF J [OF r'(1)] d(1)] d(2) R(2) [of k] by (auto simp: at_iff peek_slot_def)
    qed
    moreover have "d \<notin> set ?es"
    proof (cases "replica_for t'' (mt_leader t')")
      case (Some r)
      then show ?thesis
        using set_peek_empties [OF journal_invD(1) [OF J [OF Some]], of lim] R(2) [of "mt_leader t'"] by (auto simp: at_iff)
    qed simp
    ultimately show ?thesis using run by blast
  qed
  with K show ?thesis by blast
qed

theorem resolution_keeps_quorum_data_witness:
  "\<not> empty_at data3 (mt_leader data3) 0 \<and>
   (\<exists>empties t''. run_resolution (mt_leader data3) (mt_term data3) 3 data3 =
        (Inr \<lparr>rs_resolved_upto = 3, rs_empty_slots = empties\<rparr>, t'') \<and> 0 \<notin> set empties \<and> data_at t'' (mt_leader data3) 0)"
proof -
  have "{k \<in> set (map ep_id (mt_members data3)). data_at data3 k 0} = set (live_replicas data3)"
    using data3_data live_member by (auto simp: data3_live set3_live data3_frame)
  then have q: "quorum (length (mt_members data3)) \<le> card {k \<in> set (map ep_id (mt_members data3)). data_at data3 k 0}"
    using data3_quorum distinct_card [OF distinct_live [OF data3_ok]] by simp
  show ?thesis
    using resolution_keeps_quorum_data [OF _ _ _ _ data3_reach q rtranclp.rtrancl_refl, of 3]
      data3_up data3_quorum data3_leader by fastforce
qed

text \<open>C21: Login installs one new session on the whole live set. It raises the term above every
  earlier one, applies the journal up to the returned dLSN (the largest append of the live
  set), gives every live member that term and token, keeps the invariants of the set, discards nothing from any journal, and
  leaves unreachable members alone; so every operation of an earlier session is refused by
  every live member.\<close>

theorem run_login_installs_session:
  assumes "journals_ok t" "caller_up t (mt_leader t)"
    and "quorum (length (mt_members t)) \<le> length (live_replicas t)"
  shows "\<exists>lr t'. run_login (mt_leader t) token t = (Inr lr, t') \<and> journals_ok t' \<and> (cluster_inv t \<longrightarrow> cluster_inv t') \<and>
      lr_term lr = mt_term t + 1 \<and> lr_members lr = mt_members t \<and>
      (\<forall>k. k \<notin> set (live_replicas t) \<longrightarrow> replica_for t' k = replica_for t k) \<and>
      (\<forall>k \<in> set (live_replicas t). \<exists>r r'. replica_for t k = Some r \<and> replica_for t' k = Some r' \<and>
         rp_term r' = lr_term lr \<and> rp_client_token r' = token \<and> rp_journal r' = rp_journal r \<and>
         rp_last_append_lsn r' \<le> lr_dLSN lr \<and>
         (\<forall>hdr dlsn addr len bytes. ch_term hdr \<le> mt_term t \<longrightarrow> snd (do_write hdr dlsn addr len bytes r') = r'))"
proof -
  let ?live = "live_replicas t"
  obtain lr t' where run: "run_login (mt_leader t) token t = (Inr lr, t')" "lr_term lr = mt_term t + 1"
      "lr_members lr = mt_members t" "lr_dLSN lr = rs_commit t ?live"
    and r: "\<And>k. replica_for t' k = map_option (\<lambda>r. if k \<in> set ?live
        then cold_apply_login token (mt_term t + 1) (apply_up_to (rs_commit t ?live) r) else r) (replica_for t k)"
    by (rule run_login_ok [OF assms, of token]) fastforce
  have "cluster_inv t'" if "cluster_inv t" using run_login_inv [OF that, of "mt_leader t" token] by (simp add: run(1))
  moreover have "journals_ok t'" using calm_login [OF assms(1), of "mt_leader t" token] by (simp add: run(1) calm_step_def)
  moreover have "\<exists>r r'. replica_for t k = Some r \<and> replica_for t' k = Some r' \<and>
         rp_term r' = lr_term lr \<and> rp_client_token r' = token \<and> rp_journal r' = rp_journal r \<and>
         rp_last_append_lsn r' \<le> lr_dLSN lr \<and>
         (\<forall>hdr dlsn addr len bytes. ch_term hdr \<le> mt_term t \<longrightarrow> snd (do_write hdr dlsn addr len bytes r') = r')"
    if k: "k \<in> set ?live" for k
  proof -
    obtain q where q: "replica_for t k = Some q" using live_registered [OF k] by blast
    let ?q' = "cold_apply_login token (mt_term t + 1) (apply_up_to (rs_commit t ?live) q)"
    have "replica_for t' k = Some ?q'" using k by (simp add: r q)
    moreover have "snd (do_write hdr dlsn addr len bytes ?q') = ?q'" if "ch_term hdr \<le> mt_term t" for hdr dlsn addr len bytes
      using that by (simp add: do_write_def cold_apply_login_def)
    moreover have "rp_term ?q' = lr_term lr" "rp_client_token ?q' = token" "rp_journal ?q' = rp_journal q"
      "rp_last_append_lsn ?q' \<le> lr_dLSN lr"
      using rs_commit_upper [OF k q] run by (simp_all add: cold_apply_login_def)
    ultimately show ?thesis using q by blast
  qed
  moreover have "replica_for t' k = replica_for t k" if "k \<notin> set ?live" for k
    using that by (simp add: r option.map_ident)
  ultimately show ?thesis using run by blast
qed

theorem run_login_installs_session_witness:
  "\<exists>lr t'. run_login (mt_leader set3) 77 set3 = (Inr lr, t') \<and> lr_term lr = 1 \<and> cluster_inv t'"
  using run_login_installs_session [OF cluster_inv_journals [OF set3_inv] set3_up set3_quorum, of 77] set3_inv
  by (auto simp: set3_leader)

end
