(* ===== verification/ClusterServer.thy ===== *)
theory ClusterServer
  imports Server Cluster
begin

text \<open>
  The cluster server (\<open>src/net/cluster_server.cpp\<close>): a set of in-memory replicas behind one port
  each, one session for the whole set, and a term that every connection captures when it binds. A
  handler that sleeps on an injected delay lets the other connections run meanwhile: \<open>during\<close> is
  what they do to the server.
\<close>

section \<open>State\<close>

record cluster_server =
  cs_page_size :: "32 word"
  cs_capacity :: "64 word"
  cs_max_tx :: "32 word"
  cs_vol_id :: "byte list"
  cs_net :: MemTransport
  cs_members :: "member list"
  cs_sess_active :: bool
  cs_sess_term :: nat

record server_conn =
  cn_term :: nat
  cn_bound :: bool

definition fresh_conn :: server_conn where
  "fresh_conn = \<lparr>cn_term = 0, cn_bound = False\<rparr>"

definition cluster_vol_id :: "byte list" where
  "cluster_vol_id = map (\<lambda>i. word_of_nat (192 + i)) [0..<16]"

text \<open>\<open>addr_of\<close> is the address the group gives its replicas, \<open>at_port\<close> the one of each listener.\<close>

definition make_cluster_server ::
  "(nat \<Rightarrow> byte list) \<Rightarrow> (nat \<Rightarrow> byte list) \<Rightarrow> nat \<Rightarrow> 32 word \<Rightarrow> 64 word \<Rightarrow> nat \<Rightarrow> nat \<Rightarrow> 32 word \<Rightarrow> cluster_server" where
  "make_cluster_server addr_of at_port n ps cap group_cap group_tx mtx =
     (let net = make_mem_replica_group addr_of cluster_vol_id n (unat ps) group_cap group_tx in
      \<lparr>cs_page_size = ps, cs_capacity = cap, cs_max_tx = mtx, cs_vol_id = cluster_vol_id, cs_net = net,
       cs_members = map (\<lambda>i. \<lparr>mb_id = ep_id (mt_members net ! i), mb_addr = at_port i\<rparr>) [0..<n],
       cs_sess_active = False, cs_sess_term = 0\<rparr>)"

section \<open>Fault injection and observation\<close>

definition nth_replica :: "nat \<Rightarrow> cluster_server \<Rightarrow> peer_id" where
  "nth_replica i s = mb_id (cs_members s ! i)"

definition set_replica_up :: "nat \<Rightarrow> bool \<Rightarrow> cluster_server \<Rightarrow> cluster_server" where
  "set_replica_up i up s = s\<lparr>cs_net := net_set_up (nth_replica i s) up (cs_net s)\<rparr>"

definition server_force_subquorum :: "nat list \<Rightarrow> cluster_server \<Rightarrow> cluster_server" where
  "server_force_subquorum keep s = s\<lparr>cs_net := force_subquorum (map (\<lambda>i. nth_replica i s) keep) (cs_net s)\<rparr>"

definition server_clear_faults :: "cluster_server \<Rightarrow> cluster_server" where
  "server_clear_faults s = s\<lparr>cs_net := net_clear_faults (cs_net s)\<rparr>"

definition server_set_delay :: "nat \<Rightarrow> int \<Rightarrow> cluster_server \<Rightarrow> cluster_server" where
  "server_set_delay i d s = s\<lparr>cs_net := net_set_delay (nth_replica i s) d (cs_net s)\<rparr>"

section \<open>Handlers\<close>

definition run_core :: "(MemCraftReplica \<Rightarrow> 'a \<times> MemCraftReplica) \<Rightarrow> peer_id \<Rightarrow> cluster_server \<Rightarrow> ('a \<times> cluster_server) option" where
  "run_core f pid s =
     (case replica_for (cs_net s) pid of
        None \<Rightarrow> None
      | Some r \<Rightarrow> Some (fst (f r), s\<lparr>cs_net := on_replica pid (\<lambda>r. snd (f r)) (cs_net s)\<rparr>))"

text \<open>The sleep of a replica with a delay.\<close>

definition straggle :: "(cluster_server \<Rightarrow> cluster_server) \<Rightarrow> peer_id \<Rightarrow> cluster_server \<Rightarrow> cluster_server" where
  "straggle during pid s = (if 0 < net_delay_for (cs_net s) pid then during s else s)"

definition cl_login_rsp :: "nat \<Rightarrow> int \<Rightarrow> nat \<Rightarrow> byte list \<Rightarrow> cluster_server \<Rightarrow> byte list" where
  "cl_login_rsp trm dlsn n hint s =
     put_login_rsp \<lparr>lgp_term = word_of_nat trm, lgp_dlsn = word_of_int dlsn, lgp_capacity = cs_capacity s, lgp_lba_size = cs_page_size s,
       lgp_max_tx = cs_max_tx s, lgp_member_count = word_of_nat n, lgp_reserved = 0, lgp_leader_hint = hint\<rparr>"

definition blank_login_rsp :: "byte list" where
  "blank_login_rsp = put_login_rsp \<lparr>lgp_term = 0, lgp_dlsn = 0, lgp_capacity = 0, lgp_lba_size = 0, lgp_max_tx = 0,
     lgp_member_count = 0, lgp_reserved = 0, lgp_leader_hint = replicate 16 0\<rparr>"

definition cl_on_login :: "peer_id \<Rightarrow> message \<Rightarrow> cluster_server \<times> server_conn \<Rightarrow> frame \<times> cluster_server \<times> server_conn" where
  "cl_on_login pid req = (\<lambda>(s, cn).
     (let lreq = get_login_req (ms_op_header req) in
      if lq_volume_id lreq \<noteq> cs_vol_id s then (reply_of req Op_login_rsp St_invalid_argument blank_login_rsp [], s, cn)
      else case run_login pid (unat (lq_client_token lreq)) (cs_net s) of
        (Inl e, t) \<Rightarrow> (reply_of req Op_login_rsp (to_wire_status e) blank_login_rsp [], s\<lparr>cs_net := t\<rparr>, cn)
      | (Inr lr, t) \<Rightarrow>
          if lr_term lr = 0
          then (reply_of req Op_login_rsp St_ok (cl_login_rsp 0 (lr_dLSN lr) 0 (lr_leader_hint lr) s) [], s\<lparr>cs_net := t\<rparr>, cn)
          else (reply_of req Op_login_rsp St_ok (cl_login_rsp (lr_term lr) (lr_dLSN lr) (length (cs_members s)) (replicate 16 0) s)
                  (concat (map put_member (cs_members s))),
                s\<lparr>cs_net := t, cs_sess_active := True, cs_sess_term := lr_term lr\<rparr>,
                cn\<lparr>cn_term := lr_term lr, cn_bound := True\<rparr>)))"

definition cl_on_helo :: "message \<Rightarrow> cluster_server \<times> server_conn \<Rightarrow> frame \<times> cluster_server \<times> server_conn" where
  "cl_on_helo req = (\<lambda>(s, cn).
     (let hreq = get_helo_req (ms_op_header req) in
      if cs_sess_active s \<and> unat (hq_term hreq) = cs_sess_term s
      then (reply_of req Op_helo_rsp St_ok [] [], s, cn\<lparr>cn_term := cs_sess_term s, cn_bound := True\<rparr>)
      else (reply_of req Op_helo_rsp St_stale_term [] [], s, cn)))"

text \<open>\<open>None\<close> stands for a replica that the group does not have, which no port names.\<close>

definition watermarks :: "peer_id \<Rightarrow> cluster_server \<Rightarrow> lsn_pair option" where
  "watermarks pid s = map_option peek_lsns (replica_for (cs_net s) pid)"

definition cl_on_write ::
  "(cluster_server \<Rightarrow> cluster_server) \<Rightarrow> peer_id \<Rightarrow> message \<Rightarrow> cluster_server \<times> server_conn \<Rightarrow> (frame \<times> cluster_server \<times> server_conn) option" where
  "cl_on_write during pid req = (\<lambda>(s, cn).
     (if \<not> cn_bound cn
      then map_option (\<lambda>l. (reply_of req Op_write_rsp St_stale_term (write_rsp_of l) [], s, cn)) (watermarks pid s)
      else if \<not> net_is_up (cs_net s) pid \<or> \<not> net_write_allowed (cs_net s) pid
      then map_option (\<lambda>l. (reply_of req Op_write_rsp St_replica_down (write_rsp_of l) [], s, cn)) (watermarks pid s)
      else map_option (\<lambda>((code, l), s'). (reply_of req Op_write_rsp code (write_rsp_of l) [], s', cn))
             (run_core (\<lambda>r. case write_core (cn_term cn) req r of (code, l, r') \<Rightarrow> ((code, l), r')) pid (straggle during pid s))))"

definition cl_on_read ::
  "(nat \<Rightarrow> bool) \<Rightarrow> (cluster_server \<Rightarrow> cluster_server) \<Rightarrow> peer_id \<Rightarrow> message \<Rightarrow> cluster_server \<times> server_conn
     \<Rightarrow> (frame \<times> cluster_server \<times> server_conn) option" where
  "cl_on_read alloc during pid req = (\<lambda>(s, cn).
     (if \<not> cn_bound cn then Some (reply_of req Op_read_rsp St_stale_term (read_rsp_of zero_lsns 0) [], s, cn)
      else if \<not> net_is_up (cs_net s) pid then Some (reply_of req Op_read_rsp St_replica_down (read_rsp_of zero_lsns 0) [], s, cn)
      else if \<not> alloc (unat (rq_len (get_read_req (ms_op_header req)))) then None
      else map_option (\<lambda>((code, hdr, body), s'). (reply_of req Op_read_rsp code hdr body, s', cn))
             (run_core (\<lambda>r. case read_core (cn_term cn) req r of (code, hdr, body, r') \<Rightarrow> ((code, hdr, body), r')) pid
               (straggle during pid s))))"

definition cl_on_keep_alive ::
  "(cluster_server \<Rightarrow> cluster_server) \<Rightarrow> peer_id \<Rightarrow> message \<Rightarrow> cluster_server \<times> server_conn \<Rightarrow> (frame \<times> cluster_server \<times> server_conn) option" where
  "cl_on_keep_alive during pid req = (\<lambda>(s, cn).
     (if \<not> cn_bound cn then Some (reply_of req Op_keepalive_rsp St_stale_term (keepalive_rsp_of no_lsns) [], s, cn)
      else if \<not> net_is_up (cs_net s) pid then Some (reply_of req Op_keepalive_rsp St_replica_down (keepalive_rsp_of no_lsns) [], s, cn)
      else map_option (\<lambda>((code, l), s'). (reply_of req Op_keepalive_rsp code (keepalive_rsp_of l) [], s', cn))
             (run_core (\<lambda>r. case keep_alive_core (cn_term cn) req r of (code, l, r') \<Rightarrow> ((code, l), r')) pid (straggle during pid s))))"

definition cl_on_resolve :: "peer_id \<Rightarrow> message \<Rightarrow> cluster_server \<times> server_conn \<Rightarrow> frame \<times> cluster_server \<times> server_conn" where
  "cl_on_resolve pid req = (\<lambda>(s, cn).
     (if \<not> cn_bound cn then (resolve_frame req (Inl (Craft STALE_TERM)), s, cn)
      else if \<not> net_is_up (cs_net s) pid then (resolve_frame req (Inl (Craft REPLICA_DOWN)), s, cn)
      else let (r, t) = run_resolution pid (cn_term cn) (sint (sq_upto (get_resolve_req (ms_op_header req)))) (cs_net s)
           in (resolve_frame req r, s\<lparr>cs_net := t\<rparr>, cn)))"

definition cl_on_logout :: "peer_id \<Rightarrow> message \<Rightarrow> cluster_server \<times> server_conn \<Rightarrow> frame \<times> cluster_server \<times> server_conn" where
  "cl_on_logout pid req = (\<lambda>(s, cn).
     (if \<not> cn_bound cn then (reply_of req Op_logout_rsp St_stale_term [] [], s, cn)
      else case run_logout pid (cs_net s) of
        (Inl e, t) \<Rightarrow> (reply_of req Op_logout_rsp (to_wire_status e) [] [], s\<lparr>cs_net := t\<rparr>, cn)
      | (Inr u, t) \<Rightarrow> (reply_of req Op_logout_rsp St_ok [] [], s\<lparr>cs_net := t, cs_sess_active := False, cs_sess_term := 0\<rparr>,
                       cn\<lparr>cn_bound := False\<rparr>)))"

section \<open>The loop\<close>

definition answers :: "frame \<times> cluster_server \<times> server_conn \<Rightarrow> (cluster_server \<times> server_conn) handled" where
  "answers x = Reply (frame_bytes (fst x)) (snd x)"

definition answers_or_dies ::
  "cluster_server \<times> server_conn \<Rightarrow> (frame \<times> cluster_server \<times> server_conn) option \<Rightarrow> (cluster_server \<times> server_conn) handled" where
  "answers_or_dies sc x = (case x of None \<Rightarrow> Crashed sc | Some p \<Rightarrow> answers p)"

definition cluster_handle ::
  "(nat \<Rightarrow> bool) \<Rightarrow> (cluster_server \<Rightarrow> cluster_server) \<Rightarrow> peer_id \<Rightarrow> message \<Rightarrow> cluster_server \<times> server_conn
     \<Rightarrow> (cluster_server \<times> server_conn) handled" where
  "cluster_handle alloc during pid req sc =
     (let opc = mh_op (ms_hdr req) in
      if opc = op_code Op_login then answers (cl_on_login pid req sc)
      else if opc = op_code Op_helo then answers (cl_on_helo req sc)
      else if opc = op_code Op_write then answers_or_dies sc (cl_on_write during pid req sc)
      else if opc = op_code Op_read then answers_or_dies sc (cl_on_read alloc during pid req sc)
      else if opc = op_code Op_keepalive then answers_or_dies sc (cl_on_keep_alive during pid req sc)
      else if opc = op_code Op_resolve then answers (cl_on_resolve pid req sc)
      else if opc = op_code Op_logout then answers (cl_on_logout pid req sc)
      else Reset sc)"

definition cluster_serve ::
  "(nat \<Rightarrow> bool) \<Rightarrow> (cluster_server \<Rightarrow> cluster_server) \<Rightarrow> peer_id \<Rightarrow> cluster_server \<Rightarrow> recv_state
     \<Rightarrow> byte list list \<times> (cluster_server \<times> server_conn) \<times> serve_end" where
  "cluster_serve alloc during pid s rv = serve_loop (cs_max_tx s) (cluster_handle alloc during pid) (s, fresh_conn) rv"

section \<open>The server keeps the contract\<close>

text \<open>What happens during the sleep of a replica may be anything that leaves the geometry alone.\<close>

definition keeps_geometry :: "(cluster_server \<Rightarrow> cluster_server) \<Rightarrow> cluster_server \<Rightarrow> cluster_server" where
  "keeps_geometry other s = (other s)\<lparr>cs_max_tx := cs_max_tx s\<rparr>"

lemma run_core_bound: "run_core f pid s = Some (a, s') \<Longrightarrow> cs_max_tx s' = cs_max_tx s"
  by (auto simp: run_core_def split: option.splits)

lemma straggle_bound: "cs_max_tx (straggle (keeps_geometry other) pid s) = cs_max_tx s"
  by (simp add: straggle_def keeps_geometry_def)

lemma session_handlers_bound:
  "cs_max_tx (fst (snd (cl_on_login pid req sc))) = cs_max_tx (fst sc)" "cs_max_tx (fst (snd (cl_on_helo req sc))) = cs_max_tx (fst sc)"
  "cs_max_tx (fst (snd (cl_on_resolve pid req sc))) = cs_max_tx (fst sc)" "cs_max_tx (fst (snd (cl_on_logout pid req sc))) = cs_max_tx (fst sc)"
  by (auto simp: cl_on_login_def cl_on_helo_def cl_on_resolve_def cl_on_logout_def Let_def split: prod.splits sum.splits if_splits)

lemma io_handlers_bound:
  "cl_on_write (keeps_geometry other) pid req sc = Some (g, sc') \<Longrightarrow> cs_max_tx (fst sc') = cs_max_tx (fst sc)"
  "cl_on_read alloc (keeps_geometry other) pid req sc = Some (g, sc') \<Longrightarrow> cs_max_tx (fst sc') = cs_max_tx (fst sc)"
  "cl_on_keep_alive (keeps_geometry other) pid req sc = Some (g, sc') \<Longrightarrow> cs_max_tx (fst sc') = cs_max_tx (fst sc)"
  by (auto simp: cl_on_write_def cl_on_read_def cl_on_keep_alive_def straggle_bound split: prod.splits if_splits dest!: run_core_bound)

lemma cluster_handle_bound:
  assumes "cluster_handle alloc (keeps_geometry other) pid req sc = Reply out sc'"
  shows "cs_max_tx (fst sc') = cs_max_tx (fst sc)"
  using assms
  by (auto simp: cluster_handle_def answers_def answers_or_dies_def Let_def session_handlers_bound split: if_splits option.splits
      dest: io_handlers_bound)

interpretation cluster_srv: frame_server "\<lambda>sc. cs_max_tx (fst sc)" "cluster_handle alloc (keeps_geometry other) pid" for alloc other pid
  by unfold_locales (rule cluster_handle_bound)

end
