(* ===== verification/Watchdog.thy ===== *)
theory Watchdog
  imports Prelude
begin

text \<open>
  The timer service (\<open>src/watchdog.hpp\<close>, \<open>src/watchdog.cpp\<close>). A timer is a map entry with its current
  deadline and generation; the heap holds one entry per arming, and an entry whose generation is
  not the timer's is stale. The heap is the list of its entries: the queue gives any entry of
  least deadline. Clock readings are arguments (ticks since an epoch, a \<open>nat\<close>), callbacks are
  values of the type \<open>'cb\<close>, and the worker is split at the point where it unlocks to run one.
\<close>

section \<open>State and operations\<close>

record 'cb timer_state =
  ts_deadline :: nat
  ts_period :: nat
  ts_recurring :: bool
  ts_generation :: nat
  ts_cb :: 'cb

record heap_entry =
  he_deadline :: nat
  he_id :: nat
  he_generation :: nat

record 'cb watchdog =
  wd_heap :: "heap_entry list"
  wd_timers :: "nat \<rightharpoonup> 'cb timer_state"
  wd_next_id :: nat

definition make_watchdog :: "'cb watchdog" where
  "make_watchdog = \<lparr>wd_heap = [], wd_timers = Map.empty, wd_next_id = 1\<rparr>"

definition add_timer :: "nat \<Rightarrow> nat \<Rightarrow> nat option \<Rightarrow> 'cb \<Rightarrow> 'cb watchdog \<Rightarrow> nat \<times> 'cb watchdog" where
  "add_timer now delay period cb w =
     (let i = wd_next_id w;
          s = \<lparr>ts_deadline = now + delay, ts_period = (case period of None \<Rightarrow> delay | Some p \<Rightarrow> p),
               ts_recurring = (period \<noteq> None), ts_generation = 0, ts_cb = cb\<rparr>
      in (i, \<lparr>wd_heap = \<lparr>he_deadline = ts_deadline s, he_id = i, he_generation = 0\<rparr> # wd_heap w,
              wd_timers = (wd_timers w)(i \<mapsto> s), wd_next_id = i + 1\<rparr>))"

definition add_oneshot :: "nat \<Rightarrow> nat \<Rightarrow> 'cb \<Rightarrow> 'cb watchdog \<Rightarrow> nat \<times> 'cb watchdog" where
  "add_oneshot now delay cb = add_timer now delay None cb"

definition add_recurring :: "nat \<Rightarrow> nat \<Rightarrow> 'cb \<Rightarrow> 'cb watchdog \<Rightarrow> nat \<times> 'cb watchdog" where
  "add_recurring now period cb = add_timer now period (Some period) cb"

definition reset_timer :: "nat \<Rightarrow> nat \<Rightarrow> 'cb watchdog \<Rightarrow> bool \<times> 'cb watchdog" where
  "reset_timer now i w =
     (case wd_timers w i of
        None \<Rightarrow> (False, w)
      | Some s \<Rightarrow>
          let s' = s\<lparr>ts_deadline := now + ts_period s, ts_generation := ts_generation s + 1\<rparr>
          in (True, w\<lparr>wd_timers := (wd_timers w)(i \<mapsto> s'),
                       wd_heap := \<lparr>he_deadline = ts_deadline s', he_id = i, he_generation = ts_generation s'\<rparr> # wd_heap w\<rparr>))"

definition cancel_timer :: "nat \<Rightarrow> 'cb watchdog \<Rightarrow> bool \<times> 'cb watchdog" where
  "cancel_timer i w = (wd_timers w i \<noteq> None, w\<lparr>wd_timers := (wd_timers w)(i := None)\<rparr>)"

section \<open>The worker\<close>

text \<open>What the worker remembers across the unlocked callback.\<close>

record 'cb firing =
  fi_id :: nat
  fi_recurring :: bool
  fi_period :: nat
  fi_generation :: nat
  fi_cb :: 'cb

definition heap_top :: "heap_entry \<Rightarrow> 'cb watchdog \<Rightarrow> bool" where
  "heap_top e w \<longleftrightarrow> e \<in> set (wd_heap w) \<and> list_all (\<lambda>x. he_deadline e \<le> he_deadline x) (wd_heap w)"

text \<open>One pass of the loop, with the heap's top \<open>e\<close>: too early, or the entry is popped and is stale or fires.\<close>

definition run_take :: "nat \<Rightarrow> heap_entry \<Rightarrow> 'cb watchdog \<Rightarrow> 'cb firing option \<times> 'cb watchdog" where
  "run_take now e w =
     (if now < he_deadline e then (None, w)
      else let w1 = w\<lparr>wd_heap := remove1 e (wd_heap w)\<rparr> in
        case wd_timers w (he_id e) of
          None \<Rightarrow> (None, w1)
        | Some s \<Rightarrow>
            if ts_generation s \<noteq> he_generation e then (None, w1)
            else (Some \<lparr>fi_id = he_id e, fi_recurring = ts_recurring s, fi_period = ts_period s,
                        fi_generation = ts_generation s, fi_cb = ts_cb s\<rparr>, w1))"

definition run_finish :: "nat \<Rightarrow> 'cb firing \<Rightarrow> 'cb watchdog \<Rightarrow> 'cb watchdog" where
  "run_finish now f w =
     (if fi_recurring f then
        (case wd_timers w (fi_id f) of
           None \<Rightarrow> w
         | Some s \<Rightarrow>
             if ts_generation s = fi_generation f
             then w\<lparr>wd_timers := (wd_timers w)(fi_id f \<mapsto> s\<lparr>ts_deadline := now + fi_period f\<rparr>),
                    wd_heap := \<lparr>he_deadline = now + fi_period f, he_id = fi_id f, he_generation = ts_generation s\<rparr> # wd_heap w\<rparr>
             else w)
      else w\<lparr>wd_timers := (wd_timers w)(fi_id f := None)\<rparr>)"

text \<open>Every interleaving of callers with the one worker, over the service and what the worker is running.\<close>

inductive watchdog_step :: "'cb watchdog \<times> 'cb firing option \<Rightarrow> 'cb watchdog \<times> 'cb firing option \<Rightarrow> bool" where
  wd_add: "watchdog_step (w, f) (snd (add_timer now delay period cb w), f)"
| wd_reset: "watchdog_step (w, f) (snd (reset_timer now i w), f)"
| wd_cancel: "watchdog_step (w, f) (snd (cancel_timer i w), f)"
| wd_take: "heap_top e w \<Longrightarrow> run_take now e w = (f, w') \<Longrightarrow> watchdog_step (w, None) (w', f)"
| wd_finish: "watchdog_step (w, Some f) (run_finish now f w, None)"

section \<open>Every timer is armed exactly once\<close>

definition armed :: "nat \<Rightarrow> nat \<Rightarrow> 'cb watchdog \<Rightarrow> heap_entry list" where
  "armed i g w = filter (\<lambda>e. he_id e = i \<and> he_generation e = g) (wd_heap w)"

definition running :: "'cb firing option \<Rightarrow> nat \<Rightarrow> nat \<Rightarrow> bool" where
  "running f i g \<longleftrightarrow> (case f of None \<Rightarrow> False | Some x \<Rightarrow> fi_id x = i \<and> fi_generation x = g)"

definition timer_ok :: "'cb watchdog \<Rightarrow> 'cb firing option \<Rightarrow> nat \<Rightarrow> 'cb timer_state \<Rightarrow> bool" where
  "timer_ok w f i s \<longleftrightarrow> i < wd_next_id w \<and> (\<forall>e \<in> set (wd_heap w). he_id e = i \<longrightarrow> he_generation e \<le> ts_generation s) \<and>
     (\<forall>x. f = Some x \<and> fi_id x = i \<longrightarrow> fi_generation x \<le> ts_generation s) \<and>
     armed i (ts_generation s) w =
       (if running f i (ts_generation s) then [] else [\<lparr>he_deadline = ts_deadline s, he_id = i, he_generation = ts_generation s\<rparr>])"

definition wd_inv :: "'cb watchdog \<times> 'cb firing option \<Rightarrow> bool" where
  "wd_inv st \<longleftrightarrow> (\<forall>e \<in> set (wd_heap (fst st)). he_id e < wd_next_id (fst st)) \<and>
     (\<forall>x. snd st = Some x \<longrightarrow> fi_id x < wd_next_id (fst st)) \<and>
     (\<forall>i s. wd_timers (fst st) i = Some s \<longrightarrow> timer_ok (fst st) (snd st) i s)"

lemma wd_invD:
  assumes "wd_inv (w, f)"
  shows "e \<in> set (wd_heap w) \<Longrightarrow> he_id e < wd_next_id w" "f = Some x \<Longrightarrow> fi_id x < wd_next_id w"
    "wd_timers w i = Some s \<Longrightarrow> timer_ok w f i s"
  using assms by (auto simp: wd_inv_def)

lemma add_timer_inv:
  assumes inv: "wd_inv (w, f)"
  shows "wd_inv (snd (add_timer now delay period cb w), f)"
proof -
  let ?n = "wd_next_id w"
  let ?w = "snd (add_timer now delay period cb w)"
  have fresh: "\<forall>e \<in> set (wd_heap w). he_id e \<noteq> ?n" using wd_invD(1) [OF inv] by (metis less_irrefl)
  then have none: "filter (\<lambda>e. he_id e = ?n \<and> P e) (wd_heap w) = []" for P by (simp add: filter_empty_conv)
  have idle: "\<not> running f ?n g" for g using wd_invD(2) [OF inv] by (auto simp: running_def split: option.split)
  have "timer_ok ?w f i s" if t: "wd_timers ?w i = Some s" for i s
  proof (cases "i = ?n")
    case True
    then show ?thesis using t fresh none idle wd_invD(2) [OF inv]
      by (auto simp: timer_ok_def armed_def add_timer_def Let_def)
  next
    case False
    then have "timer_ok w f i s" using t wd_invD(3) [OF inv] by (simp add: add_timer_def Let_def)
    then show ?thesis using False by (auto simp: timer_ok_def armed_def add_timer_def Let_def)
  qed
  then show ?thesis unfolding wd_inv_def
    using wd_invD(1,2) [OF inv] by (auto simp: add_timer_def Let_def less_Suc_eq)
qed

lemma reset_timer_inv:
  assumes inv: "wd_inv (w, f)"
  shows "wd_inv (snd (reset_timer now i w), f)"
proof (cases "wd_timers w i")
  case (Some s)
  let ?w = "snd (reset_timer now i w)"
  note ok = wd_invD(3) [OF inv Some]
  have none: "filter (\<lambda>e. he_id e = i \<and> he_generation e = Suc (ts_generation s)) (wd_heap w) = []"
    using ok by (fastforce simp: timer_ok_def filter_empty_conv)
  have idle: "\<not> running f i (Suc (ts_generation s))"
    using ok by (cases f) (auto simp: timer_ok_def running_def)
  have "timer_ok ?w f j t" if t: "wd_timers ?w j = Some t" for j t
  proof (cases "j = i")
    case True
    then show ?thesis using t Some ok none idle
      by (auto simp: timer_ok_def armed_def reset_timer_def Let_def intro: le_SucI)
  next
    case False
    then have "timer_ok w f j t" using t Some wd_invD(3) [OF inv] by (simp add: reset_timer_def Let_def)
    then show ?thesis using False Some by (auto simp: timer_ok_def armed_def reset_timer_def Let_def)
  qed
  moreover have "i < wd_next_id w" using ok by (simp add: timer_ok_def)
  ultimately show ?thesis unfolding wd_inv_def
    using wd_invD(1,2) [OF inv] Some by (auto simp: reset_timer_def Let_def)
qed (use inv in \<open>simp add: reset_timer_def\<close>)

lemma cancel_timer_inv: "wd_inv (w, f) \<Longrightarrow> wd_inv (snd (cancel_timer i w), f)"
  by (auto simp: wd_inv_def cancel_timer_def timer_ok_def armed_def)

text \<open>A live entry at the top is its timer's only one, and carries its current deadline.\<close>

lemma live_entry:
  assumes inv: "wd_inv (w, None)" and e: "e \<in> set (wd_heap w)" and s: "wd_timers w (he_id e) = Some s"
    and g: "ts_generation s = he_generation e"
  shows "e = \<lparr>he_deadline = ts_deadline s, he_id = he_id e, he_generation = ts_generation s\<rparr>"
    and "armed (he_id e) (ts_generation s) w = [e]"
proof -
  have arm: "armed (he_id e) (ts_generation s) w = [\<lparr>he_deadline = ts_deadline s, he_id = he_id e, he_generation = ts_generation s\<rparr>]"
    using wd_invD(3) [OF inv s] by (simp add: timer_ok_def running_def)
  have "e \<in> set (armed (he_id e) (ts_generation s) w)" using e g by (simp add: armed_def)
  then show eq: "e = \<lparr>he_deadline = ts_deadline s, he_id = he_id e, he_generation = ts_generation s\<rparr>" unfolding arm by simp
  show "armed (he_id e) (ts_generation s) w = [e]" using arm eq by simp
qed

lemma armed_remove1:
  "armed i g (w\<lparr>wd_heap := remove1 e (wd_heap w)\<rparr>) =
     (if he_id e = i \<and> he_generation e = g then remove1 e (armed i g w) else armed i g w)"
  by (auto simp: armed_def filter_remove1 remove1_idem)

lemma run_take_inv:
  assumes inv: "wd_inv (w, None)" and e: "e \<in> set (wd_heap w)" and take: "run_take now e w = (f, w')"
  shows "wd_inv (w', f)"
proof (cases "now < he_deadline e")
  case False
  let ?w1 = "w\<lparr>wd_heap := remove1 e (wd_heap w)\<rparr>"
  have w': "w' = ?w1" and f: "f = None \<or> (\<exists>s x. wd_timers w (he_id e) = Some s \<and> ts_generation s = he_generation e \<and>
      f = Some x \<and> fi_id x = he_id e \<and> fi_generation x = ts_generation s)"
    and stale: "f = None \<Longrightarrow> wd_timers w (he_id e) = Some s \<Longrightarrow> ts_generation s \<noteq> he_generation e" for s
    using take False by (auto simp: run_take_def Let_def split: option.splits if_splits)
  have "timer_ok ?w1 f i s" if s: "wd_timers w i = Some s" for i s
  proof -
    note ok = wd_invD(3) [OF inv s]
    show ?thesis
    proof (cases "he_id e = i \<and> he_generation e = ts_generation s")
      case True
      with s stale obtain x where "f = Some x" "fi_id x = i" "fi_generation x = ts_generation s" using f by auto
      moreover have "armed i (ts_generation s) w = [e]" using live_entry(2) [OF inv e] s True by auto
      ultimately show ?thesis using ok True unfolding timer_ok_def armed_remove1
        using set_remove1_subset [of e "wd_heap w"] by (auto simp: running_def)
    next
      case False
      then have "\<not> running f i (ts_generation s)" using f s by (auto simp: running_def)
      moreover have "fi_generation x \<le> ts_generation s" if "f = Some x" "fi_id x = i" for x
        using that f s by auto
      ultimately show ?thesis using ok False unfolding timer_ok_def armed_remove1
        using set_remove1_subset [of e "wd_heap w"] by (auto simp: running_def)
    qed
  qed
  moreover have "fi_id x < wd_next_id w" if "f = Some x" for x using f that wd_invD(1) [OF inv e] by auto
  ultimately show ?thesis unfolding wd_inv_def w'
    using wd_invD(1) [OF inv] set_remove1_subset [of e "wd_heap w"] by auto
qed (use inv take in \<open>simp add: run_take_def\<close>)

lemma run_finish_inv:
  assumes inv: "wd_inv (w, Some f)"
  shows "wd_inv (run_finish now f w, None)"
proof -
  let ?w = "run_finish now f w"
  have id: "fi_id f < wd_next_id w" using wd_invD(2) [OF inv] by simp
  have "timer_ok ?w None i t" if t: "wd_timers ?w i = Some t" for i t
  proof (cases "i = fi_id f")
    case True
    then obtain s where s: "wd_timers w i = Some s" and rec: "fi_recurring f"
      using t by (auto simp: run_finish_def split: if_splits option.splits)
    note ok = wd_invD(3) [OF inv s]
    show ?thesis
    proof (cases "ts_generation s = fi_generation f")
      case live: True
      then show ?thesis using t s ok rec True
        by (auto simp: timer_ok_def armed_def running_def run_finish_def)
    next
      case False
      then show ?thesis using t s ok rec True
        by (auto simp: timer_ok_def armed_def running_def run_finish_def)
    qed
  next
    case False
    then have "timer_ok w (Some f) i t" using t wd_invD(3) [OF inv]
      by (auto simp: run_finish_def split: if_splits option.splits)
    then show ?thesis using False
      by (auto simp: timer_ok_def armed_def running_def run_finish_def split: if_splits option.splits)
  qed
  then show ?thesis unfolding wd_inv_def using wd_invD(1) [OF inv] id
    by (auto simp: run_finish_def split: if_splits option.splits)
qed

lemma watchdog_step_inv: "watchdog_step st st' \<Longrightarrow> wd_inv st \<Longrightarrow> wd_inv st'"
proof (induction rule: watchdog_step.induct)
  case (wd_take e w now f w')
  then show ?case by (intro run_take_inv [of w e now f w']) (simp_all add: heap_top_def)
qed (simp_all add: add_timer_inv reset_timer_inv cancel_timer_inv run_finish_inv)

lemma watchdog_reachable_inv: "watchdog_step\<^sup>*\<^sup>* (make_watchdog, None) st \<Longrightarrow> wd_inv st"
proof (induction rule: rtranclp_induct)
  case base
  show ?case by (simp add: wd_inv_def make_watchdog_def)
next
  case (step st st')
  then show ?case using watchdog_step_inv by blast
qed

lemma heap_has_top:
  assumes "e \<in> set (wd_heap w)"
  shows "\<exists>x. heap_top x w \<and> he_deadline x \<le> he_deadline e"
proof -
  have "\<exists>x \<in> set (wd_heap w). he_deadline x = Min (he_deadline ` set (wd_heap w))"
  proof -
    have "Min (he_deadline ` set (wd_heap w)) \<in> he_deadline ` set (wd_heap w)" by (rule Min_in) (use assms in auto)
    then show ?thesis by (metis imageE)
  qed
  then obtain x where x: "x \<in> set (wd_heap w)" "he_deadline x = Min (he_deadline ` set (wd_heap w))" by blast
  then have "heap_top x w" by (simp add: heap_top_def list_all_iff)
  moreover have "he_deadline x \<le> he_deadline e" using x(2) assms by simp
  ultimately show ?thesis by blast
qed

text \<open>C19: In every interleaving of callers with the worker, a registered timer whose callback is not
  running is armed: the worker never waits past its deadline. What the worker fires is a
  registered timer whose current deadline has passed, with that timer's callback, and firing
  leaves no other arming of it behind, so a reset postpones a timer, a cancelled timer does
  not fire and one arming fires once.\<close>

theorem watchdog_fires_armed_timers:
  assumes "watchdog_step\<^sup>*\<^sup>* (make_watchdog, None) (w, f)"
  shows "(\<forall>i s. wd_timers w i = Some s \<and> \<not> running f i (ts_generation s) \<longrightarrow>
        (\<exists>e. heap_top e w \<and> he_deadline e \<le> ts_deadline s)) \<and>
    (\<forall>e now x w'. f = None \<and> heap_top e w \<and> run_take now e w = (Some x, w') \<longrightarrow>
        (\<exists>s. wd_timers w (fi_id x) = Some s \<and> ts_deadline s \<le> now \<and> fi_cb x = ts_cb s \<and>
           armed (fi_id x) (ts_generation s) w' = []))"
proof (intro conjI allI impI)
  note inv = watchdog_reachable_inv [OF assms]
  fix i s assume "wd_timers w i = Some s \<and> \<not> running f i (ts_generation s)"
  then have "armed i (ts_generation s) w = [\<lparr>he_deadline = ts_deadline s, he_id = i, he_generation = ts_generation s\<rparr>]"
    using wd_invD(3) [OF inv] by (auto simp: timer_ok_def)
  then have "\<lparr>he_deadline = ts_deadline s, he_id = i, he_generation = ts_generation s\<rparr> \<in> set (wd_heap w)"
    unfolding armed_def by (metis (no_types, lifting) filter_is_subset list.set_intros(1) subsetD)
  from heap_has_top [OF this] show "\<exists>e. heap_top e w \<and> he_deadline e \<le> ts_deadline s" by simp
next
  note inv = watchdog_reachable_inv [OF assms]
  fix e now x w' assume a: "f = None \<and> heap_top e w \<and> run_take now e w = (Some x, w')"
  then have e: "e \<in> set (wd_heap w)" by (simp add: heap_top_def)
  from a obtain s where s: "wd_timers w (he_id e) = Some s" "ts_generation s = he_generation e" "\<not> now < he_deadline e"
    "fi_id x = he_id e" "fi_cb x = ts_cb s" "w' = w\<lparr>wd_heap := remove1 e (wd_heap w)\<rparr>"
    by (auto simp: run_take_def Let_def split: option.splits if_splits)
  note live = live_entry [OF _ e s(1,2)]
  have "armed (he_id e) (ts_generation s) w' = []" using live(2) inv a s by (simp add: armed_remove1)
  moreover have "ts_deadline s \<le> now" using live(1) inv a s(3) by (metis heap_entry.select_convs(1) not_less)
  ultimately show "\<exists>s. wd_timers w (fi_id x) = Some s \<and> ts_deadline s \<le> now \<and> fi_cb x = ts_cb s \<and> armed (fi_id x) (ts_generation s) w' = []"
    using s by auto
qed

definition ex_dog :: "nat watchdog" where
  "ex_dog = snd (reset_timer 3 1 (snd (add_oneshot 0 5 42 make_watchdog)))"

lemma ex_dog_reachable: "watchdog_step\<^sup>*\<^sup>* (make_watchdog, None) (ex_dog, None)"
proof -
  have "watchdog_step (make_watchdog, None) (snd (add_oneshot 0 5 (42 :: nat) make_watchdog), None)"
    unfolding add_oneshot_def by (rule wd_add)
  moreover have "watchdog_step (snd (add_oneshot 0 5 42 make_watchdog), None) (ex_dog, None)"
    unfolding ex_dog_def by (rule wd_reset)
  ultimately show ?thesis by (rule converse_rtranclp_into_rtranclp [OF _ r_into_rtranclp])
qed

lemma ex_dog_eq:
  "ex_dog = \<lparr>wd_heap = [\<lparr>he_deadline = 8, he_id = 1, he_generation = 1\<rparr>, \<lparr>he_deadline = 5, he_id = 1, he_generation = 0\<rparr>],
     wd_timers = [1 \<mapsto> \<lparr>ts_deadline = 8, ts_period = 5, ts_recurring = False, ts_generation = 1, ts_cb = 42\<rparr>], wd_next_id = 2\<rparr>"
  by (simp add: ex_dog_def add_oneshot_def add_timer_def reset_timer_def make_watchdog_def Let_def)

theorem watchdog_fires_armed_timers_witness:
  "\<exists>e. heap_top e ex_dog \<and> he_deadline e \<le> 8"
  using watchdog_fires_armed_timers [OF ex_dog_reachable, THEN conjunct1, rule_format, of 1]
  by (simp add: ex_dog_eq running_def)

end
