(* ===== verification/RaftReplica.thy ===== *)
theory RaftReplica
  imports Replica Watchdog
begin

text \<open>
  The replica under RAFT (\<open>src/raft/raft_replica.cpp\<close>), with the messages it commits
  (\<open>src/raft/raft_state_machine.hpp\<close>), the RAFT service in front of the consensus library
  (\<open>src/raft/raft_service.cpp\<close>) and the registry of peers and volumes (\<open>src/replica_mgr.cpp\<close>).

  The consensus library, the JSON codec and the peers on the network are arguments: a group
  context is a record of what the library answers, a peer is what it answers to a request. A
  JSON object is its list of fields. What the commit worker runs between a proposal and the
  end of \<open>apply_login\<close>'s wait is a separate step, so \<open>apply_login\<close> is split there.
\<close>

section \<open>Committed messages\<close>

datatype json_val = J_int int | J_nat nat | J_ints "int list"

type_synonym json = "(string \<times> json_val) list"

record SyncRSCommitLSNMsg =
  sm_rs_commit_lsn :: int
  sm_client_token :: nat
  sm_empty_slots :: "int list"

record InternalLoginMsg =
  im_client_token :: nat
  im_term :: nat
  im_rs_commit_lsn :: int

definition op_SyncRSCommitLSN :: int where "op_SyncRSCommitLSN = 0"
definition op_InternalLogin :: int where "op_InternalLogin = 1"

definition sync_to_json :: "SyncRSCommitLSNMsg \<Rightarrow> json" where
  "sync_to_json m = [(''op'', J_int op_SyncRSCommitLSN), (''rs_commit_lsn'', J_int (sm_rs_commit_lsn m)),
     (''client_token'', J_nat (sm_client_token m)), (''empty_slots'', J_ints (sm_empty_slots m))]"

definition login_to_json :: "InternalLoginMsg \<Rightarrow> json" where
  "login_to_json m = [(''op'', J_int op_InternalLogin), (''client_token'', J_nat (im_client_token m)), (''term'', J_nat (im_term m))]"

text \<open>\<open>j.at(key).get_to(field)\<close>: \<open>None\<close> is the exception for a missing key or a value of another type.\<close>

fun as_int :: "json_val option \<Rightarrow> int option" where
  "as_int (Some (J_int i)) = Some i"
| "as_int (Some (J_nat n)) = Some (int n)"
| "as_int _ = None"

fun as_nat :: "json_val option \<Rightarrow> nat option" where
  "as_nat (Some (J_nat n)) = Some n"
| "as_nat _ = None"

fun as_ints :: "json_val option \<Rightarrow> int list option" where
  "as_ints (Some (J_ints is)) = Some is"
| "as_ints _ = None"

definition sync_from_json :: "json \<Rightarrow> SyncRSCommitLSNMsg option" where
  "sync_from_json j =
     (case (as_int (map_of j ''rs_commit_lsn''), as_nat (map_of j ''client_token''), as_ints (map_of j ''empty_slots'')) of
        (Some rs, Some tok, Some es) \<Rightarrow> Some \<lparr>sm_rs_commit_lsn = rs, sm_client_token = tok, sm_empty_slots = es\<rparr>
      | _ \<Rightarrow> None)"

definition login_from_json :: "json \<Rightarrow> InternalLoginMsg option" where
  "login_from_json j =
     (case (as_nat (map_of j ''client_token''), as_nat (map_of j ''term'')) of
        (Some tok, Some trm) \<Rightarrow> Some \<lparr>im_client_token = tok, im_term = trm, im_rs_commit_lsn = -1\<rparr>
      | _ \<Rightarrow> None)"

text \<open>
  What the commit callback hands to the worker. A malformed payload and an unknown operation
  are logged and dropped; a missing or mistyped \<open>op\<close> throws out of the callback.
\<close>

datatype commit_task = Task_sync SyncRSCommitLSNMsg | Task_login InternalLoginMsg
datatype commit_outcome = Pushed commit_task | Dropped | Thrown

definition commit_cb :: "json \<Rightarrow> commit_outcome" where
  "commit_cb j =
     (case as_int (map_of j ''op'') of
        None \<Rightarrow> Thrown
      | Some opv \<Rightarrow>
          if opv = op_SyncRSCommitLSN then (case sync_from_json j of None \<Rightarrow> Dropped | Some m \<Rightarrow> Pushed (Task_sync m))
          else if opv = op_InternalLogin then (case login_from_json j of None \<Rightarrow> Dropped | Some m \<Rightarrow> Pushed (Task_login m))
          else Dropped)"

text \<open>
  The state machine's commit: \<open>unwrap\<close> is the library's decoder of the log buffer. The second
  component is the last committed index, which a buffer that does not decode leaves alone.
\<close>

definition state_machine_commit ::
  "(byte list \<Rightarrow> json option) \<Rightarrow> nat \<Rightarrow> byte list \<Rightarrow> nat \<Rightarrow> commit_outcome option \<times> nat" where
  "state_machine_commit unwrap log_idx data last_commit_idx =
     (case unwrap data of None \<Rightarrow> (None, last_commit_idx) | Some j \<Rightarrow> (Some (commit_cb j), log_idx))"

section \<open>Peers and volumes\<close>

record replica_info =
  ri_id :: peer_id
  ri_host :: "byte list"
  ri_raft_port :: nat
  ri_tcp_port :: nat

record replica_manager =
  mg_id :: peer_id
  mg_replicas :: "peer_id \<rightharpoonup> replica_info"
  mg_volumes :: "peer_id \<rightharpoonup> peer_id list"

text \<open>\<open>std::to_string\<close> of an unsigned number.\<close>

function dec_string :: "nat \<Rightarrow> byte list" where
  "dec_string n = (if n < 10 then [word_of_nat (48 + n)] else dec_string (n div 10) @ [word_of_nat (48 + n mod 10)])"
  by auto
termination by (relation "measure (\<lambda>n. n)") auto

declare dec_string.simps [simp del]

definition host_port :: "byte list \<Rightarrow> nat \<Rightarrow> byte list" where
  "host_port host port = host @ [58] @ dec_string port"

text \<open>\<open>emplace\<close> keeps the entry that is already there. \<open>members\<close> is the parsed configuration.\<close>

definition start_replica_service :: "peer_id \<Rightarrow> replica_info list \<Rightarrow> replica_manager \<Rightarrow> replica_manager" where
  "start_replica_service my_uuid members mg =
     mg\<lparr>mg_id := my_uuid,
        mg_replicas := fold (\<lambda>m rs. if rs (ri_id m) = None then rs(ri_id m \<mapsto> m) else rs) members Map.empty\<rparr>"

definition lookup_peer :: "peer_id \<Rightarrow> replica_manager \<Rightarrow> byte list" where
  "lookup_peer pid mg = (case mg_replicas mg pid of None \<Rightarrow> [] | Some ri \<Rightarrow> host_port (ri_host ri) (ri_raft_port ri))"

definition get_replica :: "peer_id \<Rightarrow> replica_manager \<Rightarrow> replica_info option" where
  "get_replica pid mg = mg_replicas mg pid"

definition register_volume :: "peer_id \<Rightarrow> replica_endpoint list \<Rightarrow> replica_manager \<Rightarrow> unit result \<times> replica_manager" where
  "register_volume vol members mg =
     (if list_ex (\<lambda>m. mg_replicas mg (ep_id m) = None) members then (Inl (Craft INTERNAL), mg)
      else (Inr (), mg\<lparr>mg_volumes := (mg_volumes mg)(vol \<mapsto> map ep_id members)\<rparr>))"

definition no_replica :: replica_info where
  "no_replica = \<lparr>ri_id = replicate 16 0, ri_host = [], ri_raft_port = 0, ri_tcp_port = 0\<rparr>"

definition get_volume :: "peer_id \<Rightarrow> replica_manager \<Rightarrow> replica_info list" where
  "get_volume vol mg =
     (case mg_volumes mg vol of
        None \<Rightarrow> []
      | Some ids \<Rightarrow> map (\<lambda>i. case mg_replicas mg i of None \<Rightarrow> no_replica | Some ri \<Rightarrow> ri) ids)"

section \<open>The RAFT service\<close>

text \<open>
  What the consensus library answers for one group: whether this server leads it, the
  leader's id, and the append's outcome (\<open>None\<close> when the library returns no status).
\<close>

record raft_ctx =
  cx_is_leader :: bool
  cx_leader_id :: "peer_id option"
  cx_append :: "json \<Rightarrow> unit result option"

record 'g raft_service =
  sv_enabled :: bool
  sv_server_uuid :: peer_id
  sv_state_mgrs :: "peer_id \<rightharpoonup> 'g"

definition get_state_mgr :: "peer_id \<Rightarrow> 'g raft_service \<Rightarrow> 'g result" where
  "get_state_mgr group_id sv = (case sv_state_mgrs sv group_id of None \<Rightarrow> Inl (Craft INTERNAL) | Some g \<Rightarrow> Inr g)"

definition create_state_mgr :: "'g \<Rightarrow> peer_id \<Rightarrow> 'g raft_service \<Rightarrow> 'g \<times> 'g raft_service" where
  "create_state_mgr new_mgr group_id sv =
     (case get_state_mgr group_id sv of
        Inr g \<Rightarrow> (g, sv)
      | Inl e \<Rightarrow> (new_mgr, sv\<lparr>sv_state_mgrs := (sv_state_mgrs sv)(group_id \<mapsto> new_mgr)\<rparr>))"

definition is_leader :: "('g \<Rightarrow> raft_ctx option) \<Rightarrow> peer_id \<Rightarrow> 'g raft_service \<Rightarrow> bool" where
  "is_leader repl_ctx group_id sv \<longleftrightarrow> sv_enabled sv \<and>
     (case get_state_mgr group_id sv of
        Inl e \<Rightarrow> False
      | Inr g \<Rightarrow> (case repl_ctx g of None \<Rightarrow> False | Some cx \<Rightarrow> cx_is_leader cx))"

definition leader_id :: "('g \<Rightarrow> raft_ctx option) \<Rightarrow> peer_id \<Rightarrow> 'g raft_service \<Rightarrow> peer_id" where
  "leader_id repl_ctx group_id sv =
     (let nil = replicate 16 0 in
      if \<not> sv_enabled sv then nil
      else case get_state_mgr group_id sv of
        Inl e \<Rightarrow> nil
      | Inr g \<Rightarrow> (case repl_ctx g of
            None \<Rightarrow> nil
          | Some cx \<Rightarrow> (case cx_leader_id cx of None \<Rightarrow> nil | Some l \<Rightarrow> l)))"

text \<open>\<open>None\<close>: the append returned no status, which the error branch then dereferences.\<close>

definition propose :: "('g \<Rightarrow> raft_ctx option) \<Rightarrow> peer_id \<Rightarrow> json \<Rightarrow> 'g raft_service \<Rightarrow> unit result option" where
  "propose repl_ctx group_id payload sv =
     (case get_state_mgr group_id sv of
        Inl e \<Rightarrow> Some (Inl (Craft INTERNAL))
      | Inr g \<Rightarrow> (case repl_ctx g of
            None \<Rightarrow> Some (Inl (Craft INTERNAL))
          | Some cx \<Rightarrow> cx_append cx payload))"

fun add_members ::
  "(peer_id \<Rightarrow> bool) \<Rightarrow> replica_manager \<Rightarrow> peer_id \<Rightarrow> replica_endpoint list \<Rightarrow> unit result" where
  "add_members add_member mg self [] = Inr ()"
| "add_members add_member mg self (m # ms) =
     (if lookup_peer (ep_id m) mg = [] then Inl (Craft INTERNAL)
      else if ep_id m = self then add_members add_member mg self ms
      else if \<not> add_member (ep_id m) then Inl (Craft INTERNAL)
      else add_members add_member mg self ms)"

definition create_group ::
  "bool \<Rightarrow> (peer_id \<Rightarrow> bool) \<Rightarrow> replica_manager \<Rightarrow> replica_endpoint list \<Rightarrow> 'g raft_service \<Rightarrow> unit result" where
  "create_group created add_member mg members sv =
     (if \<not> sv_enabled sv \<or> \<not> created then Inl (Craft INTERNAL)
      else add_members add_member mg (sv_server_uuid sv) members)"

section \<open>The replica\<close>

record quiesce =
  qu_current_term :: nat
  qu_term :: nat

record RaftReplica =
  rx_mem :: MemCraftReplica
  rx_max_tx :: nat
  rx_rs_commit_lsn :: int
  rx_login_done :: bool
  rx_watchdog :: "quiesce watchdog option"
  rx_pending_login_timer :: "nat option"

definition LoginWaitTime :: nat where "LoginWaitTime = 2"

definition make_raft_replica :: "replica_endpoint \<Rightarrow> nat \<Rightarrow> nat \<Rightarrow> bool \<Rightarrow> RaftReplica" where
  "make_raft_replica ep page_size max_tx raft_enabled =
     \<lparr>rx_mem = make_replica ep page_size, rx_max_tx = max_tx, rx_rs_commit_lsn = -1, rx_login_done = False,
      rx_watchdog = (if raft_enabled then Some make_watchdog else None), rx_pending_login_timer = None\<rparr>"

definition set_term :: "nat \<Rightarrow> RaftReplica \<Rightarrow> RaftReplica" where
  "set_term trm r = r\<lparr>rx_mem := (rx_mem r)\<lparr>rp_term := trm\<rparr>\<rparr>"

definition on_mem :: "(MemCraftReplica \<Rightarrow> MemCraftReplica) \<Rightarrow> RaftReplica \<Rightarrow> RaftReplica" where
  "on_mem f r = r\<lparr>rx_mem := f (rx_mem r)\<rparr>"

definition cancel_pending :: "RaftReplica \<Rightarrow> quiesce watchdog \<Rightarrow> quiesce watchdog" where
  "cancel_pending r w = (case rx_pending_login_timer r of None \<Rightarrow> w | Some i \<Rightarrow> snd (cancel_timer i w))"

text \<open>\<open>None\<close>: the watchdog pointer is null. Time is in seconds.\<close>

definition do_get_rs_commit_lsn :: "nat \<Rightarrow> nat \<Rightarrow> bool \<Rightarrow> RaftReplica \<Rightarrow> (lsn_pair result \<times> RaftReplica) option" where
  "do_get_rs_commit_lsn now trm is_login r =
     (let ret = peek_lsns (rx_mem r) in
      if \<not> is_login then Some (Inr ret, r)
      else case rx_watchdog r of
        None \<Rightarrow> None
      | Some w \<Rightarrow>
          let (i, w') = add_oneshot now (2 * LoginWaitTime) \<lparr>qu_current_term = rp_term (rx_mem r), qu_term = trm\<rparr> (cancel_pending r w)
          in Some (Inr ret, (set_term trm r)\<lparr>rx_watchdog := Some w', rx_pending_login_timer := Some i\<rparr>))"

definition quiesce_timeout :: "quiesce \<Rightarrow> RaftReplica \<Rightarrow> RaftReplica" where
  "quiesce_timeout q r = (if rp_term (rx_mem r) = qu_term q then set_term (qu_current_term q) r else r)"

definition to_mem_journal_slot :: "JournalSlot \<Rightarrow> nat \<Rightarrow> MemJournalSlot" where
  "to_mem_journal_slot j trm =
     \<lparr>sl_term = trm, sl_lba = js_lba j, sl_len = js_len j, sl_all_zeros = js_all_zeros j, sl_is_empty = js_is_empty j,
      sl_bytes = (if 0 < sg_size (js_data j) then Some (take_payload (js_data j)) else None)\<rparr>"

fun missing_walk :: "int \<Rightarrow> int \<Rightarrow> int list \<Rightarrow> int list" where
  "missing_walk expect watermark [] = [expect..watermark]"
| "missing_walk expect watermark (k # ks) =
     (if k \<le> watermark then [expect..k - 1] @ missing_walk (k + 1) watermark ks else [expect..watermark])"

definition get_missing_slots :: "int \<Rightarrow> MemCraftReplica \<Rightarrow> int list" where
  "get_missing_slots watermark r =
     missing_walk (rp_commit_lsn r + 1) watermark (map fst (om_above (rp_commit_lsn r) (rp_journal r)))"

text \<open>The responses of the reachable peers, in the order of the volume's members.\<close>

definition collect :: "peer_id \<Rightarrow> (peer_id \<Rightarrow> 'a result) \<Rightarrow> replica_info list \<Rightarrow> 'a list" where
  "collect self ask peers =
     List.map_filter (\<lambda>p. if ri_id p = self then None else (case ask (ri_id p) of Inl e \<Rightarrow> None | Inr v \<Rightarrow> Some v)) peers"

text \<open>One missing slot across the responses: how many lack it, whether one has its data, and the replica.\<close>

fun decide_slot ::
  "int \<Rightarrow> nat \<Rightarrow> JournalSlot list list \<Rightarrow> nat \<Rightarrow> MemCraftReplica \<Rightarrow> nat \<times> bool \<times> MemCraftReplica" where
  "decide_slot lsn trm [] lacks r = (lacks, False, r)"
| "decide_slot lsn trm (resp # resps) lacks r =
     (case find (\<lambda>s. js_lsn s = lsn) resp of
        None \<Rightarrow> decide_slot lsn trm resps (lacks + 1) r
      | Some s \<Rightarrow>
          if js_is_empty s then decide_slot lsn trm resps (lacks + 1) r
          else (lacks, True, cold_install_slot lsn (to_mem_journal_slot s trm) r))"

definition resolve_step ::
  "nat \<Rightarrow> nat \<Rightarrow> JournalSlot list list \<Rightarrow> int \<Rightarrow> int list \<times> int \<times> MemCraftReplica \<Rightarrow> int list \<times> int \<times> MemCraftReplica" where
  "resolve_step n_peers trm resps lsn = (\<lambda>(empties, stalled, r).
     (let (lacks, is_data, r1) = decide_slot lsn trm resps 1 r in
      if n_peers div 2 + 1 \<le> lacks then (empties @ [lsn], stalled, r1)
      else if \<not> is_data then (empties, if stalled = -1 then lsn else min lsn stalled, r1)
      else (empties, stalled, r1)))"

definition resolve_and_apply ::
  "replica_info list \<Rightarrow> (peer_id \<Rightarrow> int list \<Rightarrow> JournalSlot list result) \<Rightarrow> int \<Rightarrow> nat \<Rightarrow> MemCraftReplica
     \<Rightarrow> (int list \<times> int) \<times> MemCraftReplica" where
  "resolve_and_apply peers fetch watermark trm r =
     (let missing = get_missing_slots watermark r in
      if missing = [] then (([], -1), r)
      else let resps = collect (ep_id (rp_ep r)) (\<lambda>p. fetch p missing) peers;
               (empties, stalled, r1) = fold (resolve_step (length peers) trm resps) missing ([], -1, r)
           in ((empties, stalled), r1))"

text \<open>\<open>None\<close>: the proposal dereferenced a missing status.\<close>

definition sync_rs_commit_lsn ::
  "replica_info list \<Rightarrow> (peer_id \<Rightarrow> int list \<Rightarrow> JournalSlot list result) \<Rightarrow> (json \<Rightarrow> unit result option)
     \<Rightarrow> int \<Rightarrow> nat \<Rightarrow> nat \<Rightarrow> RaftReplica \<Rightarrow> unit result option \<times> RaftReplica" where
  "sync_rs_commit_lsn peers fetch prop rs_commit_lsn client_token trm r =
     (let ((empties, stalled), m) = resolve_and_apply peers fetch rs_commit_lsn trm (rx_mem r);
          r1 = r\<lparr>rx_mem := m\<rparr>
      in if stalled \<noteq> -1 then (Some (Inl (Craft INTERNAL)), r1)
         else (prop (sync_to_json \<lparr>sm_rs_commit_lsn = rs_commit_lsn, sm_client_token = client_token, sm_empty_slots = empties\<rparr>), r1))"

text \<open>
  \<open>apply_login\<close> up to its wait for the commit. The environment: whether RAFT runs and this replica
  leads, the leader's id, the volume's members, and what peers and proposals answer.
\<close>

record login_env =
  ev_raft_enabled :: bool
  ev_is_leader :: bool
  ev_leader_id :: peer_id
  ev_members :: "replica_info list"
  ev_poll :: "peer_id \<Rightarrow> nat \<Rightarrow> bool \<Rightarrow> lsn_pair result"
  ev_fetch :: "peer_id \<Rightarrow> int list \<Rightarrow> JournalSlot list result"
  ev_propose :: "json \<Rightarrow> unit result option"

definition login_reply :: "replica_endpoint list \<Rightarrow> int \<Rightarrow> peer_id \<Rightarrow> LoginResult" where
  "login_reply members dlsn hint = \<lparr>lr_members = members, lr_dLSN = dlsn, lr_term = 0, lr_lba_size = 0, lr_capacity = 0,
     lr_leader_hint = hint, lr_max_tx = 0\<rparr>"

datatype login_progress = Login_done "LoginResult result" | Login_waiting int | Login_crash

definition max_append :: "lsn_pair list \<Rightarrow> int" where
  "max_append ps = Max (lp_last_append_lsn ` set ps)"

definition apply_login :: "login_env \<Rightarrow> nat \<Rightarrow> nat \<Rightarrow> RaftReplica \<Rightarrow> login_progress \<times> RaftReplica" where
  "apply_login env client_token trm r =
     (if \<not> ev_raft_enabled env then
        (Login_done (Inr (login_reply [rp_ep (rx_mem r)] (rp_last_append_lsn (rx_mem r)) (replicate 16 0))),
         on_mem (cold_apply_login client_token trm) r)
      else if \<not> ev_is_leader env then (Login_done (Inr (login_reply [] (-1) (ev_leader_id env))), r)
      else
        let current_term = rp_term (rx_mem r);
            peer_resp = peek_lsns (rx_mem r) # collect (ep_id (rp_ep (rx_mem r))) (\<lambda>p. ev_poll env p trm True) (ev_members env)
        in if length peer_resp \<le> length (ev_members env) div 2 then (Login_done (Inl (Craft NO_QUORUM)), r)
           else let rs = max_append peer_resp in
             case sync_rs_commit_lsn (ev_members env) (ev_fetch env) (ev_propose env) rs client_token current_term r of
               (None, r1) \<Rightarrow> (Login_crash, r1)
             | (Some (Inl e), r1) \<Rightarrow> (Login_done (Inl e), r1)
             | (Some (Inr u), r1) \<Rightarrow>
                 let r2 = r1\<lparr>rx_login_done := False\<rparr> in
                 case ev_propose env (login_to_json \<lparr>im_client_token = client_token, im_term = trm, im_rs_commit_lsn = rs\<rparr>) of
                   None \<Rightarrow> (Login_crash, r2)
                 | Some (Inl e) \<Rightarrow> (Login_done (Inl e), r2)
                 | Some (Inr u) \<Rightarrow> (Login_waiting rs, r2))"

text \<open>The end of the wait, on the state the commit worker has left.\<close>

definition apply_login_wait :: "login_env \<Rightarrow> int \<Rightarrow> RaftReplica \<Rightarrow> LoginResult result" where
  "apply_login_wait env rs r =
     (if rx_login_done r
      then Inr (login_reply (map (\<lambda>m. \<lparr>ep_id = ri_id m, ep_addr = host_port (ri_host m) (ri_tcp_port m)\<rparr>) (ev_members env))
                  rs (replicate 16 0))
      else Inl (Craft INTERNAL))"

definition srv_create_volume ::
  "unit result \<Rightarrow> peer_id \<Rightarrow> replica_endpoint list \<Rightarrow> replica_manager \<Rightarrow> unit result \<times> replica_manager" where
  "srv_create_volume created vol members mg =
     (if get_volume vol mg \<noteq> [] then (Inr (), mg)
      else case created of
        Inl e \<Rightarrow> (Inl e, mg)
      | Inr u \<Rightarrow> (Inr (), snd (register_volume vol members mg)))"

section \<open>The commit worker\<close>

text \<open>One peer's answer to what is still missing.\<close>

definition take_slot :: "nat \<Rightarrow> JournalSlot list \<Rightarrow> int \<Rightarrow> MemCraftReplica \<Rightarrow> MemCraftReplica" where
  "take_slot trm resp lsn r =
     (case find (\<lambda>s. js_lsn s = lsn) resp of
        None \<Rightarrow> r
      | Some s \<Rightarrow> if js_is_empty s then cold_mark_empty lsn r else cold_install_slot lsn (to_mem_journal_slot s trm) r)"

definition take_response :: "nat \<Rightarrow> JournalSlot list \<Rightarrow> int list \<times> MemCraftReplica \<Rightarrow> int list \<times> MemCraftReplica" where
  "take_response trm resp = (\<lambda>(missing, r).
     (filter (\<lambda>lsn. find (\<lambda>s. js_lsn s = lsn) resp = None) missing, fold (take_slot trm resp) missing r))"

fun ask_peers ::
  "peer_id \<Rightarrow> (peer_id \<Rightarrow> int list \<Rightarrow> JournalSlot list result) \<Rightarrow> nat \<Rightarrow> replica_info list \<Rightarrow> int list \<times> MemCraftReplica
     \<Rightarrow> int list \<times> MemCraftReplica" where
  "ask_peers self fetch trm [] mr = mr"
| "ask_peers self fetch trm (p # ps) mr =
     (if fst mr = [] then mr
      else if ri_id p = self then ask_peers self fetch trm ps mr
      else case fetch (ri_id p) (fst mr) of
        Inl e \<Rightarrow> ask_peers self fetch trm ps mr
      | Inr resp \<Rightarrow> ask_peers self fetch trm ps (take_response trm resp mr))"

definition apply_sync ::
  "replica_info list \<Rightarrow> (peer_id \<Rightarrow> int list \<Rightarrow> JournalSlot list result) \<Rightarrow> SyncRSCommitLSNMsg \<Rightarrow> RaftReplica \<Rightarrow> RaftReplica" where
  "apply_sync peers fetch m r =
     (let m1 = fold cold_mark_empty (sm_empty_slots m) (rx_mem r);
          (still, m2) = ask_peers (ep_id (rp_ep m1)) fetch (rp_term m1) peers (get_missing_slots (sm_rs_commit_lsn m) m1, m1)
      in r\<lparr>rx_mem := apply_up_to (sm_rs_commit_lsn m) m2, rx_rs_commit_lsn := sm_rs_commit_lsn m\<rparr>)"

definition srv_session_info :: "RaftReplica \<Rightarrow> nat \<times> nat" where
  "srv_session_info r = (rp_term (rx_mem r), rp_client_token (rx_mem r))"

definition internal_login :: "InternalLoginMsg \<Rightarrow> RaftReplica \<Rightarrow> RaftReplica" where
  "internal_login m r =
     (let m1 = (rx_mem r)\<lparr>rp_client_token := im_client_token m, rp_term := im_term m\<rparr>;
          m2 = (if 0 \<le> im_rs_commit_lsn m then cold_truncate_above (im_rs_commit_lsn m) m1 else m1)
      in r\<lparr>rx_mem := m2, rx_watchdog := map_option (cancel_pending r) (rx_watchdog r), rx_pending_login_timer := None,
           rx_login_done := True\<rparr>)"

definition run_task ::
  "replica_info list \<Rightarrow> (peer_id \<Rightarrow> int list \<Rightarrow> JournalSlot list result) \<Rightarrow> commit_task \<Rightarrow> RaftReplica \<Rightarrow> RaftReplica" where
  "run_task peers fetch t r = (case t of Task_sync m \<Rightarrow> apply_sync peers fetch m r | Task_login m \<Rightarrow> internal_login m r)"

section \<open>What is missing\<close>

lemma missing_walk_set:
  assumes "sorted_wrt (<) ks" "\<forall>k \<in> set ks. expect \<le> k"
  shows "set (missing_walk expect watermark ks) = {d. expect \<le> d \<and> d \<le> watermark \<and> d \<notin> set ks}"
    and "distinct (missing_walk expect watermark ks)"
  using assms
proof (induction expect watermark ks rule: missing_walk.induct)
  case (2 expect watermark k ks)
  {
    case 1
    show ?case
    proof (cases "k \<le> watermark")
      case True
      have IH: "set (missing_walk (k + 1) watermark ks) = {d. k + 1 \<le> d \<and> d \<le> watermark \<and> d \<notin> set ks}"
        using "2.IH"(1) [OF True] 1 by fastforce
      show ?thesis unfolding missing_walk.simps if_P [OF True] set_append IH using 1 True by auto
    qed (use 1 in \<open>auto simp: not_le\<close>)
  next
    case 2
    show ?case
    proof (cases "k \<le> watermark")
      case True
      have IH: "set (missing_walk (k + 1) watermark ks) = {d. k + 1 \<le> d \<and> d \<le> watermark \<and> d \<notin> set ks}"
        and D: "distinct (missing_walk (k + 1) watermark ks)"
        using "2.IH" [OF True] 2 by fastforce+
      show ?thesis unfolding missing_walk.simps if_P [OF True] distinct_append IH using D by auto
    qed simp
  }
qed auto

lemma missing_slots:
  assumes "om_ok (rp_journal r)"
  shows "set (get_missing_slots w r) = {d. rp_commit_lsn r < d \<and> d \<le> w \<and> map_of (rp_journal r) d = None}"
    and "distinct (get_missing_slots w r)"
proof -
  let ?ks = "map fst (om_above (rp_commit_lsn r) (rp_journal r))"
  have ks: "sorted_wrt (<) ?ks" "\<forall>k \<in> set ?ks. rp_commit_lsn r + 1 \<le> k"
    using om_ok_above [OF assms] by (auto simp: om_ok_def om_above_def)
  have mem: "d \<in> set ?ks \<longleftrightarrow> rp_commit_lsn r < d \<and> map_of (rp_journal r) d \<noteq> None" for d
    by (auto simp: om_above_def map_of_eq_None_iff)
  show "set (get_missing_slots w r) = {d. rp_commit_lsn r < d \<and> d \<le> w \<and> map_of (rp_journal r) d = None}"
    unfolding get_missing_slots_def missing_walk_set(1) [OF ks] mem by auto
  show "distinct (get_missing_slots w r)"
    unfolding get_missing_slots_def by (rule missing_walk_set(2) [OF ks])
qed

section \<open>Deciding a slot\<close>

definition offers :: "int \<Rightarrow> JournalSlot list \<Rightarrow> bool" where
  "offers lsn resp \<longleftrightarrow> (case find (\<lambda>s. js_lsn s = lsn) resp of None \<Rightarrow> False | Some s \<Rightarrow> \<not> js_is_empty s)"

text \<open>A peer that holds nothing, or an Empty verdict, is a vote against the slot; data ends the vote.\<close>

lemma decide_slot_spec:
  assumes "decide_slot lsn trm resps lacks r = (l, is_data, r')"
  shows "lacks \<le> l" "l \<le> lacks + length (filter (\<lambda>x. \<not> offers lsn x) resps)" "is_data \<longleftrightarrow> list_ex (offers lsn) resps"
    "r' = r \<and> \<not> is_data \<or> (\<exists>s. is_data \<and> \<not> js_is_empty s \<and> (\<exists>x \<in> set resps. s \<in> set x \<and> js_lsn s = lsn) \<and>
       r' = cold_install_slot lsn (to_mem_journal_slot s trm) r)"
  using assms
proof (induction resps arbitrary: lacks)
  case (Cons x resps)
  {
    case 1
    then show ?case using Cons.IH(1) by (fastforce split: option.splits if_splits)
  next
    case 2
    then show ?case using Cons.IH(2) by (fastforce simp: offers_def [of lsn x] split: option.splits if_splits)
  next
    case 3
    then show ?case using Cons.IH(3) by (auto simp: offers_def [of lsn x] split: option.splits if_splits)
  next
    case 4
    show ?case
    proof (cases "find (\<lambda>s. js_lsn s = lsn) x")
      case None
      then show ?thesis using 4 Cons.IH(4) [of "lacks + 1"] by auto
    next
      case (Some s)
      then have s: "s \<in> set x \<and> js_lsn s = lsn" by (rule find_SomeD)
      show ?thesis
      proof (cases "js_is_empty s")
        case True
        then show ?thesis using 4 Some Cons.IH(4) [of "lacks + 1"] by auto
      next
        case False
        then show ?thesis using 4 Some s by auto
      qed
    qed
  }
qed auto

text \<open>The effect of one slot on the loop's state.\<close>

lemma cold_install_look:
  "map_of (rp_journal (cold_install_slot d s r)) x =
     (if x = d \<and> map_of (rp_journal r) d = None then Some s else map_of (rp_journal r) x)"
  by (auto simp: cold_install_slot_def)

lemma cold_install_frame [simp]:
  "rp_commit_lsn (cold_install_slot d s r) = rp_commit_lsn r" "rp_ep (cold_install_slot d s r) = rp_ep r"
  "rp_term (cold_install_slot d s r) = rp_term r"
  "om_ok (rp_journal r) \<Longrightarrow> om_ok (rp_journal (cold_install_slot d s r))"
  by (simp_all add: cold_install_slot_def)

lemma cold_mark_empty_frame [simp]:
  "rp_commit_lsn (cold_mark_empty d r) = rp_commit_lsn r" "rp_ep (cold_mark_empty d r) = rp_ep r"
  "rp_term (cold_mark_empty d r) = rp_term r"
  "om_ok (rp_journal r) \<Longrightarrow> om_ok (rp_journal (cold_mark_empty d r))"
  "map_of (rp_journal (cold_mark_empty d r)) = (map_of (rp_journal r))(d \<mapsto> empty_slot (rp_term r))"
  by (simp_all add: cold_mark_empty_def)

definition from_peer :: "JournalSlot list list \<Rightarrow> nat \<Rightarrow> int \<Rightarrow> MemJournalSlot \<Rightarrow> bool" where
  "from_peer resps trm lsn s \<longleftrightarrow> (\<exists>j x. x \<in> set resps \<and> j \<in> set x \<and> js_lsn j = lsn \<and> \<not> js_is_empty j \<and> s = to_mem_journal_slot j trm)"

text \<open>
  The loop over the missing slots: a slot is Empty only with enough votes against it, and when
  nothing stalled every slot is Empty or now held, with a peer's data.
\<close>

definition loop_grows :: "JournalSlot list list \<Rightarrow> nat \<Rightarrow> MemCraftReplica \<Rightarrow> MemCraftReplica \<Rightarrow> bool" where
  "loop_grows resps trm r r' \<longleftrightarrow> rp_commit_lsn r' = rp_commit_lsn r \<and> rp_ep r' = rp_ep r \<and>
     (om_ok (rp_journal r) \<longrightarrow> om_ok (rp_journal r')) \<and>
     (\<forall>x. map_of (rp_journal r') x = map_of (rp_journal r) x \<or>
       map_of (rp_journal r) x = None \<and> (\<exists>s. map_of (rp_journal r') x = Some s \<and> from_peer resps trm x s))"

lemma loop_grows_refl [simp]: "loop_grows resps trm r r"
  by (simp add: loop_grows_def)

lemma loop_grows_trans: "loop_grows resps trm a b \<Longrightarrow> loop_grows resps trm b c \<Longrightarrow> loop_grows resps trm a c"
  unfolding loop_grows_def by (metis option.distinct(1))

lemma loop_grows_keeps: "loop_grows resps trm a b \<Longrightarrow> map_of (rp_journal a) x \<noteq> None \<Longrightarrow> map_of (rp_journal b) x \<noteq> None"
  unfolding loop_grows_def by metis

definition outvoted :: "nat \<Rightarrow> JournalSlot list list \<Rightarrow> int \<Rightarrow> bool" where
  "outvoted n resps d \<longleftrightarrow> n div 2 + 1 \<le> 1 + length (filter (\<lambda>x. \<not> offers d x) resps)"

lemma resolve_step_spec:
  assumes step: "resolve_step n trm resps d (es, stalled, r) = (es', stalled', r')" and "0 \<le> d"
    and "stalled = -1 \<or> 0 \<le> stalled"
  shows "loop_grows resps trm r r' \<and> (es' = es \<or> es' = es @ [d] \<and> outvoted n resps d) \<and> (stalled' = -1 \<or> 0 \<le> stalled') \<and>
    (stalled' = -1 \<longrightarrow> stalled = -1 \<and> (d \<in> set es' \<or> map_of (rp_journal r') d \<noteq> None))"
proof -
  obtain l is_data r1 where dec: "decide_slot d trm resps 1 r = (l, is_data, r1)" using prod_cases3 by blast
  note spec = decide_slot_spec [OF dec]
  have r1: "r1 = r'" using step dec by (auto simp: resolve_step_def split: if_splits)
  have install: "loop_grows resps trm r (cold_install_slot d s r)" if "from_peer resps trm d s" for s
    unfolding loop_grows_def cold_install_look using that by simp
  have grows: "loop_grows resps trm r r1"
    using spec(4) install unfolding from_peer_def by (elim disjE) (simp, blast)
  have held: "map_of (rp_journal r1) d \<noteq> None" if is_data
    using spec(4) that by (auto simp: cold_install_look)
  have vote: "outvoted n resps d" if "n div 2 + 1 \<le> l" using that spec(2) by (simp add: outvoted_def)
  show ?thesis using step dec assms(2,3) grows held vote r1
    by (auto simp: resolve_step_def split: if_splits)
qed

text \<open>
  The loop over the missing slots: a slot is Empty only with enough votes against it, and when
  nothing stalled every slot is Empty or now held.
\<close>

lemma resolve_loop:
  assumes "fold (resolve_step n trm resps) todo (es, stalled, r) = (es', stalled', r')"
    and "\<forall>d \<in> set todo. 0 \<le> d" "stalled = -1 \<or> 0 \<le> stalled"
  shows "loop_grows resps trm r r' \<and> set es \<subseteq> set es' \<and> set es' \<subseteq> set es \<union> {d \<in> set todo. outvoted n resps d} \<and>
    (stalled' = -1 \<longrightarrow> stalled = -1 \<and> (\<forall>d \<in> set todo. d \<in> set es' \<or> map_of (rp_journal r') d \<noteq> None))"
  using assms
proof (induction todo arbitrary: es stalled r)
  case (Cons d todo)
  obtain es1 st1 r1 where step: "resolve_step n trm resps d (es, stalled, r) = (es1, st1, r1)" using prod_cases3 by blast
  note spec = resolve_step_spec [OF step]
  have s1: "loop_grows resps trm r r1" "es1 = es \<or> es1 = es @ [d] \<and> outvoted n resps d" "st1 = -1 \<or> 0 \<le> st1"
    "st1 = -1 \<Longrightarrow> stalled = -1 \<and> (d \<in> set es1 \<or> map_of (rp_journal r1) d \<noteq> None)"
    using spec Cons.prems by simp_all
  have IH: "loop_grows resps trm r1 r' \<and> set es1 \<subseteq> set es' \<and> set es' \<subseteq> set es1 \<union> {d \<in> set todo. outvoted n resps d} \<and>
    (stalled' = -1 \<longrightarrow> st1 = -1 \<and> (\<forall>d \<in> set todo. d \<in> set es' \<or> map_of (rp_journal r') d \<noteq> None))"
    by (rule Cons.IH) (use Cons.prems step s1(3) in simp_all)
  have "loop_grows resps trm r r'" using loop_grows_trans s1(1) IH by blast
  moreover have "d \<in> set es' \<or> map_of (rp_journal r') d \<noteq> None" if "stalled' = -1"
    using that IH s1(4) loop_grows_keeps [of resps trm r1 r' d] by blast
  ultimately show ?case using IH s1(2,4) by auto
qed simp

lemma collect_lacking:
  assumes "\<And>p v. p \<in> set peers \<Longrightarrow> ri_id p \<noteq> self \<Longrightarrow> ask (ri_id p) = Inr v \<Longrightarrow> \<not> bad v \<Longrightarrow> good (ri_id p)"
    and "\<And>p v. p \<in> set peers \<Longrightarrow> ri_id p \<noteq> self \<Longrightarrow> ask (ri_id p) = Inr v \<Longrightarrow> good (ri_id p) \<Longrightarrow> \<not> bad v"
  shows "length (filter bad (collect self ask peers)) + length (filter (\<lambda>p. ri_id p \<noteq> self \<and> good (ri_id p)) peers)
    + length (filter (\<lambda>p. ri_id p = self) peers) \<le> length peers"
  using assms
proof (induction peers)
  case (Cons p peers)
  have IH: "length (filter bad (collect self ask peers)) + length (filter (\<lambda>p. ri_id p \<noteq> self \<and> good (ri_id p)) peers)
    + length (filter (\<lambda>p. ri_id p = self) peers) \<le> length peers"
    by (rule Cons.IH) (use Cons.prems in \<open>auto\<close>)
  then show ?case using Cons.prems(1,2) [of p]
    by (auto simp: collect_def map_filter_simps split: sum.split)
qed (simp add: collect_def map_filter_simps)

lemma find_do_fetch:
  "find (\<lambda>s. js_lsn s = lsn) (do_fetch ls r) =
     (if lsn \<in> set ls then map_option (journal_slot_of lsn) (map_of (rp_journal r) lsn) else None)"
proof -
  have "js_lsn (journal_slot_of l s) = l" for l s by (simp add: journal_slot_of_def)
  then show ?thesis by (induction ls) (auto simp: do_fetch_def map_filter_simps split: option.splits)
qed

lemma do_fetch_offers:
  assumes "lsn \<in> set lsns"
  shows "offers lsn (do_fetch lsns r) \<longleftrightarrow> (\<exists>s. map_of (rp_journal r) lsn = Some s \<and> \<not> sl_is_empty s)"
  using assms by (auto simp: offers_def find_do_fetch journal_slot_of_def split: option.splits)

section \<open>Catching up\<close>

lemma mark_all:
  "rp_commit_lsn (fold cold_mark_empty ds r) = rp_commit_lsn r" "rp_ep (fold cold_mark_empty ds r) = rp_ep r"
  "rp_term (fold cold_mark_empty ds r) = rp_term r"
  "om_ok (rp_journal r) \<Longrightarrow> om_ok (rp_journal (fold cold_mark_empty ds r))"
  "map_of (rp_journal (fold cold_mark_empty ds r)) x = (if x \<in> set ds then Some (empty_slot (rp_term r)) else map_of (rp_journal r) x)"
  by (induction ds arbitrary: r) auto

text \<open>What the exchange with the peers keeps: nothing held is lost or changed, and what leaves the list is held.\<close>

definition catch_up :: "int list \<times> MemCraftReplica \<Rightarrow> int list \<times> MemCraftReplica \<Rightarrow> bool" where
  "catch_up mr mr' \<longleftrightarrow> rp_commit_lsn (snd mr') = rp_commit_lsn (snd mr) \<and> set (fst mr') \<subseteq> set (fst mr) \<and>
     (\<forall>d. d \<notin> set (fst mr) \<longrightarrow> map_of (rp_journal (snd mr')) d = map_of (rp_journal (snd mr)) d) \<and>
     (\<forall>d \<in> set (fst mr) - set (fst mr'). map_of (rp_journal (snd mr')) d \<noteq> None)"

lemma catch_up_refl [simp]: "catch_up mr mr"
  by (simp add: catch_up_def)

lemma catch_up_trans:
  assumes "catch_up a b" "catch_up b c"
  shows "catch_up a c"
  unfolding catch_up_def
proof (intro conjI allI impI ballI)
  show "rp_commit_lsn (snd c) = rp_commit_lsn (snd a)" "set (fst c) \<subseteq> set (fst a)"
    using assms by (auto simp: catch_up_def)
  fix d
  show "map_of (rp_journal (snd c)) d = map_of (rp_journal (snd a)) d" if "d \<notin> set (fst a)"
    using assms that by (auto simp: catch_up_def)
  show "map_of (rp_journal (snd c)) d \<noteq> None" if "d \<in> set (fst a) - set (fst c)"
    using assms that by (cases "d \<in> set (fst b)") (auto simp: catch_up_def)
qed

lemma take_response_catch_up:
  assumes "distinct (fst mr)"
  shows "catch_up mr (take_response trm resp mr)"
proof -
  have one: "rp_commit_lsn (take_slot trm resp d r) = rp_commit_lsn r"
    "x \<noteq> d \<Longrightarrow> map_of (rp_journal (take_slot trm resp d r)) x = map_of (rp_journal r) x"
    "find (\<lambda>s. js_lsn s = d) resp \<noteq> None \<Longrightarrow> map_of (rp_journal (take_slot trm resp d r)) d \<noteq> None"
    "map_of (rp_journal r) x \<noteq> None \<Longrightarrow> map_of (rp_journal (take_slot trm resp d r)) x \<noteq> None" for d x r
    by (auto simp: take_slot_def cold_install_look split: option.split)
  have all: "rp_commit_lsn (fold (take_slot trm resp) ds r) = rp_commit_lsn r \<and>
      (\<forall>x. x \<notin> set ds \<longrightarrow> map_of (rp_journal (fold (take_slot trm resp) ds r)) x = map_of (rp_journal r) x) \<and>
      (\<forall>x. map_of (rp_journal r) x \<noteq> None \<longrightarrow> map_of (rp_journal (fold (take_slot trm resp) ds r)) x \<noteq> None) \<and>
      (\<forall>d \<in> set ds. find (\<lambda>s. js_lsn s = d) resp \<noteq> None \<longrightarrow> map_of (rp_journal (fold (take_slot trm resp) ds r)) d \<noteq> None)" for ds r
  proof (induction ds arbitrary: r)
    case (Cons d ds)
    note IH = Cons.IH [of "take_slot trm resp d r"]
    show ?case unfolding fold_simps
    proof (intro conjI allI impI ballI)
      show "rp_commit_lsn (fold (take_slot trm resp) ds (take_slot trm resp d r)) = rp_commit_lsn r" using IH one(1) by simp
      fix x
      show "map_of (rp_journal (fold (take_slot trm resp) ds (take_slot trm resp d r))) x = map_of (rp_journal r) x" if "x \<notin> set (d # ds)"
        using IH one(2) [of x d r] that by simp
      show "map_of (rp_journal (fold (take_slot trm resp) ds (take_slot trm resp d r))) x \<noteq> None" if "map_of (rp_journal r) x \<noteq> None"
        using IH one(4) [OF that, of d] by blast
      show "map_of (rp_journal (fold (take_slot trm resp) ds (take_slot trm resp d r))) x \<noteq> None"
        if "x \<in> set (d # ds)" "find (\<lambda>s. js_lsn s = x) resp \<noteq> None"
        using IH one(3) [of x r] that by auto
    qed
  qed simp
  show ?thesis using all [of "fst mr" "snd mr"] by (auto simp: catch_up_def take_response_def split_beta)
qed

lemma ask_peers_catch_up:
  assumes "distinct (fst mr)"
  shows "catch_up mr (ask_peers self fetch trm ps mr)"
  using assms
proof (induction ps arbitrary: mr)
  case (Cons p ps)
  have "distinct (fst (take_response trm resp mr))" for resp using Cons.prems by (simp add: take_response_def split_beta)
  then have step: "catch_up mr (ask_peers self fetch trm ps (take_response trm resp mr))" for resp
    using Cons.IH catch_up_trans take_response_catch_up [OF Cons.prems] by blast
  then show ?case using Cons.IH [OF Cons.prems] by (simp split: sum.split)
qed simp

text \<open>A peer answers for a slot when every request that names it is answered with that slot.\<close>

definition answers_for :: "(peer_id \<Rightarrow> int list \<Rightarrow> JournalSlot list result) \<Rightarrow> peer_id \<Rightarrow> int \<Rightarrow> bool" where
  "answers_for fetch p d \<longleftrightarrow> (\<forall>ds. d \<in> set ds \<longrightarrow> (\<exists>resp. fetch p ds = Inr resp \<and> find (\<lambda>s. js_lsn s = d) resp \<noteq> None))"

lemma ask_peers_finds:
  assumes "\<exists>p \<in> set ps. ri_id p \<noteq> self \<and> answers_for fetch (ri_id p) d"
  shows "d \<notin> set (fst (ask_peers self fetch trm ps mr))"
  using assms
proof (induction ps arbitrary: mr)
  case (Cons p ps)
  have mono: "set (fst (ask_peers self fetch trm qs mr)) \<subseteq> set (fst mr)" for qs mr
  proof (induction qs arbitrary: mr)
    case (Cons q qs)
    have "set (fst (take_response trm resp mr)) \<subseteq> set (fst mr)" for resp by (auto simp: take_response_def split_beta)
    then show ?case using Cons.IH by (simp split: sum.split) (meson subset_trans)
  qed simp
  show ?case
  proof (cases "ri_id p \<noteq> self \<and> answers_for fetch (ri_id p) d")
    case True
    show ?thesis
    proof (cases "d \<in> set (fst mr)")
      case d: True
      then obtain resp where resp: "fetch (ri_id p) (fst mr) = Inr resp" "find (\<lambda>s. js_lsn s = d) resp \<noteq> None"
        using True by (auto simp: answers_for_def)
      then have "d \<notin> set (fst (take_response trm resp mr))" by (simp add: take_response_def split_beta)
      then show ?thesis using mono [of ps "take_response trm resp mr"] resp(1) True d by auto
    next
      case False
      then show ?thesis using mono [of "p # ps" mr] by blast
    qed
  next
    case False
    then have "\<exists>p \<in> set ps. ri_id p \<noteq> self \<and> answers_for fetch (ri_id p) d" using Cons.prems by auto
    from Cons.IH [OF this] show ?thesis by (auto split: sum.split)
  qed
qed simp

section \<open>What the rounds promise\<close>

text \<open>C16: The leader's resolution round never voids durable data. A slot it reports Empty was missing on the
  leader above its commit frontier, and fewer than a quorum of the members hold data for it.
  When the round does not stall, every slot up to the watermark is either reported Empty or
  held by the leader afterwards; and nothing the leader held changes.\<close>

theorem raft_resolution_safe:
  assumes ok: "om_ok (rp_journal r)" and c: "-1 \<le> rp_commit_lsn r"
    and self: "\<exists>p \<in> set peers. ri_id p = ep_id (rp_ep r)"
    and net: "\<And>p ds resp. fetch p ds = Inr resp \<Longrightarrow> resp = do_fetch ds (mem p)"
    and run: "resolve_and_apply peers fetch w trm r = ((empties, stalled), r')"
  shows "(\<forall>d \<in> set empties. rp_commit_lsn r < d \<and> d \<le> w \<and> map_of (rp_journal r) d = None \<and>
        length (filter (\<lambda>p. ri_id p \<noteq> ep_id (rp_ep r) \<and>
          (\<exists>s. map_of (rp_journal (mem (ri_id p))) d = Some s \<and> \<not> sl_is_empty s)) peers) < length peers div 2 + 1) \<and>
    (stalled = -1 \<longrightarrow> (\<forall>d. rp_commit_lsn r < d \<and> d \<le> w \<longrightarrow> d \<in> set empties \<or> map_of (rp_journal r') d \<noteq> None)) \<and>
    (\<forall>d s. map_of (rp_journal r) d = Some s \<longrightarrow> map_of (rp_journal r') d = Some s)"
proof -
  let ?todo = "get_missing_slots w r" and ?self = "ep_id (rp_ep r)"
  let ?resps = "collect ?self (\<lambda>p. fetch p ?todo) peers"
  note todo = missing_slots [OF ok, of w]
  have f: "fold (resolve_step (length peers) trm ?resps) ?todo ([], -1, r) = (empties, stalled, r')"
    using run by (auto simp: resolve_and_apply_def Let_def split: if_splits prod.splits)
  have loop: "loop_grows ?resps trm r r'" "set empties \<subseteq> {d \<in> set ?todo. outvoted (length peers) ?resps d}"
    "stalled = -1 \<Longrightarrow> \<forall>d \<in> set ?todo. d \<in> set empties \<or> map_of (rp_journal r') d \<noteq> None"
    using resolve_loop [OF f] todo(1) c by auto
  have few: "length (filter (\<lambda>p. ri_id p \<noteq> ?self \<and> (\<exists>s. map_of (rp_journal (mem (ri_id p))) d = Some s \<and> \<not> sl_is_empty s)) peers)
      < length peers div 2 + 1" if d: "d \<in> set empties" for d
  proof -
    let ?good = "\<lambda>p. \<exists>s. map_of (rp_journal (mem p)) d = Some s \<and> \<not> sl_is_empty s"
    have "d \<in> set ?todo" "outvoted (length peers) ?resps d" using d loop(2) by auto
    have "offers d v \<longleftrightarrow> ?good p" if "fetch p ?todo = Inr v" for p v
      using net [OF that] do_fetch_offers [OF \<open>d \<in> set ?todo\<close>] by simp
    then have "length (filter (\<lambda>x. \<not> offers d x) ?resps) + length (filter (\<lambda>p. ri_id p \<noteq> ?self \<and> ?good (ri_id p)) peers)
      + length (filter (\<lambda>p. ri_id p = ?self) peers) \<le> length peers"
      by (intro collect_lacking) auto
    moreover have "0 < length (filter (\<lambda>p. ri_id p = ?self) peers)" using self by (auto simp: filter_empty_conv)
    moreover have "length peers \<le> 2 * (length peers div 2) + 1" by simp
    ultimately show ?thesis using \<open>outvoted (length peers) ?resps d\<close> unfolding outvoted_def by linarith
  qed
  show ?thesis
  proof (intro conjI ballI allI impI)
    fix d
    show "rp_commit_lsn r < d" "d \<le> w" "map_of (rp_journal r) d = None" if "d \<in> set empties"
      using that loop(2) todo(1) by auto
    show "d \<in> set empties \<or> map_of (rp_journal r') d \<noteq> None" if "stalled = -1" "rp_commit_lsn r < d \<and> d \<le> w"
    proof (cases "map_of (rp_journal r) d = None")
      case True
      then have "d \<in> set ?todo" using that(2) todo(1) by simp
      then show ?thesis using loop(3) [OF that(1)] by simp
    next
      case False
      then show ?thesis using loop_grows_keeps [OF loop(1), of d] by simp
    qed
    show "map_of (rp_journal r') d = Some s" if "map_of (rp_journal r) d = Some s" for s
      using loop(1) that unfolding loop_grows_def by (metis option.distinct(1))
  qed (rule few)
qed

text \<open>C17: A replica that commits a \<open>SyncRSCommitLSN\<close> reaches its watermark whenever each slot it still
  misses is voided by the message or answered for by a reachable peer. The slots the message
  voids are Empty afterwards, and every other slot the replica held is unchanged.\<close>

theorem apply_sync_commits:
  assumes ok: "om_ok (rp_journal (rx_mem r))" and w: "rp_commit_lsn (rx_mem r) \<le> sm_rs_commit_lsn m"
    and found: "\<And>d. rp_commit_lsn (rx_mem r) < d \<Longrightarrow> d \<le> sm_rs_commit_lsn m \<Longrightarrow> d \<notin> set (sm_empty_slots m) \<Longrightarrow>
      map_of (rp_journal (rx_mem r)) d = None \<Longrightarrow>
      \<exists>p \<in> set peers. ri_id p \<noteq> ep_id (rp_ep (rx_mem r)) \<and> answers_for fetch (ri_id p) d"
    and r': "r' = rx_mem (apply_sync peers fetch m r)"
  shows "rp_commit_lsn r' = sm_rs_commit_lsn m \<and>
    (\<forall>d \<in> set (sm_empty_slots m). map_of (rp_journal r') d = Some (empty_slot (rp_term (rx_mem r)))) \<and>
    (\<forall>d s. d \<notin> set (sm_empty_slots m) \<and> map_of (rp_journal (rx_mem r)) d = Some s \<longrightarrow> map_of (rp_journal r') d = Some s)"
proof -
  let ?w = "sm_rs_commit_lsn m"
  define m1 where "m1 = fold cold_mark_empty (sm_empty_slots m) (rx_mem r)"
  note m1 = mark_all [where ds = "sm_empty_slots m" and r = "rx_mem r", folded m1_def]
  let ?todo = "get_missing_slots ?w m1"
  define mr where "mr = ask_peers (ep_id (rp_ep m1)) fetch (rp_term m1) peers (?todo, m1)"
  note todo = missing_slots [OF m1(4) [OF ok], of ?w]
  have cu: "catch_up (?todo, m1) mr" unfolding mr_def by (rule ask_peers_catch_up) (simp add: todo)
  have left: "d \<notin> set (fst mr)" if "d \<in> set ?todo" for d
  proof -
    have "\<exists>p \<in> set peers. ri_id p \<noteq> ep_id (rp_ep m1) \<and> answers_for fetch (ri_id p) d"
      unfolding m1(2) by (rule found) (use that todo(1) m1 in \<open>auto split: if_splits\<close>)
    then show ?thesis unfolding mr_def by (rule ask_peers_finds)
  qed
  have r': "r' = apply_up_to ?w (snd mr)"
    unfolding r' apply_sync_def by (simp add: Let_def split_beta m1_def mr_def)
  have "map_of (rp_journal (snd mr)) d \<noteq> None" if d: "rp_commit_lsn (snd mr) < d" "d \<le> ?w" for d
  proof (cases "d \<in> set ?todo")
    case True
    then show ?thesis using cu left by (auto simp: catch_up_def)
  next
    case False
    then show ?thesis using cu d todo(1) by (auto simp: catch_up_def)
  qed
  then have "rp_commit_lsn r' = max (rp_commit_lsn (snd mr)) ?w" unfolding r' by (rule apply_up_to_complete)
  moreover have "rp_commit_lsn (snd mr) = rp_commit_lsn (rx_mem r)" using cu m1(1) by (simp add: catch_up_def)
  moreover have "map_of (rp_journal r') d = map_of (rp_journal m1) d" if "map_of (rp_journal m1) d \<noteq> None" for d
    using cu todo(1) that unfolding r' by (auto simp: catch_up_def)
  ultimately show ?thesis using w m1(5) by (auto split: if_splits)
qed

text \<open>C22: What survives the log. A \<open>SyncRSCommitLSN\<close> message commits as it was proposed; an \<open>InternalLogin\<close>
  message commits with its term and token but without its \<open>rs_commit_lsn\<close>, so the committed
  login installs the session, ends the pending quiesce and leaves the whole journal in place.\<close>

theorem committed_messages:
  assumes "unwrap (wrap j) = Some j" "unwrap (wrap j2) = Some j2" "j = sync_to_json sm" "j2 = login_to_json lm"
  shows "state_machine_commit unwrap idx (wrap j) idx0 = (Some (Pushed (Task_sync sm)), idx) \<and>
    (\<exists>lm'. state_machine_commit unwrap idx (wrap j2) idx0 = (Some (Pushed (Task_login lm')), idx) \<and>
       srv_session_info (run_task peers fetch (Task_login lm') r) = (im_term lm, im_client_token lm) \<and>
       rp_journal (rx_mem (run_task peers fetch (Task_login lm') r)) = rp_journal (rx_mem r) \<and>
       rp_last_append_lsn (rx_mem (run_task peers fetch (Task_login lm') r)) = rp_last_append_lsn (rx_mem r) \<and>
       rx_pending_login_timer (run_task peers fetch (Task_login lm') r) = None)"
  using assms
  by (simp add: state_machine_commit_def commit_cb_def sync_to_json_def login_to_json_def op_SyncRSCommitLSN_def op_InternalLogin_def
      sync_from_json_def login_from_json_def run_task_def internal_login_def srv_session_info_def Let_def)

section \<open>The login quiesce\<close>

text \<open>One quiesce that times out restores the term; the timer of the last request is the only one pending.\<close>

lemma quiesce_restores:
  assumes "do_get_rs_commit_lsn now trm True r = Some (res, r1)"
  shows "\<exists>w i s. rx_watchdog r1 = Some w \<and> rx_pending_login_timer r1 = Some i \<and> wd_timers w i = Some s \<and>
    ts_deadline s = now + 4 \<and> rp_term (rx_mem r1) = trm \<and>
    rp_term (rx_mem (quiesce_timeout (ts_cb s) r1)) = rp_term (rx_mem r)"
proof -
  let ?s = "\<lparr>ts_deadline = now + 4, ts_period = 4, ts_recurring = False, ts_generation = 0,
    ts_cb = \<lparr>qu_current_term = rp_term (rx_mem r), qu_term = trm\<rparr>\<rparr> :: quiesce timer_state"
  obtain w i where "rx_watchdog r1 = Some w" "rx_pending_login_timer r1 = Some i" "wd_timers w i = Some ?s" "rp_term (rx_mem r1) = trm"
    using assms
    by (auto simp: do_get_rs_commit_lsn_def Let_def add_oneshot_def add_timer_def LoginWaitTime_def set_term_def split: option.splits)
  then show ?thesis by (intro exI [of _ w] exI [of _ i] exI [of _ ?s]) (simp add: quiesce_timeout_def set_term_def)
qed

text \<open>A second quiesce before the first times out remembers the first one's proposed term, and restores that.\<close>

lemma repeated_quiesce_restores_proposed:
  assumes "do_get_rs_commit_lsn now t1 True r = Some (res1, r1)" "do_get_rs_commit_lsn now' t2 True r1 = Some (res2, r2)"
  shows "\<exists>w i s. rx_watchdog r2 = Some w \<and> rx_pending_login_timer r2 = Some i \<and> wd_timers w i = Some s \<and>
    rp_term (rx_mem (quiesce_timeout (ts_cb s) r2)) = t1"
  using quiesce_restores [OF assms(1)] quiesce_restores [OF assms(2)] by auto

lemma quiesce_without_watchdog:
  "do_get_rs_commit_lsn now trm True (make_raft_replica ep page_size max_tx False) = None"
  by (simp add: do_get_rs_commit_lsn_def make_raft_replica_def)

section \<open>Concrete runs\<close>

definition ex_member :: "byte \<Rightarrow> replica_info" where
  "ex_member b = \<lparr>ri_id = [b], ri_host = [], ri_raft_port = 0, ri_tcp_port = 0\<rparr>"

definition ex_fetch :: "peer_id \<Rightarrow> int list \<Rightarrow> JournalSlot list result" where
  "ex_fetch p ds = Inr (do_fetch ds written0)"

definition ex_peers :: "replica_info list" where
  "ex_peers = [ex_member 1, ex_member 2, \<lparr>ri_id = ep_id (rp_ep written0), ri_host = [], ri_raft_port = 0, ri_tcp_port = 0\<rparr>]"

lemma written0_journal [simp]: "rp_journal written0 = [(0, slot0)]" "rp_commit_lsn written0 = -1"
  by (simp_all add: written0_def fresh0_def make_replica_def)

theorem raft_resolution_safe_witness:
  "map_of (rp_journal (snd (resolve_and_apply ex_peers ex_fetch 1 7 written0))) 0 = Some slot0"
proof -
  obtain empties stalled r' where run: "resolve_and_apply ex_peers ex_fetch 1 7 written0 = ((empties, stalled), r')"
    by (metis prod.collapse)
  have "map_of (rp_journal r') 0 = Some slot0"
    using raft_resolution_safe [OF _ _ _ _ run, of "\<lambda>_. written0", THEN conjunct2, THEN conjunct2, rule_format, of 0 slot0]
    by (simp add: om_ok_def ex_peers_def ex_fetch_def)
  then show ?thesis by (simp add: run)
qed

definition ex_raft :: RaftReplica where
  "ex_raft = (make_raft_replica \<lparr>ep_id = [9], ep_addr = []\<rparr> 2 4096 True)"

theorem apply_sync_commits_witness:
  "rp_commit_lsn (rx_mem (apply_sync ex_peers ex_fetch \<lparr>sm_rs_commit_lsn = 1, sm_client_token = 5, sm_empty_slots = [1]\<rparr> ex_raft)) = 1"
proof -
  let ?m = "\<lparr>sm_rs_commit_lsn = 1, sm_client_token = 5, sm_empty_slots = [1]\<rparr>"
  have mem: "rp_journal (rx_mem ex_raft) = []" "rp_commit_lsn (rx_mem ex_raft) = -1" "ep_id (rp_ep (rx_mem ex_raft)) = [9]"
    by (simp_all add: ex_raft_def make_raft_replica_def make_replica_def)
  have ans: "answers_for ex_fetch (ri_id (ex_member 1)) 0"
    by (simp add: answers_for_def ex_fetch_def find_do_fetch)
  have found: "\<exists>p \<in> set ex_peers. ri_id p \<noteq> ep_id (rp_ep (rx_mem ex_raft)) \<and> answers_for ex_fetch (ri_id p) d"
    if "rp_commit_lsn (rx_mem ex_raft) < d" "d \<le> sm_rs_commit_lsn ?m" "d \<notin> set (sm_empty_slots ?m)" for d
  proof -
    have "d = 0" using that mem by simp
    then show ?thesis using ans mem by (intro bexI [of _ "ex_member 1"]) (simp_all add: ex_peers_def ex_member_def)
  qed
  have "rp_commit_lsn (rx_mem (apply_sync ex_peers ex_fetch ?m ex_raft)) = sm_rs_commit_lsn ?m"
    by (rule apply_sync_commits [OF _ _ found refl, THEN conjunct1]) (simp_all add: mem)
  then show ?thesis by simp
qed

theorem committed_messages_witness:
  "\<exists>lm'. state_machine_commit (\<lambda>bs. Some (login_to_json \<lparr>im_client_token = 5, im_term = 3, im_rs_commit_lsn = 8\<rparr>)) 4 [] 3
      = (Some (Pushed (Task_login lm')), 4) \<and> srv_session_info (run_task [] ex_fetch (Task_login lm') ex_raft) = (3, 5)"
  using committed_messages [where wrap = "\<lambda>j. if j = login_to_json \<lparr>im_client_token = 5, im_term = 3, im_rs_commit_lsn = 8\<rparr> then [] else [1]"
      and unwrap = "\<lambda>bs. Some (if bs = [] then login_to_json \<lparr>im_client_token = 5, im_term = 3, im_rs_commit_lsn = 8\<rparr>
        else sync_to_json \<lparr>sm_rs_commit_lsn = 1, sm_client_token = 5, sm_empty_slots = []\<rparr>)"
      and sm = "\<lparr>sm_rs_commit_lsn = 1, sm_client_token = 5, sm_empty_slots = []\<rparr>"
      and lm = "\<lparr>im_client_token = 5, im_term = 3, im_rs_commit_lsn = 8\<rparr>" and idx = 4 and ?idx0.0 = 3 and r = ex_raft
      and peers = "[]" and fetch = ex_fetch, OF _ _ refl refl]
  by (auto simp: sync_to_json_def login_to_json_def op_SyncRSCommitLSN_def op_InternalLogin_def state_machine_commit_def)

end
