(* ===== verification/TcpServer.thy ===== *)
theory TcpServer
  imports Server RaftReplica
begin

text \<open>
  The TCP server in front of one replica (\<open>src/net/tcp_server.cpp\<close>): one definition per request
  handler, and the loop over a connection. What surrounds a request is an argument, a
  \<open>server_env\<close>: the RAFT group as \<open>apply_login\<close> sees it, what the commit worker does to the
  replica while a login waits, what the creation of a RAFT group answers, the time, and which
  buffer sizes the allocator grants.
\<close>

section \<open>State\<close>

record server_geometry =
  ge_capacity :: "64 word"
  ge_lba_size :: "32 word"
  ge_max_tx :: "32 word"
  ge_member :: member

record craft_tcp_server =
  ts_geo :: server_geometry
  ts_replica :: RaftReplica
  ts_manager :: replica_manager
  ts_next_term :: nat
  ts_session_term :: nat
  ts_session_active :: bool

record server_env =
  se_login :: login_env
  se_commit_worker :: "RaftReplica \<Rightarrow> RaftReplica"
  se_created :: "unit result"
  se_now :: nat
  se_alloc :: "nat \<Rightarrow> bool"

definition make_tcp_server :: "server_geometry \<Rightarrow> replica_manager \<Rightarrow> bool \<Rightarrow> craft_tcp_server" where
  "make_tcp_server geo mg raft =
     \<lparr>ts_geo = geo,
      ts_replica = make_raft_replica \<lparr>ep_id = mb_id (ge_member geo), ep_addr = mb_addr (ge_member geo)\<rparr>
                     (unat (ge_lba_size geo)) (unat (ge_max_tx geo)) raft,
      ts_manager = mg, ts_next_term = 0, ts_session_term = 0, ts_session_active = False\<rparr>"

definition ts_mem :: "craft_tcp_server \<Rightarrow> MemCraftReplica" where
  "ts_mem s = rx_mem (ts_replica s)"

definition with_mem :: "MemCraftReplica \<Rightarrow> craft_tcp_server \<Rightarrow> craft_tcp_server" where
  "with_mem m s = s\<lparr>ts_replica := (ts_replica s)\<lparr>rx_mem := m\<rparr>\<rparr>"

section \<open>Session handlers\<close>

text \<open>\<open>None\<close>: a null pointer or an empty answer of the RAFT library is dereferenced.\<close>

definition srv_establish :: "server_env \<Rightarrow> nat \<Rightarrow> nat \<Rightarrow> RaftReplica \<Rightarrow> (LoginResult result \<times> RaftReplica) option" where
  "srv_establish env token trm r =
     (case apply_login (se_login env) token trm r of
        (Login_done res, r') \<Rightarrow> Some (res, r')
      | (Login_waiting rs, r') \<Rightarrow> (let r2 = se_commit_worker env r' in Some (apply_login_wait (se_login env) rs r2, r2))
      | (Login_crash, r') \<Rightarrow> None)"

definition login_rsp_of :: "server_geometry \<Rightarrow> nat \<Rightarrow> LoginResult \<Rightarrow> byte list" where
  "login_rsp_of geo trm res =
     put_login_rsp \<lparr>lgp_term = word_of_nat trm, lgp_dlsn = word_of_int (lr_dLSN res), lgp_capacity = ge_capacity geo,
       lgp_lba_size = ge_lba_size geo, lgp_max_tx = ge_max_tx geo, lgp_member_count = word_of_nat (length (lr_members res)),
       lgp_reserved = 0, lgp_leader_hint = replicate 16 0\<rparr>"

definition members_body :: "replica_endpoint list \<Rightarrow> byte list" where
  "members_body ms = concat (map (\<lambda>m. put_member \<lparr>mb_id = ep_id m, mb_addr = ep_addr m\<rparr>) ms)"

definition on_login :: "server_env \<Rightarrow> message \<Rightarrow> craft_tcp_server \<Rightarrow> (frame \<times> craft_tcp_server) option" where
  "on_login env req s =
     (let nt = u64 (ts_next_term s + 1);
          s1 = s\<lparr>ts_next_term := nt, ts_session_term := nt\<rparr>;
          lr = get_login_req (ms_op_header req) in
      case srv_establish env (unat (lq_client_token lr)) nt (ts_replica s1) of
        None \<Rightarrow> None
      | Some (Inl e, r) \<Rightarrow>
          Some (reply_of req Op_login_rsp (to_wire_status e) [] [], s1\<lparr>ts_replica := r, ts_session_active := False\<rparr>)
      | Some (Inr res, r) \<Rightarrow>
          if lr_leader_hint res \<noteq> replicate 16 0
          then Some (reply_of req Op_login_rsp St_not_leader [] [], s1\<lparr>ts_replica := r, ts_session_active := False\<rparr>)
          else Some (reply_of req Op_login_rsp St_ok (login_rsp_of (ts_geo s1) (ts_session_term s1) res) (members_body (lr_members res)),
                     s1\<lparr>ts_replica := r, ts_session_active := True\<rparr>))"

text \<open>The status of the bind and the replica afterwards.\<close>

definition helo_check :: "server_env \<Rightarrow> helo_req \<Rightarrow> craft_tcp_server \<Rightarrow> (wire_status \<times> RaftReplica) option" where
  "helo_check env hr s =
     (if \<not> ev_raft_enabled (se_login env) then
        (case srv_establish env (unat (hq_client_token hr)) (ts_session_term s) (ts_replica s) of
           None \<Rightarrow> None
         | Some (Inl e, r) \<Rightarrow> Some (to_wire_status e, r)
         | Some (Inr res, r) \<Rightarrow> Some (St_ok, r))
      else
        let (cur_term, cur_token) = srv_session_info (ts_replica s) in
        if unat (hq_term hr) \<noteq> cur_term \<or> unat (hq_client_token hr) \<noteq> cur_token
        then Some (St_stale_term, ts_replica s) else Some (St_ok, ts_replica s))"

definition on_helo :: "server_env \<Rightarrow> message \<Rightarrow> craft_tcp_server \<Rightarrow> (frame \<times> craft_tcp_server) option" where
  "on_helo env req s =
     (let hr = get_helo_req (ms_op_header req) in
      case helo_check env hr s of
        None \<Rightarrow> None
      | Some (code, r) \<Rightarrow>
          let s1 = s\<lparr>ts_replica := r\<rparr>;
              s2 = (if code = St_ok then s1\<lparr>ts_session_term := unat (hq_term hr), ts_session_active := True\<rparr> else s1)
          in Some (reply_of req Op_helo_rsp code [] [], s2))"

definition on_logout :: "message \<Rightarrow> craft_tcp_server \<Rightarrow> frame \<times> craft_tcp_server" where
  "on_logout req s =
     (if \<not> ts_session_active s then (reply_of req Op_logout_rsp St_stale_term [] [], s)
      else (reply_of req Op_logout_rsp St_ok [] [],
            with_mem (cold_apply_logout (ts_mem s)) (s\<lparr>ts_session_active := False\<rparr>)))"

section \<open>IO handlers\<close>

definition on_write :: "message \<Rightarrow> craft_tcp_server \<Rightarrow> frame \<times> craft_tcp_server" where
  "on_write req s =
     (let (code, lsns, m) =
        (if \<not> ts_session_active s then (St_stale_term, peek_lsns (ts_mem s), ts_mem s)
         else write_core (ts_session_term s) req (ts_mem s))
      in (reply_of req Op_write_rsp code (write_rsp_of lsns) [], with_mem m s))"

text \<open>\<open>None\<close>: the buffer of the request's length cannot be allocated, and the exception ends the process.\<close>

definition on_read :: "server_env \<Rightarrow> message \<Rightarrow> craft_tcp_server \<Rightarrow> (frame \<times> craft_tcp_server) option" where
  "on_read env req s =
     (if \<not> ts_session_active s then Some (reply_of req Op_read_rsp St_stale_term (read_rsp_of zero_lsns 0) [], s)
      else if \<not> se_alloc env (unat (rq_len (get_read_req (ms_op_header req)))) then None
      else let (code, hdr, body, m) = read_core (ts_session_term s) req (ts_mem s)
           in Some (reply_of req Op_read_rsp code hdr body, with_mem m s))"

definition on_resolve :: "message \<Rightarrow> craft_tcp_server \<Rightarrow> frame \<times> craft_tcp_server" where
  "on_resolve req s =
     (let rq = get_resolve_req (ms_op_header req) in
      if \<not> ts_session_active s then (resolve_frame req (Inl (Craft STALE_TERM)), s)
      else let (res, m) = do_resolve_local (io_hdr (ts_session_term s) (sq_hdr rq)) (sint (sq_upto rq)) (ts_mem s)
           in (resolve_frame req res, with_mem m s))"

definition on_keep_alive :: "message \<Rightarrow> craft_tcp_server \<Rightarrow> frame \<times> craft_tcp_server" where
  "on_keep_alive req s =
     (let (code, lsns, m) =
        (if \<not> ts_session_active s then (St_stale_term, no_lsns, ts_mem s)
         else keep_alive_core (ts_session_term s) req (ts_mem s))
      in (reply_of req Op_keepalive_rsp code (keepalive_rsp_of lsns) [], with_mem m s))"

section \<open>Peer handlers\<close>

definition on_create_volume :: "server_env \<Rightarrow> message \<Rightarrow> craft_tcp_server \<Rightarrow> frame \<times> craft_tcp_server" where
  "on_create_volume env req s =
     (let cr = get_volume_create_req (ms_op_header req) in
      case decode_members (ms_body req) (vq_member_count cr) of
        None \<Rightarrow> (reply_of req Op_create_volume_rsp St_invalid_argument [] [], s)
      | Some ms \<Rightarrow>
          (case srv_create_volume (se_created env) (vq_volume_id cr) (map (\<lambda>m. \<lparr>ep_id = mb_id m, ep_addr = mb_addr m\<rparr>) ms) (ts_manager s) of
             (Inl e, mg) \<Rightarrow> (reply_of req Op_create_volume_rsp (to_wire_status e) [] [], s\<lparr>ts_manager := mg\<rparr>)
           | (Inr u, mg) \<Rightarrow> (reply_of req Op_create_volume_rsp St_ok [] [], s\<lparr>ts_manager := mg\<rparr>)))"

definition lsn_rsp_of :: "lsn_pair \<Rightarrow> byte list" where
  "lsn_rsp_of l = put_get_rs_commit_lsn_rsp \<lparr>gp_commit_lsn = word_of_int (lp_commit_lsn l), gp_last_append_lsn = word_of_int (lp_last_append_lsn l)\<rparr>"

definition on_get_rs_commit_lsn :: "server_env \<Rightarrow> message \<Rightarrow> craft_tcp_server \<Rightarrow> (frame \<times> craft_tcp_server) option" where
  "on_get_rs_commit_lsn env req s =
     (let gr = get_get_rs_commit_lsn_req (ms_op_header req) in
      case do_get_rs_commit_lsn (se_now env) (unat (gq_term gr)) (gq_is_login gr \<noteq> 0) (ts_replica s) of
        None \<Rightarrow> None
      | Some (Inl e, r) \<Rightarrow> Some (reply_of req Op_get_rs_commit_lsn_rsp (to_wire_status e) (lsn_rsp_of no_lsns) [], s\<lparr>ts_replica := r\<rparr>)
      | Some (Inr p, r) \<Rightarrow> Some (reply_of req Op_get_rs_commit_lsn_rsp St_ok (lsn_rsp_of p) [], s\<lparr>ts_replica := r\<rparr>))"

definition fetch_desc_of :: "JournalSlot \<Rightarrow> fetch_slot_desc" where
  "fetch_desc_of j =
     \<lparr>fd_lsn = word_of_int (js_lsn j), fd_lba = word_of_nat (js_lba j), fd_len = word_of_nat (js_len j),
      fd_byte_len = (if \<not> js_is_empty j \<and> \<not> js_all_zeros j then word_of_nat (sg_size (js_data j)) else 0),
      fd_is_empty = (if js_is_empty j then 1 else 0), fd_all_zeros = (if js_all_zeros j then 1 else 0), fd_reserved = [0, 0]\<rparr>"

definition fetch_body :: "JournalSlot list \<Rightarrow> byte list" where
  "fetch_body slots = concat (map (put_fetch_slot_desc \<circ> fetch_desc_of) slots) @
     concat (map (\<lambda>j. if js_is_empty j \<or> js_all_zeros j then [] else concat (sg_iovs (js_data j))) slots)"

definition on_fetch_data :: "message \<Rightarrow> craft_tcp_server \<Rightarrow> frame \<times> craft_tcp_server" where
  "on_fetch_data req s =
     (case decode_lsns (ms_body req) (fq_lsn_count (get_fetch_data_req (ms_op_header req))) of
        None \<Rightarrow> (reply_of req Op_fetch_data_rsp St_invalid_argument (put_fetch_data_rsp \<lparr>fp_slot_count = 0, fp_reserved = 0\<rparr>) [], s)
      | Some lsns \<Rightarrow>
          let slots = do_fetch lsns (ts_mem s)
          in (reply_of req Op_fetch_data_rsp St_ok
                (put_fetch_data_rsp \<lparr>fp_slot_count = word_of_nat (length slots), fp_reserved = 0\<rparr>) (fetch_body slots), s))"

section \<open>The loop\<close>

definition sends :: "frame \<times> craft_tcp_server \<Rightarrow> craft_tcp_server handled" where
  "sends x = Reply (frame_bytes (fst x)) (snd x)"

definition may_crash :: "craft_tcp_server \<Rightarrow> (frame \<times> craft_tcp_server) option \<Rightarrow> craft_tcp_server handled" where
  "may_crash s x = (case x of None \<Rightarrow> Crashed s | Some p \<Rightarrow> sends p)"

definition tcp_handle :: "(message \<Rightarrow> craft_tcp_server \<Rightarrow> server_env) \<Rightarrow> message \<Rightarrow> craft_tcp_server \<Rightarrow> craft_tcp_server handled" where
  "tcp_handle env req s =
     (let opc = mh_op (ms_hdr req) in
      if opc = op_code Op_login then may_crash s (on_login (env req s) req s)
      else if opc = op_code Op_helo then may_crash s (on_helo (env req s) req s)
      else if opc = op_code Op_write then sends (on_write req s)
      else if opc = op_code Op_read then may_crash s (on_read (env req s) req s)
      else if opc = op_code Op_keepalive then sends (on_keep_alive req s)
      else if opc = op_code Op_resolve then sends (on_resolve req s)
      else if opc = op_code Op_logout then sends (on_logout req s)
      else if opc = op_code Op_create_volume then sends (on_create_volume (env req s) req s)
      else if opc = op_code Op_get_rs_commit_lsn then may_crash s (on_get_rs_commit_lsn (env req s) req s)
      else if opc = op_code Op_fetch_data then sends (on_fetch_data req s)
      else Reset s)"

definition tcp_serve ::
  "(message \<Rightarrow> craft_tcp_server \<Rightarrow> server_env) \<Rightarrow> craft_tcp_server \<Rightarrow> recv_state \<Rightarrow> byte list list \<times> craft_tcp_server \<times> serve_end" where
  "tcp_serve env s rv = serve_loop (ge_max_tx (ts_geo s)) (tcp_handle env) s rv"

section \<open>The server keeps the contract\<close>

lemma on_login_geo: "on_login env req s = Some (g, s') \<Longrightarrow> ts_geo s' = ts_geo s"
  by (auto simp: on_login_def Let_def split: option.splits sum.splits if_splits)

lemma on_helo_geo: "on_helo env req s = Some (g, s') \<Longrightarrow> ts_geo s' = ts_geo s"
  by (auto simp: on_helo_def Let_def split: option.splits if_splits)

lemma io_handlers_geo:
  "ts_geo (snd (on_write req s)) = ts_geo s" "ts_geo (snd (on_keep_alive req s)) = ts_geo s"
  "ts_geo (snd (on_resolve req s)) = ts_geo s" "ts_geo (snd (on_logout req s)) = ts_geo s"
  "on_read env req s = Some (g, s') \<Longrightarrow> ts_geo s' = ts_geo s"
  by (auto simp: on_write_def on_keep_alive_def on_resolve_def on_logout_def on_read_def with_mem_def Let_def
      split: prod.splits if_splits)

lemma peer_handlers_geo:
  "ts_geo (snd (on_create_volume env req s)) = ts_geo s" "ts_geo (snd (on_fetch_data req s)) = ts_geo s"
  "on_get_rs_commit_lsn env req s = Some (g, s') \<Longrightarrow> ts_geo s' = ts_geo s"
  by (auto simp: on_create_volume_def on_fetch_data_def on_get_rs_commit_lsn_def Let_def split: option.splits prod.splits sum.splits)

lemma tcp_handle_geo:
  assumes "tcp_handle env req s = Reply out s'"
  shows "ts_geo s' = ts_geo s"
  using assms
  by (auto simp: tcp_handle_def sends_def may_crash_def Let_def io_handlers_geo peer_handlers_geo split: if_splits option.splits
      dest: on_login_geo on_helo_geo io_handlers_geo(5) peer_handlers_geo(3))

interpretation tcp_srv: frame_server "\<lambda>s. ge_max_tx (ts_geo s)" "tcp_handle env" for env
  by unfold_locales (simp add: tcp_handle_geo)

end
