(* ===== verification/WireClient.thy ===== *)
theory WireClient
  imports Conn Types
begin

text \<open>
  The blocking client of one connection (\<open>src/net/wire_client.cpp\<close>): frame a request, send it,
  receive one message, and decode the reply. What the socket does during a call is an argument:
  \<open>ns\<close> the results of the sends, \<open>io\<close> the completions of the receives. A call that still waits
  gives \<open>None\<close>. The decoders of the replies are shared with the on-ring connection
  (\<open>src/net/async_conn.cpp\<close>), whose text repeats them.
\<close>

section \<open>Replies\<close>

text \<open>A status is the raw byte: the cast admits values that the enum does not name.\<close>

record lsn_reply =
  ly_status :: byte
  ly_commit_lsn :: int
  ly_last_append_lsn :: int

record read_reply =
  ry_status :: byte
  ry_commit_lsn :: int
  ry_last_append_lsn :: int
  ry_extents :: "extent_desc list"

record resolve_reply =
  vy_status :: byte
  vy_resolved_upto :: int
  vy_empty_slots :: "int list"

record login_result =
  gy_term :: nat
  gy_dlsn :: int
  gy_capacity :: nat
  gy_lba_size :: nat
  gy_max_tx :: nat
  gy_leader_hint :: "byte list"
  gy_members :: "member list"

definition k_max_tx :: "32 word" where
  "k_max_tx = framed_body_max k_default_max_tx 512"

section \<open>Decoding a reply\<close>

definition expect_reply :: "32 word \<Rightarrow> wire_op \<Rightarrow> byte list \<Rightarrow> net_error + message" where
  "expect_reply max_tx opc msg =
     (case parse_message msg max_tx no_digest of
        Inl e \<Rightarrow> Inl Net_malformed
      | Inr p \<Rightarrow> if mh_op (ms_hdr p) \<noteq> op_code opc then Inl Net_malformed else Inr p)"

definition write_reply_of :: "message \<Rightarrow> lsn_reply" where
  "write_reply_of p = (let wr = get_write_rsp (ms_op_header p) in
     \<lparr>ly_status = mh_status (ms_hdr p), ly_commit_lsn = sint (wp_commit_lsn wr), ly_last_append_lsn = sint (wp_last_append_lsn wr)\<rparr>)"

definition keepalive_reply_of :: "message \<Rightarrow> lsn_reply" where
  "keepalive_reply_of p = (let ka = get_keepalive_rsp (ms_op_header p) in
     \<lparr>ly_status = mh_status (ms_hdr p), ly_commit_lsn = sint (kp_commit_lsn ka), ly_last_append_lsn = sint (kp_last_append_lsn ka)\<rparr>)"

text \<open>\<open>memcpy\<close> and \<open>memset\<close> into the destination at an offset that the scatter plan has checked.\<close>

definition blit :: "nat \<Rightarrow> byte list \<Rightarrow> byte list \<Rightarrow> byte list" where
  "blit off bs dest = take off dest @ bs @ drop (off + length bs) dest"

fun scatter_data :: "(nat \<times> nat) list \<Rightarrow> byte list \<Rightarrow> byte list \<Rightarrow> bool \<times> byte list" where
  "scatter_data [] packed dest = (True, dest)"
| "scatter_data ((off, n) # ps) packed dest =
     (if length packed < n then (False, dest)
      else scatter_data ps (drop n packed) (blit off (take n packed) dest))"

definition zero_holes :: "(nat \<times> nat) list \<Rightarrow> byte list \<Rightarrow> byte list" where
  "zero_holes hs dest = fold (\<lambda>(off, n). blit off (replicate n 0)) hs dest"

definition read_reply_of :: "64 word \<Rightarrow> 64 word \<Rightarrow> message \<Rightarrow> byte list \<Rightarrow> (net_error + read_reply) \<times> byte list" where
  "read_reply_of addr len p dest =
     (let rr = get_read_rsp (ms_op_header p);
          reply = \<lparr>ry_status = mh_status (ms_hdr p), ry_commit_lsn = sint (rdp_commit_lsn rr),
                   ry_last_append_lsn = sint (rdp_last_append_lsn rr), ry_extents = []\<rparr> in
      if ry_status reply \<noteq> status_code St_ok then (Inr reply, dest)
      else case decode_extents (ms_body p) (rdp_extent_count rr) of
        None \<Rightarrow> (Inl Net_malformed, dest)
      | Some es \<Rightarrow>
          let plan = plan_scatter es addr len in
          if \<not> sc_ok plan then (Inl Net_malformed, dest)
          else case scatter_data (sc_data plan) (drop (unat (rdp_extent_count rr) * 24) (ms_body p)) dest of
            (False, d) \<Rightarrow> (Inl Net_malformed, d)
          | (True, d) \<Rightarrow> (Inr (reply\<lparr>ry_extents := es\<rparr>), zero_holes (sc_holes plan) d))"

definition resolve_reply_of :: "message \<Rightarrow> net_error + resolve_reply" where
  "resolve_reply_of p =
     (let rr = get_resolve_rsp (ms_op_header p);
          reply = \<lparr>vy_status = mh_status (ms_hdr p), vy_resolved_upto = sint (sp_resolved_upto rr), vy_empty_slots = []\<rparr> in
      if vy_status reply \<noteq> status_code St_ok then Inr reply
      else case decode_lsns (ms_body p) (sp_empty_count rr) of
        None \<Rightarrow> Inl Net_malformed
      | Some es \<Rightarrow> Inr (reply\<lparr>vy_empty_slots := es\<rparr>))"

definition login_result_of :: "message \<Rightarrow> net_error + login_result" where
  "login_result_of p =
     (let lr = get_login_rsp (ms_op_header p) in
      case decode_members (ms_body p) (lgp_member_count lr) of
        None \<Rightarrow> Inl Net_malformed
      | Some ms \<Rightarrow> Inr \<lparr>gy_term = unat (lgp_term lr), gy_dlsn = sint (lgp_dlsn lr), gy_capacity = unat (lgp_capacity lr),
          gy_lba_size = unat (lgp_lba_size lr), gy_max_tx = unat (lgp_max_tx lr), gy_leader_hint = lgp_leader_hint lr,
          gy_members = ms\<rparr>)"

section \<open>Requests\<close>

definition request_frame :: "wire_op \<Rightarrow> 16 word \<Rightarrow> byte list \<Rightarrow> byte list \<Rightarrow> frame" where
  "request_frame opc rid hdr body = \<lparr>fr_op = opc, fr_status = 0, fr_rid = rid, fr_hdr = hdr, fr_body = body\<rparr>"

definition lsns_hdr :: "int \<Rightarrow> int \<Rightarrow> req_hdr" where
  "lsns_hdr commit all_committed = \<lparr>rh_commit_lsn = word_of_int commit, rh_all_committed_lsn = word_of_int all_committed\<rparr>"

definition write_hdr :: "int \<Rightarrow> nat \<Rightarrow> nat \<Rightarrow> int \<Rightarrow> int \<Rightarrow> byte list" where
  "write_hdr dlsn addr len commit all_committed =
     put_write_req \<lparr>wq_hdr = lsns_hdr commit all_committed, wq_dlsn = word_of_int dlsn, wq_addr = word_of_nat addr, wq_len = word_of_nat len\<rparr>"

definition read_hdr :: "int \<Rightarrow> nat \<Rightarrow> nat \<Rightarrow> int \<Rightarrow> int \<Rightarrow> byte list" where
  "read_hdr read_lsn addr len commit all_committed =
     put_read_req \<lparr>rq_hdr = lsns_hdr commit all_committed, rq_read_lsn = word_of_int read_lsn, rq_addr = word_of_nat addr, rq_len = word_of_nat len\<rparr>"

definition keepalive_hdr :: "int \<Rightarrow> int \<Rightarrow> byte list" where
  "keepalive_hdr commit all_committed = put_keepalive_req \<lparr>kq_hdr = lsns_hdr commit all_committed\<rparr>"

definition resolve_hdr :: "int \<Rightarrow> int \<Rightarrow> int \<Rightarrow> byte list" where
  "resolve_hdr lim commit all_committed = put_resolve_req \<lparr>sq_hdr = lsns_hdr commit all_committed, sq_upto = word_of_int lim\<rparr>"

definition helo_hdr :: "byte list \<Rightarrow> nat \<Rightarrow> nat \<Rightarrow> byte list" where
  "helo_hdr vol token trm = put_helo_req \<lparr>hq_volume_id = vol, hq_client_token = word_of_nat token, hq_term = word_of_nat trm\<rparr>"

definition login_hdr :: "byte list \<Rightarrow> nat \<Rightarrow> byte list" where
  "login_hdr vol token = put_login_req \<lparr>lq_volume_id = vol, lq_client_token = word_of_nat token\<rparr>"

section \<open>The client\<close>

record wire_client =
  wc_conn :: recv_state
  wc_term :: nat
  wc_next_rid :: "16 word"

definition fresh_client :: wire_client where
  "fresh_client = \<lparr>wc_conn = \<lparr>rv_rx = [], rv_io = []\<rparr>, wc_term = 0, wc_next_rid = 1\<rparr>"

text \<open>One call: the request takes the next id whatever happens to it.\<close>

definition exchange ::
  "int list \<Rightarrow> io_result list \<Rightarrow> wire_op \<Rightarrow> byte list \<Rightarrow> byte list \<Rightarrow> wire_op \<Rightarrow> wire_client
     \<Rightarrow> (net_error + message) option \<times> wire_client" where
  "exchange ns io opc hdr body rsp c =
     (let c1 = c\<lparr>wc_next_rid := wc_next_rid c + 1\<rparr> in
      case fst (send_all (frame_bytes (request_frame opc (wc_next_rid c) hdr body)) ns) of
        None \<Rightarrow> (None, c1)
      | Some False \<Rightarrow> (Some (Inl Net_send), c1)
      | Some True \<Rightarrow>
          (case recv_message k_max_tx no_digest ((wc_conn c1)\<lparr>rv_io := rv_io (wc_conn c1) @ io\<rparr>) of
             (None, rv) \<Rightarrow> (None, c1\<lparr>wc_conn := rv\<rparr>)
           | (Some (Inl e), rv) \<Rightarrow> (Some (Inl e), c1\<lparr>wc_conn := rv\<rparr>)
           | (Some (Inr m), rv) \<Rightarrow> (Some (expect_reply k_max_tx rsp m), c1\<lparr>wc_conn := rv\<rparr>)))"

definition on_ok :: "('a \<Rightarrow> 'b) \<Rightarrow> (net_error + 'a) option \<Rightarrow> (net_error + 'b) option" where
  "on_ok f r = map_option (\<lambda>x. case x of Inl e \<Rightarrow> Inl e | Inr a \<Rightarrow> Inr (f a)) r"

definition on_decoded :: "('a \<Rightarrow> net_error + 'b) \<Rightarrow> (net_error + 'a) option \<Rightarrow> (net_error + 'b) option" where
  "on_decoded f r = map_option (\<lambda>x. case x of Inl e \<Rightarrow> Inl e | Inr a \<Rightarrow> f a) r"

definition wire_login :: "int list \<Rightarrow> io_result list \<Rightarrow> byte list \<Rightarrow> nat \<Rightarrow> wire_client \<Rightarrow> (net_error + login_result) option \<times> wire_client" where
  "wire_login ns io vol token c =
     (let (r, c1) = exchange ns io Op_login (login_hdr vol token) [] Op_login_rsp c;
          res = on_decoded login_result_of r
      in (res, case res of Some (Inr g) \<Rightarrow> c1\<lparr>wc_term := gy_term g\<rparr> | _ \<Rightarrow> c1))"

definition wire_helo :: "int list \<Rightarrow> io_result list \<Rightarrow> byte list \<Rightarrow> nat \<Rightarrow> nat \<Rightarrow> wire_client \<Rightarrow> (net_error + byte) option \<times> wire_client" where
  "wire_helo ns io vol token trm c =
     (let (r, c1) = exchange ns io Op_helo (helo_hdr vol token trm) [] Op_helo_rsp c;
          res = on_ok (\<lambda>p. mh_status (ms_hdr p)) r
      in (res, if res = Some (Inr (status_code St_ok)) then c1\<lparr>wc_term := trm\<rparr> else c1))"

definition wire_logout :: "int list \<Rightarrow> io_result list \<Rightarrow> wire_client \<Rightarrow> (net_error + byte) option \<times> wire_client" where
  "wire_logout ns io c =
     (let (r, c1) = exchange ns io Op_logout (put_logout_req \<lparr>oq_hdr = lsns_hdr (-1) (-1)\<rparr>) [] Op_logout_rsp c
      in (on_ok (\<lambda>p. mh_status (ms_hdr p)) r, c1))"

definition wire_write ::
  "int list \<Rightarrow> io_result list \<Rightarrow> int \<Rightarrow> nat \<Rightarrow> nat \<Rightarrow> byte list \<Rightarrow> int \<Rightarrow> int \<Rightarrow> wire_client \<Rightarrow> (net_error + lsn_reply) option \<times> wire_client" where
  "wire_write ns io dlsn addr len data commit all_committed c =
     (let (r, c1) = exchange ns io Op_write (write_hdr dlsn addr len commit all_committed) data Op_write_rsp c
      in (on_ok write_reply_of r, c1))"

definition wire_read ::
  "int list \<Rightarrow> io_result list \<Rightarrow> int \<Rightarrow> nat \<Rightarrow> nat \<Rightarrow> byte list \<Rightarrow> int \<Rightarrow> int \<Rightarrow> wire_client
     \<Rightarrow> (net_error + read_reply) option \<times> byte list \<times> wire_client" where
  "wire_read ns io read_lsn addr len dest commit all_committed c =
     (if length dest < len then (Some (Inl Net_invalid_argument), dest, c)
      else case exchange ns io Op_read (read_hdr read_lsn addr len commit all_committed) [] Op_read_rsp c of
        (Some (Inr p), c1) \<Rightarrow>
          let (r, d) = read_reply_of (word_of_nat addr) (word_of_nat len) p dest in (Some r, d, c1)
      | (Some (Inl e), c1) \<Rightarrow> (Some (Inl e), dest, c1)
      | (None, c1) \<Rightarrow> (None, dest, c1))"

definition wire_keep_alive :: "int list \<Rightarrow> io_result list \<Rightarrow> int \<Rightarrow> int \<Rightarrow> wire_client \<Rightarrow> (net_error + lsn_reply) option \<times> wire_client" where
  "wire_keep_alive ns io commit all_committed c =
     (let (r, c1) = exchange ns io Op_keepalive (keepalive_hdr commit all_committed) [] Op_keepalive_rsp c
      in (on_ok keepalive_reply_of r, c1))"

definition wire_resolve :: "int list \<Rightarrow> io_result list \<Rightarrow> int \<Rightarrow> int \<Rightarrow> int \<Rightarrow> wire_client \<Rightarrow> (net_error + resolve_reply) option \<times> wire_client" where
  "wire_resolve ns io lim commit all_committed c =
     (let (r, c1) = exchange ns io Op_resolve (resolve_hdr lim commit all_committed) [] Op_resolve_rsp c
      in (on_decoded resolve_reply_of r, c1))"

end
