(* ===== verification/AsyncConn.thy ===== *)
theory AsyncConn
  imports WireClient
begin

text \<open>
  The on-ring connection (\<open>src/net/async_conn.cpp\<close>): many requests in flight on one socket, their
  sends serialised by a slot, their replies matched by request id in the receive pump. A leg is a
  suspended coroutine, named by a value of type \<open>'k\<close>; a function that resumes legs returns the list
  of wake-ups in order. Each coroutine is cut at its suspension points: the part up to the next
  \<open>co_await\<close> is one definition. The ring is an argument, as the result of each completion.
\<close>

section \<open>State\<close>

datatype 'k wake = Got_reply 'k "byte list" | Lost_reply 'k | Send_granted 'k | Connect_over 'k

record 'k async_conn =
  ac_max_tx :: "32 word"
  ac_fd :: bool
  ac_ready :: bool
  ac_stopping :: bool
  ac_connecting :: bool
  ac_connect_waiters :: "'k list"
  ac_sending :: bool
  ac_send_waiters :: "'k list"
  ac_rx :: "byte list"
  ac_pending :: "(16 word \<times> 'k) list"
  ac_next_rid :: "16 word"
  ac_n_recv :: nat
  ac_n_recv_bytes :: nat
  ac_n_reply :: nat

definition make_async_conn :: "32 word \<Rightarrow> 'k async_conn" where
  "make_async_conn max_tx =
     \<lparr>ac_max_tx = max_tx, ac_fd = False, ac_ready = False, ac_stopping = False, ac_connecting = False, ac_connect_waiters = [],
      ac_sending = False, ac_send_waiters = [], ac_rx = [], ac_pending = [], ac_next_rid = 1, ac_n_recv = 0, ac_n_recv_bytes = 0,
      ac_n_reply = 0\<rparr>"

text \<open>\<open>pending_\<close>, a hash map from request id to landing pad.\<close>

definition pend_del :: "16 word \<Rightarrow> (16 word \<times> 'k) list \<Rightarrow> (16 word \<times> 'k) list" where
  "pend_del rid p = filter (\<lambda>e. fst e \<noteq> rid) p"

definition pend_put :: "16 word \<Rightarrow> 'k \<Rightarrow> (16 word \<times> 'k) list \<Rightarrow> (16 word \<times> 'k) list" where
  "pend_put rid k p = (rid, k) # pend_del rid p"

section \<open>Teardown and the send slot\<close>

definition drop_fd :: "'k async_conn \<Rightarrow> 'k async_conn" where
  "drop_fd c = c\<lparr>ac_fd := False, ac_ready := False\<rparr>"

definition release_send :: "'k async_conn \<Rightarrow> 'k wake list \<times> 'k async_conn" where
  "release_send c =
     (case ac_send_waiters c of
        [] \<Rightarrow> ([], c\<lparr>ac_sending := False\<rparr>)
      | h # hs \<Rightarrow> ([Send_granted h], c\<lparr>ac_send_waiters := hs\<rparr>))"

definition fail_all :: "'k async_conn \<Rightarrow> 'k wake list \<times> 'k async_conn" where
  "fail_all c =
     (map (\<lambda>e. Lost_reply (snd e)) (ac_pending c) @ map Send_granted (ac_send_waiters c),
      c\<lparr>ac_pending := [], ac_sending := False, ac_send_waiters := []\<rparr>)"

definition async_shutdown :: "'k async_conn \<Rightarrow> 'k wake list \<times> 'k async_conn" where
  "async_shutdown c = fail_all (drop_fd (c\<lparr>ac_stopping := True\<rparr>))"

definition acquire_send :: "'k \<Rightarrow> 'k async_conn \<Rightarrow> bool \<times> 'k async_conn" where
  "acquire_send k c =
     (if \<not> ac_sending c then (True, c\<lparr>ac_sending := True\<rparr>) else (False, c\<lparr>ac_send_waiters := ac_send_waiters c @ [k]\<rparr>))"

text \<open>The send loop: an error code below 0, or 0; no submission entry is \<open>EAGAIN\<close> (11), a closed peer \<open>EPIPE\<close> (32).\<close>

fun ring_send_all :: "byte list \<Rightarrow> int option list \<Rightarrow> int option \<times> byte list" where
  "ring_send_all data [] = (if data = [] then (Some 0, []) else (None, []))"
| "ring_send_all data (x # xs) =
     (if data = [] then (Some 0, [])
      else case x of
        None \<Rightarrow> (Some (-11), [])
      | Some n \<Rightarrow>
          if n \<le> 0 then (Some (if n = 0 then -32 else n), [])
          else (let (r, out) = ring_send_all (drop (nat n) data) xs in (r, take (nat n) data @ out)))"

section \<open>The receive pump\<close>

lemma parse_message_total:
  "parse_message rx max_tx dg = Inr p \<Longrightarrow> 8 \<le> ms_total p \<and> ms_total p \<le> length rx"
  by (auto simp: parse_message_def Let_def split: if_splits option.splits)

text \<open>Every complete message now buffered, each to the leg that awaits its request id. \<open>False\<close>: the pump is over.\<close>

function pump_drain :: "'k async_conn \<Rightarrow> bool \<times> 'k wake list \<times> 'k async_conn" where
  "pump_drain c =
     (case parse_message (ac_rx c) (ac_max_tx c) no_digest of
        Inl e \<Rightarrow> if e = incomplete then (True, [], c)
                 else let (ws, c1) = fail_all (c\<lparr>ac_ready := False\<rparr>) in (False, ws, c1)
      | Inr p \<Rightarrow>
          let rid = mh_request_id (ms_hdr p);
              c1 = c\<lparr>ac_n_reply := ac_n_reply c + 1, ac_rx := drop (ms_total p) (ac_rx c)\<rparr> in
          case map_of (ac_pending c) rid of
            None \<Rightarrow> pump_drain c1
          | Some k \<Rightarrow>
              let (go, ws, c2) = pump_drain (c1\<lparr>ac_pending := pend_del rid (ac_pending c1)\<rparr>)
              in (go, Got_reply k (take (ms_total p) (ac_rx c)) # ws, c2))"
  by pat_completeness auto

termination
  by (relation "measure (\<lambda>c. length (ac_rx c))") (auto dest!: parse_message_total)

declare pump_drain.simps [simp del]

text \<open>One completion of the pump's receive.\<close>

definition pump_recv :: "io_result option \<Rightarrow> 'k async_conn \<Rightarrow> bool \<times> 'k wake list \<times> 'k async_conn" where
  "pump_recv x c =
     (case x of
        None \<Rightarrow> (let (ws, c1) = fail_all c in (False, ws, c1))
      | Some io \<Rightarrow>
          if ac_stopping c then (False, [], c)
          else case io of
            Rx_data bs \<Rightarrow>
              pump_drain (c\<lparr>ac_n_recv := ac_n_recv c + 1, ac_n_recv_bytes := ac_n_recv_bytes c + length bs, ac_rx := ac_rx c @ bs\<rparr>)
          | _ \<Rightarrow> (let (ws, c1) = fail_all (c\<lparr>ac_ready := False\<rparr>) in (False, ws, c1)))"

fun run_pump :: "io_result option list \<Rightarrow> 'k async_conn \<Rightarrow> bool \<times> 'k wake list \<times> 'k async_conn" where
  "run_pump [] c = (True, [], c)"
| "run_pump (x # xs) c =
     (case pump_recv x c of
        (False, ws, c1) \<Rightarrow> (False, ws, c1)
      | (True, ws, c1) \<Rightarrow> (let (go, ws2, c2) = run_pump xs c1 in (go, ws @ ws2, c2)))"

section \<open>One request\<close>

text \<open>Up to the wait for the send slot: the frame, whether the slot was free, and the connection.\<close>

definition round_trip_start :: "'k \<Rightarrow> wire_op \<Rightarrow> byte list \<Rightarrow> byte list \<Rightarrow> 'k async_conn \<Rightarrow> frame \<times> bool \<times> 'k async_conn" where
  "round_trip_start k opc hdr body c =
     (let rid = ac_next_rid c;
          nxt = (if rid + 1 = 0 then 1 else rid + 1);
          c1 = c\<lparr>ac_next_rid := nxt, ac_pending := pend_put rid k (ac_pending c)\<rparr>;
          (granted, c2) = acquire_send k c1
      in (request_frame opc rid hdr body, granted, c2))"

text \<open>After the send: \<open>Some\<close> is the end of the call, \<open>None\<close> goes on to wait for the reply.\<close>

definition round_trip_sent ::
  "16 word \<Rightarrow> int \<Rightarrow> 'k async_conn \<Rightarrow> (net_error + byte list) option \<times> 'k wake list \<times> 'k async_conn" where
  "round_trip_sent rid sr c =
     (let (ws, c1) = release_send c in
      if sr < 0 then (Some (Inl Net_send), ws, c1\<lparr>ac_pending := pend_del rid (ac_pending c1)\<rparr>) else (None, ws, c1))"

fun round_trip_woken :: "'k wake \<Rightarrow> (net_error + byte list) option" where
  "round_trip_woken (Got_reply k m) = Some (Inr m)"
| "round_trip_woken (Lost_reply k) = Some (Inl Net_closed)"
| "round_trip_woken _ = None"

section \<open>Connecting\<close>

datatype ready_start = Ready_now | Ready_parked | Ready_connect

definition ensure_ready_start :: "'k \<Rightarrow> 'k async_conn \<Rightarrow> ready_start \<times> 'k async_conn" where
  "ensure_ready_start k c =
     (if ac_ready c then (Ready_now, c)
      else if ac_connecting c then (Ready_parked, c\<lparr>ac_connect_waiters := ac_connect_waiters c @ [k]\<rparr>)
      else (Ready_connect, (drop_fd (c\<lparr>ac_connecting := True\<rparr>))\<lparr>ac_rx := [], ac_stopping := False\<rparr>))"

definition ensure_ready_parked :: "'k async_conn \<Rightarrow> net_error + unit" where
  "ensure_ready_parked c = (if ac_ready c then Inr () else Inl Net_connect)"

definition ready_finish :: "net_error + unit \<Rightarrow> 'k async_conn \<Rightarrow> (net_error + unit) \<times> 'k wake list \<times> 'k async_conn" where
  "ready_finish r c = (r, map Connect_over (ac_connect_waiters c), c\<lparr>ac_connecting := False, ac_connect_waiters := []\<rparr>)"

text \<open>After the connect: its failure ends the call, else the HELO goes out.\<close>

definition ensure_ready_connected ::
  "'k \<Rightarrow> int \<Rightarrow> byte list \<Rightarrow> nat \<Rightarrow> nat \<Rightarrow> 'k async_conn
     \<Rightarrow> ((net_error + unit) \<times> 'k wake list \<times> 'k async_conn) + (frame \<times> bool \<times> 'k async_conn)" where
  "ensure_ready_connected k cr vol token trm c =
     (if cr < 0 then Inl (ready_finish (Inl Net_connect) (drop_fd c))
      else Inr (round_trip_start k Op_helo (helo_hdr vol token trm) [] (c\<lparr>ac_fd := True\<rparr>)))"

definition ensure_ready_helo :: "net_error + byte list \<Rightarrow> 'k async_conn \<Rightarrow> (net_error + unit) \<times> 'k wake list \<times> 'k async_conn" where
  "ensure_ready_helo reply c =
     (case reply of
        Inl e \<Rightarrow> ready_finish (Inl e) c
      | Inr m \<Rightarrow>
          (case expect_reply (ac_max_tx c) Op_helo_rsp m of
             Inl e \<Rightarrow> ready_finish (Inl e) (drop_fd c)
           | Inr p \<Rightarrow>
               if mh_status (ms_hdr p) \<noteq> status_code St_ok then ready_finish (Inl Net_closed) (drop_fd c)
               else ready_finish (Inr ()) (c\<lparr>ac_ready := True\<rparr>)))"

section \<open>The IO operations, on the reply of their round trip\<close>

definition typed_reply :: "32 word \<Rightarrow> wire_op \<Rightarrow> net_error + byte list \<Rightarrow> net_error + message" where
  "typed_reply max_tx rsp reply = (case reply of Inl e \<Rightarrow> Inl e | Inr m \<Rightarrow> expect_reply max_tx rsp m)"

definition async_write :: "32 word \<Rightarrow> net_error + byte list \<Rightarrow> net_error + lsn_reply" where
  "async_write max_tx reply = map_sum id write_reply_of (typed_reply max_tx Op_write_rsp reply)"

definition async_keep_alive :: "32 word \<Rightarrow> net_error + byte list \<Rightarrow> net_error + lsn_reply" where
  "async_keep_alive max_tx reply = map_sum id keepalive_reply_of (typed_reply max_tx Op_keepalive_rsp reply)"

definition async_read :: "32 word \<Rightarrow> nat \<Rightarrow> nat \<Rightarrow> net_error + byte list \<Rightarrow> byte list \<Rightarrow> (net_error + read_reply) \<times> byte list" where
  "async_read max_tx addr len reply dest =
     (case typed_reply max_tx Op_read_rsp reply of
        Inl e \<Rightarrow> (Inl e, dest)
      | Inr p \<Rightarrow> read_reply_of (word_of_nat addr) (word_of_nat len) p dest)"

definition async_resolve :: "32 word \<Rightarrow> net_error + byte list \<Rightarrow> net_error + resolve_reply" where
  "async_resolve max_tx reply = (case typed_reply max_tx Op_resolve_rsp reply of Inl e \<Rightarrow> Inl e | Inr p \<Rightarrow> resolve_reply_of p)"

section \<open>The pump hands every reply to the leg that awaits it\<close>

text \<open>The reference: whole frames, in order, each to the pad of its request id, which it uses up.\<close>

fun demux :: "(16 word \<times> 'k) list \<Rightarrow> frame list \<Rightarrow> 'k wake list" where
  "demux p [] = []"
| "demux p (f # fs) =
     (case map_of p (fr_rid f) of
        None \<Rightarrow> demux p fs
      | Some k \<Rightarrow> Got_reply k (frame_bytes f) # demux (pend_del (fr_rid f) p) fs)"

definition pend_left :: "frame list \<Rightarrow> (16 word \<times> 'k) list \<Rightarrow> (16 word \<times> 'k) list" where
  "pend_left fs p = fold (\<lambda>f. pend_del (fr_rid f)) fs p"

lemma map_of_pend_del: "map_of (pend_del rid p) x = (if x = rid then None else map_of p x)"
  unfolding pend_del_def by (induction p) auto

lemma pend_del_absent: "map_of p rid = None \<Longrightarrow> pend_del rid p = p"
  unfolding pend_del_def by (induction p) (auto split: if_splits)

lemma demux_append: "demux p (fs @ gs) = demux p fs @ demux (pend_left fs p) gs"
  by (induction fs arbitrary: p) (simp_all add: pend_left_def pend_del_absent split: option.splits)

lemma pend_left_append [simp]: "pend_left (fs @ gs) p = pend_left gs (pend_left fs p)"
  by (simp add: pend_left_def)

lemma demux_delivers:
  "map_of p rid = Some k \<Longrightarrow>
     (case find (\<lambda>f. fr_rid f = rid) fs of
        Some f \<Rightarrow> Got_reply k (frame_bytes f) \<in> set (demux p fs)
      | None \<Rightarrow> map_of (pend_left fs p) rid = Some k)"
proof (induction fs arbitrary: p)
  case (Cons f fs)
  show ?case
  proof (cases "fr_rid f = rid")
    case False
    then have "map_of (pend_del (fr_rid f) p) rid = Some k" using Cons.prems by (simp add: map_of_pend_del)
    from Cons.IH [OF this] Cons.IH [OF Cons.prems] show ?thesis
      using False by (auto simp: pend_left_def pend_del_absent split: option.splits)
  qed (simp add: Cons.prems)
qed (simp add: pend_left_def)

text \<open>Bytes that start a frame of the rest of the stream without finishing it.\<close>

definition unfinished :: "byte list \<Rightarrow> frame list \<Rightarrow> bool" where
  "unfinished rx fs \<longleftrightarrow> rx = [] \<or> (\<exists>f gs rest. fs = f # gs \<and> rest \<noteq> [] \<and> rx @ rest = frame_bytes f)"

lemma frames_cut:
  "bs @ rest = concat (map frame_bytes fs) \<Longrightarrow>
     \<exists>gs hs rx. fs = gs @ hs \<and> bs = concat (map frame_bytes gs) @ rx \<and> unfinished rx hs \<and> rx @ rest = concat (map frame_bytes hs)"
proof (induction fs arbitrary: bs)
  case Nil
  then show ?case by (simp add: unfinished_def)
next
  case (Cons f fs)
  show ?case
  proof (cases "length (frame_bytes f) \<le> length bs")
    case True
    have "take (length (frame_bytes f)) (bs @ rest) = frame_bytes f" using Cons.prems by simp
    then have "bs = frame_bytes f @ drop (length (frame_bytes f)) bs" using True by (metis append_take_drop_id take_append diff_is_0_eq take0 append_Nil2)
    then obtain cs where cs: "bs = frame_bytes f @ cs" by blast
    then have "cs @ rest = concat (map frame_bytes fs)" using Cons.prems by simp
    from Cons.IH [OF this] obtain gs hs rx where "fs = gs @ hs" "cs = concat (map frame_bytes gs) @ rx" "unfinished rx hs"
      "rx @ rest = concat (map frame_bytes hs)" by blast
    then show ?thesis by (intro exI [of _ "f # gs"] exI [of _ hs] exI [of _ rx]) (simp add: cs)
  next
    case False
    then obtain us where "bs @ us = frame_bytes f" using Cons.prems by (auto simp add: append_eq_append_conv2)
    moreover from this have "us \<noteq> []" using False by auto
    ultimately have "unfinished bs (f # fs)" unfolding unfinished_def by blast
    then show ?thesis using Cons.prems by (intro exI [of _ "[]"] exI [of _ "f # fs"] exI [of _ bs]) simp
  qed
qed

lemma parse_frame_first:
  "frame_fits mx f \<Longrightarrow> parse_message (frame_bytes f @ s) mx no_digest = Inr (frame_msg f)"
  using parse_frame [of "fr_op f" "fr_hdr f" "fr_body f" mx "fr_status f" "fr_rid f" no_digest s]
  by (simp add: frame_fits_def frame_bytes_def frame_msg_def)

lemma parse_unfinished:
  assumes "unfinished rx fs" "\<forall>f \<in> set fs. frame_fits mx f"
  shows "parse_message rx mx no_digest = Inl incomplete"
proof (cases "rx = []")
  case False
  then obtain f gs rest where f: "fs = f # gs" "rest \<noteq> []" "rx @ rest = frame_bytes f" using assms(1) unfolding unfinished_def by blast
  then have "frame_fits mx f" using assms(2) by simp
  with f have "next_message mx no_digest rx = None"
    using next_message_prefix unfolding frame_fits_def frame_bytes_def by blast
  then show ?thesis by (auto simp: next_message_def split: sum.splits if_splits)
qed (simp add: parse_message_def)

lemma pump_drain_frames:
  "\<forall>f \<in> set fs. frame_fits (ac_max_tx c) f \<Longrightarrow> parse_message rx (ac_max_tx c) no_digest = Inl incomplete \<Longrightarrow>
     ac_rx c = concat (map frame_bytes fs) @ rx \<Longrightarrow>
     pump_drain c = (True, demux (ac_pending c) fs,
       c\<lparr>ac_rx := rx, ac_pending := pend_left fs (ac_pending c), ac_n_reply := ac_n_reply c + length fs\<rparr>)"
proof (induction fs arbitrary: c)
  case Nil
  then show ?case by (subst pump_drain.simps) (simp add: pend_left_def)
next
  case (Cons f fs)
  have p: "parse_message (frame_bytes f @ concat (map frame_bytes fs) @ rx) (ac_max_tx c) no_digest = Inr (frame_msg f)"
    using Cons.prems by (intro parse_frame_first) simp
  have d: "ms_total (frame_msg f) = length (frame_bytes f)" "mh_request_id (ms_hdr (frame_msg f)) = fr_rid f"
    by (simp_all add: frame_msg_def frame_hdr_def)
  let ?c = "c\<lparr>ac_n_reply := ac_n_reply c + 1, ac_rx := concat (map frame_bytes fs) @ rx\<rparr>"
  let ?d = "?c\<lparr>ac_pending := pend_del (fr_rid f) (ac_pending c)\<rparr>"
  show ?case
    using Cons.prems Cons.IH [of ?c] Cons.IH [of ?d]
    by (subst pump_drain.simps)
      (simp add: p d pend_left_def pend_del_absent Let_def split: option.splits)
qed

lemma run_pump_frames:
  "\<forall>f \<in> set fs. frame_fits (ac_max_tx c) f \<Longrightarrow> \<not> ac_stopping c \<Longrightarrow> ac_rx c @ concat cs = concat (map frame_bytes fs) \<Longrightarrow>
     unfinished (ac_rx c) fs \<Longrightarrow>
     run_pump (map Some (map Rx_data cs)) c = (True, demux (ac_pending c) fs,
       c\<lparr>ac_n_recv := ac_n_recv c + length cs, ac_n_recv_bytes := ac_n_recv_bytes c + length (concat cs), ac_rx := [],
         ac_pending := pend_left fs (ac_pending c), ac_n_reply := ac_n_reply c + length fs\<rparr>)"
proof (induction cs arbitrary: c fs)
  case Nil
  have "length (frame_bytes f) > 0" for f by (simp add: frame_bytes_def length_frame_message)
  with Nil have "fs = []" by (auto simp: unfinished_def append_eq_append_conv2)
  with Nil show ?case by (simp add: pend_left_def)
next
  case (Cons b cs)
  have "(ac_rx c @ b) @ concat cs = concat (map frame_bytes fs)" using Cons.prems by simp
  then obtain gs hs rx where cut: "fs = gs @ hs" "ac_rx c @ b = concat (map frame_bytes gs) @ rx" "unfinished rx hs"
      "rx @ concat cs = concat (map frame_bytes hs)" using frames_cut by blast
  have fits: "\<forall>f \<in> set gs. frame_fits (ac_max_tx c) f" "\<forall>f \<in> set hs. frame_fits (ac_max_tx c) f"
    using Cons.prems(1) cut(1) by simp_all
  let ?c = "c\<lparr>ac_n_recv := ac_n_recv c + 1, ac_n_recv_bytes := ac_n_recv_bytes c + length b, ac_rx := ac_rx c @ b\<rparr>"
  let ?d = "?c\<lparr>ac_rx := rx, ac_pending := pend_left gs (ac_pending c), ac_n_reply := ac_n_reply c + length gs\<rparr>"
  have "pump_recv (Some (Rx_data b)) c = (True, demux (ac_pending c) gs, ?d)"
    using pump_drain_frames [of gs ?c rx] parse_unfinished [OF cut(3) fits(2)] fits(1) cut(2) Cons.prems(2) by (simp add: pump_recv_def)
  moreover have "run_pump (map Some (map Rx_data cs)) ?d = (True, demux (pend_left gs (ac_pending c)) hs,
       c\<lparr>ac_n_recv := ac_n_recv c + length (b # cs), ac_n_recv_bytes := ac_n_recv_bytes c + length (concat (b # cs)), ac_rx := [],
         ac_pending := pend_left hs (pend_left gs (ac_pending c)), ac_n_reply := ac_n_reply c + length gs + length hs\<rparr>)"
    using Cons.IH [of hs ?d] fits(2) cut(3,4) Cons.prems(2) by (simp add: add.assoc)
  ultimately show ?case unfolding cut(1) by (simp add: demux_append)
qed

text \<open>C12: The receive pump delivers every reply to the leg that awaits it. However the socket cuts the
  stream of reply frames, the pump wakes the awaiting legs in the order of the frames, each with
  the bytes of the first frame that has its request id, drops replies no leg awaits, keeps the
  legs whose reply has not come, and ends with nothing buffered.\<close>

theorem run_pump_demux:
  assumes "\<not> ac_stopping c" and "ac_rx c = []" and "\<forall>f \<in> set fs. frame_fits (ac_max_tx c) f"
    and "carries (concat (map frame_bytes fs)) io"
  shows "\<exists>c'. run_pump (map Some io) c = (True, demux (ac_pending c) fs, c') \<and> ac_rx c' = [] \<and> ac_n_reply c' = ac_n_reply c + length fs \<and>
     (\<forall>rid k. map_of (ac_pending c) rid = Some k \<longrightarrow>
       (case find (\<lambda>f. fr_rid f = rid) fs of
          Some f \<Rightarrow> Got_reply k (frame_bytes f) \<in> set (demux (ac_pending c) fs)
        | None \<Rightarrow> map_of (ac_pending c') rid = Some k))"
proof -
  obtain cs where cs: "io = map Rx_data cs" "concat cs = concat (map frame_bytes fs)" using carries_chunks [OF assms(4)] by blast
  have "unfinished (ac_rx c) fs" using assms(2) by (simp add: unfinished_def)
  from run_pump_frames [OF assms(3,1) _ this, of cs] obtain c' where
    c': "run_pump (map Some io) c = (True, demux (ac_pending c) fs, c')" "ac_rx c' = []" "ac_n_reply c' = ac_n_reply c + length fs"
      "ac_pending c' = pend_left fs (ac_pending c)"
    using assms(2) cs by simp
  then show ?thesis unfolding c'(1) using demux_delivers [of "ac_pending c" _ _ fs, folded c'(4)] by simp
qed

definition ex_conn :: "nat async_conn" where
  "ex_conn = (make_async_conn 4096)\<lparr>ac_fd := True, ac_ready := True, ac_pending := [(5, 1), (6, 2), (7, 3)], ac_next_rid := 8\<rparr>"

definition ex_reply :: "16 word \<Rightarrow> frame" where
  "ex_reply rid = \<lparr>fr_op = Op_helo_rsp, fr_status = 0, fr_rid = rid, fr_hdr = [], fr_body = []\<rparr>"

theorem run_pump_demux_witness:
  "\<exists>c'. run_pump [Some (Rx_data (frame_bytes (ex_reply 7) @ take 3 (frame_bytes (ex_reply 9)))),
         Some (Rx_data (drop 3 (frame_bytes (ex_reply 9)) @ frame_bytes (ex_reply 5)))] ex_conn =
     (True, [Got_reply 3 (frame_bytes (ex_reply 7)), Got_reply 1 (frame_bytes (ex_reply 5))], c') \<and>
     ac_rx c' = [] \<and> map_of (ac_pending c') 6 = Some 2"
proof -
  let ?fs = "[ex_reply 7, ex_reply 9, ex_reply 5]"
  let ?io = "[Rx_data (frame_bytes (ex_reply 7) @ take 3 (frame_bytes (ex_reply 9))),
      Rx_data (drop 3 (frame_bytes (ex_reply 9)) @ frame_bytes (ex_reply 5))]"
  have l: "length (frame_bytes (ex_reply x)) = 8" for x by (simp add: frame_bytes_def length_frame_message ex_reply_def no_digest_def)
  then have "frame_bytes (ex_reply x) \<noteq> []" for x by (metis list.size(3) zero_neq_numeral)
  then have "carries (concat (map frame_bytes ?fs)) ?io" by (simp add: carries_def)
  moreover have "\<forall>f \<in> set ?fs. frame_fits (ac_max_tx ex_conn) f"
    by (simp add: ex_reply_def frame_fits_def frame_ok_def op_hdr_size_def k_max_op_def op_hdr_table_def)
  moreover have "\<not> ac_stopping ex_conn" "ac_rx ex_conn = []" by (simp_all add: ex_conn_def make_async_conn_def)
  ultimately obtain c' where "run_pump (map Some ?io) ex_conn = (True, demux (ac_pending ex_conn) ?fs, c')" "ac_rx c' = []"
      "map_of (ac_pending ex_conn) 6 = Some 2 \<longrightarrow> (case find (\<lambda>f. fr_rid f = 6) ?fs of
          Some f \<Rightarrow> Got_reply 2 (frame_bytes f) \<in> set (demux (ac_pending ex_conn) ?fs) | None \<Rightarrow> map_of (ac_pending c') 6 = Some 2)"
    using run_pump_demux [of ex_conn ?fs ?io] by blast
  then show ?thesis by (simp add: ex_conn_def make_async_conn_def ex_reply_def pend_del_def)
qed

end
