(* ===== verification/TcpReplica.thy ===== *)
theory TcpReplica
  imports AsyncConn
begin

text \<open>
  The client's proxy of one remote replica (\<open>src/net/tcp_replica.cpp\<close>) and the admin thread its
  blocking operations run on (\<open>src/net/session_mgr.cpp\<close>). An operation takes the on-ring connection
  of the caller's queue when there is one, else the blocking connection, which it opens and binds on
  first use. What the network does during an operation is an argument, an \<open>op_io\<close>.
\<close>

section \<open>The admin thread\<close>

text \<open>A queue of jobs that one thread runs in order; \<open>drain\<close> posts a fence and waits for it.\<close>

record 'j session_mgr =
  sm_jobs :: "'j list"
  sm_ran :: "'j list"
  sm_stop :: bool

definition mgr_post :: "'j \<Rightarrow> 'j session_mgr \<Rightarrow> 'j session_mgr" where
  "mgr_post j m = m\<lparr>sm_jobs := sm_jobs m @ [j]\<rparr>"

text \<open>One turn of the worker: \<open>None\<close> ends the thread; with no job and no stop it waits.\<close>

definition mgr_turn :: "'j session_mgr \<Rightarrow> 'j session_mgr option" where
  "mgr_turn m =
     (case sm_jobs m of
        [] \<Rightarrow> if sm_stop m then None else Some m
      | j # js \<Rightarrow> Some (m\<lparr>sm_jobs := js, sm_ran := sm_ran m @ [j]\<rparr>))"

definition mgr_stop :: "'j session_mgr \<Rightarrow> 'j session_mgr" where
  "mgr_stop m = m\<lparr>sm_stop := True\<rparr>"

definition mgr_drain :: "bool \<Rightarrow> 'j \<Rightarrow> 'j session_mgr \<Rightarrow> 'j session_mgr" where
  "mgr_drain on_mgr_thread fence m = (if on_mgr_thread then m else mgr_post fence m)"

text \<open>The proxy's side: a hop posts its resumption unless the proxy stops; \<open>True\<close> completes it inline.\<close>

definition hop :: "'j \<Rightarrow> bool \<Rightarrow> 'j session_mgr \<Rightarrow> bool \<times> 'j session_mgr" where
  "hop j stop m = (if \<not> stop then (False, mgr_post j m) else (True, m))"

inductive mgr_step :: "'j session_mgr \<Rightarrow> 'j session_mgr \<Rightarrow> bool" where
  step_post: "mgr_step m (mgr_post j m)"
| step_turn: "mgr_turn m = Some m' \<Longrightarrow> mgr_step m m'"
| step_stop: "mgr_step m (mgr_stop m)"

text \<open>Jobs run in the order they were posted, and none is dropped.\<close>

definition mgr_extends :: "'j session_mgr \<Rightarrow> 'j session_mgr \<Rightarrow> bool" where
  "mgr_extends m m' \<longleftrightarrow> (\<exists>xs. sm_ran m' @ sm_jobs m' = sm_ran m @ sm_jobs m @ xs) \<and> (\<exists>ys. sm_ran m' = sm_ran m @ ys)"

lemma mgr_steps_extend: "mgr_step\<^sup>*\<^sup>* m m' \<Longrightarrow> mgr_extends m m'"
proof (induction rule: rtranclp_induct)
  case base
  show ?case by (simp add: mgr_extends_def)
next
  case (step y z)
  from step.hyps(2) have "mgr_extends y z"
    by cases (auto simp: mgr_extends_def mgr_post_def mgr_stop_def mgr_turn_def split: list.splits if_splits)
  with step.IH show ?case by (auto simp: mgr_extends_def) (metis append.assoc)
qed

text \<open>When the fence of a drain has run, so has every job that was queued before it.\<close>

lemma drain_fences:
  assumes "mgr_step\<^sup>*\<^sup>* (mgr_drain False fence m) m'" and "length (sm_ran m @ sm_jobs m) < length (sm_ran m')"
  shows "\<exists>later. sm_ran m' = sm_ran m @ sm_jobs m @ fence # later"
proof -
  obtain xs where "sm_ran m' @ sm_jobs m' = (sm_ran m @ sm_jobs m @ [fence]) @ xs"
    using mgr_steps_extend [OF assms(1)] by (auto simp: mgr_extends_def mgr_drain_def mgr_post_def)
  then have "take (length (sm_ran m')) ((sm_ran m @ sm_jobs m @ [fence]) @ xs) = sm_ran m'"
    by (metis append_eq_conv_conj)
  moreover have "length (sm_ran m @ sm_jobs m @ [fence]) \<le> length (sm_ran m')" using assms(2) by simp
  ultimately have "sm_ran m' = (sm_ran m @ sm_jobs m @ [fence]) @ take (length (sm_ran m') - length (sm_ran m @ sm_jobs m @ [fence])) xs"
    by (metis take_append take_all)
  then show ?thesis by auto
qed

section \<open>Errors\<close>

fun net_to_error :: "net_error \<Rightarrow> error_condition" where
  "net_to_error Net_send = Craft REPLICA_DOWN"
| "net_to_error Net_setup = Craft REPLICA_DOWN"
| "net_to_error Net_connect = Craft REPLICA_DOWN"
| "net_to_error Net_recv = Errc timed_out"
| "net_to_error Net_closed = Errc timed_out"
| "net_to_error Net_malformed = Errc timed_out"
| "net_to_error Net_timed_out = Errc timed_out"
| "net_to_error Net_invalid_argument = Errc invalid_argument"

definition to_io_extents :: "extent_desc list \<Rightarrow> io_extent list" where
  "to_io_extents es = map (\<lambda>e. \<lparr>ie_addr = unat (ed_addr e), ie_len = unat (ed_len e), ie_hole = (ed_hole e \<noteq> 0)\<rparr>) es"

section \<open>The proxy\<close>

definition k_max_queues :: nat where "k_max_queues = 64"

record 'q tcp_replica =
  tr_id :: peer_id
  tr_vol_id :: "byte list"
  tr_conn :: wire_client
  tr_connected :: bool
  tr_bound :: bool
  tr_bound_term :: nat
  tr_max_tx :: "32 word"
  tr_lba :: "32 word"
  tr_slots :: "('q \<times> 32 word) list"
  tr_stop :: bool

text \<open>
  What the network does during one operation: on the ring, the outcomes of \<open>ensure_ready\<close> and of the
  round trip; on the blocking path, whether a connect succeeds, and the sends and receives of the HELO
  and of the operation itself.
\<close>

record op_io =
  oi_ready :: "net_error + unit"
  oi_reply :: "net_error + byte list"
  oi_connect :: bool
  oi_helo :: "int list \<times> io_result list"
  oi_op :: "int list \<times> io_result list"

text \<open>The bound of the connection that serves the queue \<open>q\<close>; \<open>None\<close> takes the blocking path.\<close>

definition conn_for :: "'q option \<Rightarrow> 'q tcp_replica \<Rightarrow> 32 word option \<times> 'q tcp_replica" where
  "conn_for q r =
     (case q of
        None \<Rightarrow> (None, r)
      | Some k \<Rightarrow>
          (case map_of (tr_slots r) k of
             Some mx \<Rightarrow> (Some mx, r)
           | None \<Rightarrow>
               if k_max_queues \<le> length (tr_slots r) then (None, r)
               else let mx = framed_body_max (tr_max_tx r) (tr_lba r) in (Some mx, r\<lparr>tr_slots := tr_slots r @ [(k, mx)]\<rparr>)))"

definition ensure_connected :: "op_io \<Rightarrow> 'q tcp_replica \<Rightarrow> bool \<times> 'q tcp_replica" where
  "ensure_connected io r =
     (if tr_connected r then (True, r)
      else if \<not> oi_connect io then (False, r)
      else (True, r\<lparr>tr_conn := fresh_client, tr_connected := True\<rparr>))"

definition on_net_fault :: "net_error \<Rightarrow> 'q tcp_replica \<Rightarrow> error_condition \<times> 'q tcp_replica" where
  "on_net_fault e r =
     (net_to_error e, if e \<noteq> Net_invalid_argument then r\<lparr>tr_connected := False, tr_bound := False\<rparr> else r)"

datatype bind = Bind_ok | Bind_fail error_condition | Bind_waiting

definition ensure_bound :: "op_io \<Rightarrow> nat \<Rightarrow> nat \<Rightarrow> 'q tcp_replica \<Rightarrow> bind \<times> 'q tcp_replica" where
  "ensure_bound io trm token r0 =
     (case ensure_connected io r0 of
        (False, r) \<Rightarrow> (Bind_fail (Craft REPLICA_DOWN), r)
      | (True, r) \<Rightarrow>
          if tr_bound r \<and> trm = tr_bound_term r then (Bind_ok, r)
          else case wire_helo (fst (oi_helo io)) (snd (oi_helo io)) (tr_vol_id r) token trm (tr_conn r) of
            (None, c) \<Rightarrow> (Bind_waiting, r\<lparr>tr_conn := c\<rparr>)
          | (Some (Inl e), c) \<Rightarrow> (let (err, r1) = on_net_fault e (r\<lparr>tr_conn := c\<rparr>) in (Bind_fail err, r1))
          | (Some (Inr st), c) \<Rightarrow>
              if st \<noteq> status_code St_ok then (Bind_fail (status_to_error st), r\<lparr>tr_conn := c\<rparr>)
              else (Bind_ok, r\<lparr>tr_conn := c, tr_bound := True, tr_bound_term := trm\<rparr>))"

section \<open>The verbs\<close>

text \<open>A call on the blocking connection, after the bind: \<open>None\<close> waits.\<close>

definition settle :: "(net_error + 'a) option \<times> wire_client \<Rightarrow> 'q tcp_replica \<Rightarrow> 'a result option \<times> 'q tcp_replica" where
  "settle x r =
     (case x of
        (None, c) \<Rightarrow> (None, r\<lparr>tr_conn := c\<rparr>)
      | (Some (Inl e), c) \<Rightarrow> (let (err, r1) = on_net_fault e (r\<lparr>tr_conn := c\<rparr>) in (Some (Inl err), r1))
      | (Some (Inr a), c) \<Rightarrow> (Some (Inr a), r\<lparr>tr_conn := c\<rparr>))"

definition bound_call ::
  "op_io \<Rightarrow> client_hdr \<Rightarrow> (wire_client \<Rightarrow> (net_error + 'a) option \<times> wire_client) \<Rightarrow> 'q tcp_replica \<Rightarrow> 'a result option \<times> 'q tcp_replica" where
  "bound_call io hdr call r0 =
     (case ensure_bound io (ch_term hdr) (ch_client_token hdr) r0 of
        (Bind_waiting, r) \<Rightarrow> (None, r)
      | (Bind_fail e, r) \<Rightarrow> (Some (Inl e), r)
      | (Bind_ok, r) \<Rightarrow> settle (call (tr_conn r)) r)"

text \<open>A call on the ring: a connection that cannot be made ready ends it.\<close>

definition ring_call :: "op_io \<Rightarrow> (net_error + byte list \<Rightarrow> net_error + 'a) \<Rightarrow> 'a result" where
  "ring_call io decode =
     (case oi_ready io of
        Inl e \<Rightarrow> Inl (net_to_error e)
      | Inr u \<Rightarrow> (case decode (oi_reply io) of Inl e \<Rightarrow> Inl (net_to_error e) | Inr a \<Rightarrow> Inr a))"

definition lsn_result :: "lsn_reply \<Rightarrow> lsn_pair result" where
  "lsn_result y = (if ly_status y \<noteq> status_code St_ok then Inl (status_to_error (ly_status y))
     else Inr \<lparr>lp_commit_lsn = ly_commit_lsn y, lp_last_append_lsn = ly_last_append_lsn y\<rparr>)"

definition resolution_of :: "resolve_reply \<Rightarrow> resolution_result result" where
  "resolution_of y = (if vy_status y \<noteq> status_code St_ok then Inl (status_to_error (vy_status y))
     else Inr \<lparr>rs_resolved_upto = vy_resolved_upto y, rs_empty_slots = vy_empty_slots y\<rparr>)"

definition then_result :: "('a \<Rightarrow> 'b result) \<Rightarrow> 'a result \<Rightarrow> 'b result" where
  "then_result f x = (case x of Inl e \<Rightarrow> Inl e | Inr a \<Rightarrow> f a)"

definition write_payload :: "sg_list \<Rightarrow> byte list" where
  "write_payload s = (if sg_size s \<noteq> 0 then concat (sg_iovs s) else [])"

definition tcp_write ::
  "'q option \<Rightarrow> op_io \<Rightarrow> client_hdr \<Rightarrow> int \<Rightarrow> nat \<Rightarrow> nat \<Rightarrow> sg_list \<Rightarrow> 'q tcp_replica \<Rightarrow> lsn_pair result option \<times> 'q tcp_replica" where
  "tcp_write q io hdr dlsn addr len data r0 =
     (case conn_for q r0 of
        (Some mx, r) \<Rightarrow> (Some (then_result lsn_result (ring_call io (async_write mx))), r)
      | (None, r) \<Rightarrow>
          let (x, r1) = bound_call io hdr
            (wire_write (fst (oi_op io)) (snd (oi_op io)) dlsn addr len (write_payload data) (ch_commit_lsn hdr) (ch_all_committed_lsn hdr)) r
          in (map_option (then_result lsn_result) x, r1))"

definition tcp_keep_alive :: "'q option \<Rightarrow> op_io \<Rightarrow> client_hdr \<Rightarrow> 'q tcp_replica \<Rightarrow> lsn_pair result option \<times> 'q tcp_replica" where
  "tcp_keep_alive q io hdr r0 =
     (case conn_for q r0 of
        (Some mx, r) \<Rightarrow> (Some (then_result lsn_result (ring_call io (async_keep_alive mx))), r)
      | (None, r) \<Rightarrow>
          let (x, r1) = bound_call io hdr
            (wire_keep_alive (fst (oi_op io)) (snd (oi_op io)) (ch_commit_lsn hdr) (ch_all_committed_lsn hdr)) r
          in (map_option (then_result lsn_result) x, r1))"

definition request_resolution ::
  "'q option \<Rightarrow> op_io \<Rightarrow> client_hdr \<Rightarrow> int \<Rightarrow> 'q tcp_replica \<Rightarrow> resolution_result result option \<times> 'q tcp_replica" where
  "request_resolution q io hdr lim r0 =
     (case conn_for q r0 of
        (Some mx, r) \<Rightarrow> (Some (then_result resolution_of (ring_call io (async_resolve mx))), r)
      | (None, r) \<Rightarrow>
          let (x, r1) = bound_call io hdr
            (wire_resolve (fst (oi_op io)) (snd (oi_op io)) lim (ch_commit_lsn hdr) (ch_all_committed_lsn hdr)) r
          in (map_option (then_result resolution_of) x, r1))"

text \<open>The contiguous result into the caller's buffers.\<close>

fun spill :: "byte list list \<Rightarrow> byte list \<Rightarrow> byte list list" where
  "spill [] s = []"
| "spill (v # vs) s =
     (let n = min (length v) (length s)
      in (take n s @ drop n v) # (if length s \<le> n then vs else spill vs (drop n s)))"

definition read_inplace :: "nat \<Rightarrow> sg_list \<Rightarrow> bool" where
  "read_inplace len dest \<longleftrightarrow> length (sg_iovs dest) = 1 \<and> len \<le> length (hd (sg_iovs dest))"

definition read_span :: "nat \<Rightarrow> sg_list \<Rightarrow> byte list" where
  "read_span len dest = (if read_inplace len dest then take len (hd (sg_iovs dest)) else replicate len 0)"

text \<open>The caller's buffers from the span that the reply was read into; \<open>ok\<close>: the reply reached its end.\<close>

definition read_buffers :: "nat \<Rightarrow> sg_list \<Rightarrow> bool \<Rightarrow> byte list \<Rightarrow> byte list list" where
  "read_buffers len dest ok d =
     (if read_inplace len dest then [d @ drop len (hd (sg_iovs dest))]
      else if ok then spill (sg_iovs dest) d else sg_iovs dest)"

definition read_finish :: "nat \<Rightarrow> sg_list \<Rightarrow> read_reply result \<Rightarrow> byte list \<Rightarrow> read_result result \<times> byte list list" where
  "read_finish len dest x d =
     (case x of
        Inl e \<Rightarrow> (Inl e, read_buffers len dest False d)
      | Inr y \<Rightarrow>
          if ry_status y \<noteq> status_code St_ok then (Inl (status_to_error (ry_status y)), read_buffers len dest False d)
          else (Inr \<lparr>rr_extents = to_io_extents (ry_extents y),
                     rr_lsns = \<lparr>lp_commit_lsn = ry_commit_lsn y, lp_last_append_lsn = ry_last_append_lsn y\<rparr>\<rparr>,
                read_buffers len dest True d))"

definition tcp_read ::
  "'q option \<Rightarrow> op_io \<Rightarrow> client_hdr \<Rightarrow> int \<Rightarrow> nat \<Rightarrow> nat \<Rightarrow> sg_list \<Rightarrow> 'q tcp_replica
     \<Rightarrow> (read_result result \<times> byte list list) option \<times> 'q tcp_replica" where
  "tcp_read q io hdr read_lsn addr len dest r0 =
     (case conn_for q r0 of
        (Some mx, r) \<Rightarrow>
          (case oi_ready io of
             Inl e \<Rightarrow> (Some (read_finish len dest (Inl (net_to_error e)) (read_span len dest)), r)
           | Inr u \<Rightarrow>
               let (y, d) = async_read mx addr len (oi_reply io) (read_span len dest)
               in (Some (read_finish len dest (map_sum net_to_error id y) d), r))
      | (None, r) \<Rightarrow>
          (case ensure_bound io (ch_term hdr) (ch_client_token hdr) r of
             (Bind_waiting, r1) \<Rightarrow> (None, r1)
           | (Bind_fail e, r1) \<Rightarrow> (Some (read_finish len dest (Inl e) (read_span len dest)), r1)
           | (Bind_ok, r1) \<Rightarrow>
               let (y, d, c) = wire_read (fst (oi_op io)) (snd (oi_op io)) read_lsn addr len (read_span len dest)
                                 (ch_commit_lsn hdr) (ch_all_committed_lsn hdr) (tr_conn r1);
                   (x, r2) = settle (y, c) r1
               in (map_option (\<lambda>x. read_finish len dest x d) x, r2)))"

section \<open>Login and logout\<close>

definition login_of :: "login_result \<Rightarrow> LoginResult" where
  "login_of g =
     \<lparr>lr_members = map (\<lambda>m. \<lparr>ep_id = mb_id m, ep_addr = mb_addr m\<rparr>) (gy_members g), lr_dLSN = gy_dlsn g, lr_term = gy_term g,
      lr_lba_size = gy_lba_size g, lr_capacity = gy_capacity g, lr_leader_hint = gy_leader_hint g, lr_max_tx = gy_max_tx g\<rparr>"

definition login_binds :: "login_result \<Rightarrow> 'q tcp_replica \<Rightarrow> 'q tcp_replica" where
  "login_binds g r =
     (let r1 = (if gy_max_tx g \<noteq> 0 then r\<lparr>tr_max_tx := word_of_nat (gy_max_tx g)\<rparr> else r);
          r2 = (if gy_lba_size g \<noteq> 0 then r1\<lparr>tr_lba := word_of_nat (gy_lba_size g)\<rparr> else r1)
      in if 0 < gy_term g then r2\<lparr>tr_bound := True, tr_bound_term := gy_term g\<rparr> else r2)"

definition tcp_login :: "op_io \<Rightarrow> nat \<Rightarrow> 'q tcp_replica \<Rightarrow> LoginResult result option \<times> 'q tcp_replica" where
  "tcp_login io token r0 =
     (case ensure_connected io r0 of
        (False, r) \<Rightarrow> (Some (Inl (Craft REPLICA_DOWN)), r)
      | (True, r) \<Rightarrow>
          (case settle (wire_login (fst (oi_op io)) (snd (oi_op io)) (tr_vol_id r) token (tr_conn r)) r of
             (Some (Inr g), r1) \<Rightarrow> (Some (Inr (login_of g)), login_binds g r1)
           | (Some (Inl e), r1) \<Rightarrow> (Some (Inl e), r1)
           | (None, r1) \<Rightarrow> (None, r1)))"

definition tcp_logout :: "op_io \<Rightarrow> client_hdr \<Rightarrow> 'q tcp_replica \<Rightarrow> unit result option \<times> 'q tcp_replica" where
  "tcp_logout io hdr r0 =
     (case ensure_connected io r0 of
        (False, r) \<Rightarrow> (Some (Inl (Craft REPLICA_DOWN)), r)
      | (True, r) \<Rightarrow>
          let (x, r1) = settle (wire_logout (fst (oi_op io)) (snd (oi_op io)) (tr_conn r)) r
          in (map_option (then_result (\<lambda>st. if st \<noteq> status_code St_ok then Inl (status_to_error st) else Inr ())) x, r1))"

end
