(* ===== verification/TcpPeer.thy ===== *)
theory TcpPeer
  imports TcpReplica PeerCodec
begin

text \<open>
  The client side of the peer plane (\<open>src/net/tcp_peer.cpp\<close>): one replica asks another for its
  watermarks and for journal slots. The operation code of a reply is not compared with the request,
  as in the source.
\<close>

record tcp_peer =
  tp_conn :: recv_state
  tp_connected :: bool
  tp_next_rid :: "16 word"

definition peer_connected :: "bool \<Rightarrow> tcp_peer \<Rightarrow> bool \<times> tcp_peer" where
  "peer_connected ok p =
     (if tp_connected p then (True, p)
      else if \<not> ok then (False, p)
      else (True, p\<lparr>tp_conn := \<lparr>rv_rx = [], rv_io = []\<rparr>, tp_connected := True\<rparr>))"

text \<open>Send a frame and receive a message; \<open>None\<close> waits.\<close>

definition peer_exchange ::
  "int list \<Rightarrow> io_result list \<Rightarrow> wire_op \<Rightarrow> byte list \<Rightarrow> byte list \<Rightarrow> tcp_peer \<Rightarrow> message result option \<times> tcp_peer" where
  "peer_exchange ns io opc hdr body p =
     (let p1 = p\<lparr>tp_next_rid := tp_next_rid p + 1\<rparr> in
      case fst (send_all (frame_bytes (request_frame opc (tp_next_rid p) hdr body)) ns) of
        None \<Rightarrow> (None, p1)
      | Some False \<Rightarrow> (Some (Inl (Craft REPLICA_DOWN)), p1\<lparr>tp_connected := False\<rparr>)
      | Some True \<Rightarrow>
          (case recv_message k_default_max_tx no_digest ((tp_conn p1)\<lparr>rv_io := rv_io (tp_conn p1) @ io\<rparr>) of
             (None, rv) \<Rightarrow> (None, p1\<lparr>tp_conn := rv\<rparr>)
           | (Some (Inl e), rv) \<Rightarrow> (Some (Inl (net_to_error e)), p1\<lparr>tp_conn := rv, tp_connected := False\<rparr>)
           | (Some (Inr m), rv) \<Rightarrow>
               (case parse_message m k_default_max_tx no_digest of
                  Inl e \<Rightarrow> (Some (Inl (Craft INTERNAL)), p1\<lparr>tp_conn := rv, tp_connected := False\<rparr>)
                | Inr msg \<Rightarrow> (Some (Inr msg), p1\<lparr>tp_conn := rv\<rparr>))))"

definition peer_lsn_reply :: "message \<Rightarrow> lsn_pair result" where
  "peer_lsn_reply msg =
     (if mh_status (ms_hdr msg) \<noteq> status_code St_ok then Inl (Craft INTERNAL)
      else let w = get_get_rs_commit_lsn_rsp (ms_op_header msg)
           in Inr \<lparr>lp_commit_lsn = sint (gp_commit_lsn w), lp_last_append_lsn = sint (gp_last_append_lsn w)\<rparr>)"

definition peer_get_rs_commit_lsn ::
  "bool \<Rightarrow> int list \<Rightarrow> io_result list \<Rightarrow> nat \<Rightarrow> bool \<Rightarrow> tcp_peer \<Rightarrow> lsn_pair result option \<times> tcp_peer" where
  "peer_get_rs_commit_lsn ok ns io trm is_login p0 =
     (case peer_connected ok p0 of
        (False, p) \<Rightarrow> (Some (Inl (Craft REPLICA_DOWN)), p)
      | (True, p) \<Rightarrow>
          let (x, p1) = peer_exchange ns io Op_get_rs_commit_lsn
            (put_get_rs_commit_lsn_req \<lparr>gq_term = word_of_nat trm, gq_is_login = (if is_login then 1 else 0), gq_reserved = replicate 7 0\<rparr>) [] p
          in (map_option (then_result peer_lsn_reply) x, p1))"

text \<open>
  The slots out of a reply's body. The end of a slot's data is a 64-bit sum, which may wrap; a range
  whose end lies before its start makes the vector constructor throw, the outer \<open>None\<close>.
\<close>

definition slot_of_desc :: "fetch_slot_desc \<Rightarrow> byte list option \<Rightarrow> JournalSlot" where
  "slot_of_desc d data =
     \<lparr>js_lsn = sint (fd_lsn d), js_is_empty = (fd_is_empty d \<noteq> 0), js_all_zeros = (fd_all_zeros d \<noteq> 0), js_lba = unat (fd_lba d),
      js_len = unat (fd_len d),
      js_data = (case data of None \<Rightarrow> \<lparr>sg_size = 0, sg_iovs = []\<rparr> | Some bs \<Rightarrow> \<lparr>sg_size = length bs, sg_iovs = [bs]\<rparr>)\<rparr>"

fun peer_slots :: "byte list \<Rightarrow> nat \<Rightarrow> nat \<Rightarrow> nat \<Rightarrow> JournalSlot list result option" where
  "peer_slots body i 0 data_off = Some (Inr [])"
| "peer_slots body i (Suc n) data_off =
     (if length body < i * 32 + 32 then Some (Inl (Craft INTERNAL))
      else let d = get_fetch_slot_desc (drop (i * 32) body); nbytes = unat (fd_byte_len d) in
        if fd_is_empty d \<noteq> 0 \<or> fd_all_zeros d \<noteq> 0
        then map_option (map_sum id (Cons (slot_of_desc d None))) (peer_slots body (Suc i) n data_off)
        else if length body < u64 (data_off + nbytes) then Some (Inl (Craft INTERNAL))
        else if u64 (data_off + nbytes) < data_off then None
        else map_option (map_sum id (Cons (slot_of_desc d (Some (bytes_at data_off nbytes body)))))
               (peer_slots body (Suc i) n (data_off + nbytes)))"

definition peer_fetch_reply :: "message \<Rightarrow> JournalSlot list result option" where
  "peer_fetch_reply msg =
     (if mh_status (ms_hdr msg) \<noteq> status_code St_ok then Some (Inl (Craft INTERNAL))
      else let n = unat (fp_slot_count (get_fetch_data_rsp (ms_op_header msg))) in
        if length (ms_body msg) < n * 32 then Some (Inl (Craft INTERNAL))
        else peer_slots (ms_body msg) 0 n (n * 32))"

datatype fetch_end = Fetch_waiting | Fetch_thrown | Fetch_done "JournalSlot list result"

definition peer_fetch_data ::
  "bool \<Rightarrow> int list \<Rightarrow> io_result list \<Rightarrow> int list \<Rightarrow> tcp_peer \<Rightarrow> fetch_end \<times> tcp_peer" where
  "peer_fetch_data ok ns io lsns p0 =
     (case peer_connected ok p0 of
        (False, p) \<Rightarrow> (Fetch_done (Inl (Craft REPLICA_DOWN)), p)
      | (True, p) \<Rightarrow>
          (case peer_exchange ns io Op_fetch_data (put_fetch_data_req \<lparr>fq_lsn_count = word_of_nat (length lsns), fq_reserved = 0\<rparr>)
                  (concat (map (\<lambda>d. put_u64 (word_of_int d)) lsns)) p of
             (None, p1) \<Rightarrow> (Fetch_waiting, p1)
           | (Some (Inl e), p1) \<Rightarrow> (Fetch_done (Inl e), p1)
           | (Some (Inr msg), p1) \<Rightarrow>
               (case peer_fetch_reply msg of None \<Rightarrow> (Fetch_thrown, p1) | Some r \<Rightarrow> (Fetch_done r, p1))))"

end
