(* ===== verification/Wired.thy ===== *)
theory Wired
  imports TcpServer TcpPeer
begin

text \<open>
  The proxy of a replica and the server in front of it, joined by a byte stream in each direction
  that is cut into pieces of any size. A verb called on the proxy does what the synchronous core
  does on the server's replica.
\<close>

section \<open>One call over a connection\<close>

lemma request_frame_simps [simp]:
  "fr_op (request_frame opc rid hdr body) = opc" "fr_rid (request_frame opc rid hdr body) = rid"
  "fr_hdr (request_frame opc rid hdr body) = hdr" "fr_body (request_frame opc rid hdr body) = body"
  "fr_status (request_frame opc rid hdr body) = 0"
  by (simp_all add: request_frame_def)

lemma reply_of_simps [simp]:
  "fr_op (reply_of req opc code hdr body) = opc" "fr_rid (reply_of req opc code hdr body) = mh_request_id (ms_hdr req)"
  "fr_hdr (reply_of req opc code hdr body) = hdr" "fr_body (reply_of req opc code hdr body) = body"
  "fr_status (reply_of req opc code hdr body) = status_code code"
  by (simp_all add: reply_of_def)

lemma frame_msg_simps [simp]:
  "ms_op_header (frame_msg f) = fr_hdr f" "ms_body (frame_msg f) = fr_body f"
  "mh_op (ms_hdr (frame_msg f)) = op_code (fr_op f)" "mh_status (ms_hdr (frame_msg f)) = fr_status f"
  "mh_request_id (ms_hdr (frame_msg f)) = fr_rid f"
  by (simp_all add: frame_msg_def frame_hdr_def)

definition idle_conn :: "recv_state \<Rightarrow> bool" where
  "idle_conn rv \<longleftrightarrow> rv_rx rv = [] \<and> rv_io rv = []"

text \<open>Sends that make progress, and as many as the bytes could need.\<close>

definition sends_all :: "int list \<Rightarrow> byte list \<Rightarrow> bool" where
  "sends_all ns bs \<longleftrightarrow> list_all (\<lambda>n. 0 < n) ns \<and> length bs \<le> length ns"

lemma exchange_served:
  assumes "idle_conn (wc_conn c)" and "sends_all ns (frame_bytes (request_frame opc (wc_next_rid c) hdr body))"
    and "frame_fits k_max_tx g" and "carries (frame_bytes g) io" and "fr_op g = rsp"
  shows "exchange ns io opc hdr body rsp c = (Some (Inr (frame_msg g)), c\<lparr>wc_next_rid := wc_next_rid c + 1\<rparr>)"
proof -
  have s: "send_all (frame_bytes (request_frame opc (wc_next_rid c) hdr body)) ns =
      (Some True, frame_bytes (request_frame opc (wc_next_rid c) hdr body))"
    using assms(2) by (intro send_all_enough) (simp_all add: sends_all_def list_all_iff)
  have c: "(wc_conn c)\<lparr>rv_io := rv_io (wc_conn c) @ io\<rparr> = \<lparr>rv_rx = [], rv_io = io\<rparr>"
    "\<lparr>rv_rx = [], rv_io = []\<rparr> = wc_conn c"
    using assms(1) by (simp_all add: idle_conn_def)
  have "expect_reply k_max_tx rsp (frame_bytes g) = Inr (frame_msg g)"
    using assms(5) by (simp add: expect_reply_def parse_frame_bytes [OF assms(3)])
  then show ?thesis
    by (simp add: exchange_def Let_def s c(1) recv_message_carried [OF assms(3,4)]) (simp add: c(2))
qed

section \<open>Sizes\<close>

lemma op_hdr_sizes [simp]:
  "op_hdr_size 1 = Some 24" "op_hdr_size 2 = Some 56" "op_hdr_size 3 = Some 32" "op_hdr_size 4 = Some 0"
  "op_hdr_size 5 = Some 40" "op_hdr_size 6 = Some 16" "op_hdr_size 7 = Some 40" "op_hdr_size 8 = Some 24"
  "op_hdr_size 9 = Some 16" "op_hdr_size 10 = Some 16" "op_hdr_size 11 = Some 16" "op_hdr_size 12 = Some 0"
  "op_hdr_size 13 = Some 24" "op_hdr_size 14 = Some 16" "op_hdr_size 15 = Some 32" "op_hdr_size 16 = Some 0"
  "op_hdr_size 17 = Some 16" "op_hdr_size 18 = Some 16" "op_hdr_size 19 = Some 8" "op_hdr_size 20 = Some 8"
  by (simp_all add: op_hdr_size_def k_max_op_def op_hdr_table_def)

lemma status_ok_iff [simp]: "status_code code = 0 \<longleftrightarrow> code = St_ok"
  by (cases code) simp_all

lemma hdr_lengths [simp]:
  "length (write_hdr d a l ci ac) = 40" "length (read_hdr d a l ci ac) = 40" "length (write_rsp_of p) = 16"
  "length (read_rsp_of p n) = 24" "length (keepalive_hdr ci ac) = 16" "length (keepalive_rsp_of p) = 16"
  "length (resolve_hdr u ci ac) = 24" "length (resolve_rsp_of u n) = 16" "length (lsn_rsp_of p) = 16"
  by (simp_all add: write_hdr_def read_hdr_def write_rsp_of_def read_rsp_of_def keepalive_hdr_def keepalive_rsp_of_def
      resolve_hdr_def resolve_rsp_of_def lsn_rsp_of_def write_req.length_put read_req.length_put write_rsp.length_put
      read_rsp.length_put keepalive_req.length_put keepalive_rsp.length_put resolve_req.length_put resolve_rsp.length_put
      get_rs_commit_lsn_rsp.length_put)

lemma frame_fits_no_body: "frame_fits mx f \<longleftrightarrow> op_hdr_size (op_code (fr_op f)) = Some (length (fr_hdr f))" if "fr_body f = []"
  using that by (simp add: frame_fits_def frame_ok_def)

section \<open>A write\<close>

definition lsns_ok :: "lsn_pair \<Rightarrow> bool" where
  "lsns_ok p \<longleftrightarrow> i64_ok (lp_commit_lsn p) \<and> i64_ok (lp_last_append_lsn p)"

lemma unat_u64: "n < 2 ^ 64 \<Longrightarrow> unat (word_of_nat n :: 64 word) = n"
  by (simp add: unat_of_nat)

lemma do_write_hdr:
  "ch_term h = ch_term h' \<Longrightarrow> ch_commit_lsn h = ch_commit_lsn h' \<Longrightarrow> do_write h d a l b r = do_write h' d a l b r"
  by (simp add: do_write_def)

lemma get_write_hdr:
  assumes "i64_ok d" "a < 2 ^ 64" "l < 2 ^ 64" "i64_ok ci" "i64_ok ac"
  shows "let wr = get_write_req (write_hdr d a l ci ac) in
     io_hdr t (wq_hdr wr) = \<lparr>ch_term = t, ch_commit_lsn = ci, ch_all_committed_lsn = ac, ch_client_token = 0\<rparr> \<and>
     sint (wq_dlsn wr) = d \<and> unat (wq_addr wr) = a \<and> unat (wq_len wr) = l"
  using assms by (simp add: write_hdr_def write_req.get_put_exact io_hdr_def lsns_hdr_def sint_word_of_int_i64 unat_u64 Let_def)

text \<open>The core behind the frame is the core of the replica, errors included.\<close>

lemma write_core_frame:
  assumes "i64_ok d" "a < 2 ^ 64" "l < 2 ^ 64" "i64_ok (ch_commit_lsn h)" "i64_ok (ch_all_committed_lsn h)"
    and "ms_op_header req = write_hdr d a l (ch_commit_lsn h) (ch_all_committed_lsn h)"
    and "do_write h d a l (body_bytes (ms_body req)) r = (res, r')"
  shows "write_core (ch_term h) req r = (case res of Inl e \<Rightarrow> (to_wire_status e, peek_lsns r', r') | Inr p \<Rightarrow> (St_ok, p, r'))"
proof -
  let ?h = "\<lparr>ch_term = ch_term h, ch_commit_lsn = ch_commit_lsn h, ch_all_committed_lsn = ch_all_committed_lsn h, ch_client_token = 0\<rparr>"
  have "do_write ?h d a l (body_bytes (ms_body req)) r = do_write h d a l (body_bytes (ms_body req)) r"
    by (rule do_write_hdr) simp_all
  then show ?thesis
    using get_write_hdr [OF assms(1-5), of "ch_term h"] assms(6,7) by (simp add: write_core_def Let_def split: sum.splits)
qed

lemma do_write_error: "do_write h d a l b r = (Inl e, r') \<Longrightarrow> wire_error e"
  by (auto simp: do_write_def wire_error_def Let_def split: if_splits)

section \<open>A write over the wire\<close>

definition write_request :: "'q tcp_replica \<Rightarrow> client_hdr \<Rightarrow> int \<Rightarrow> nat \<Rightarrow> nat \<Rightarrow> sg_list \<Rightarrow> frame" where
  "write_request r hdr dlsn addr len data =
     request_frame Op_write (wc_next_rid (tr_conn r)) (write_hdr dlsn addr len (ch_commit_lsn hdr) (ch_all_committed_lsn hdr)) (write_payload data)"

definition read_request :: "'q tcp_replica \<Rightarrow> client_hdr \<Rightarrow> int \<Rightarrow> nat \<Rightarrow> nat \<Rightarrow> frame" where
  "read_request r hdr read_lsn addr len =
     request_frame Op_read (wc_next_rid (tr_conn r)) (read_hdr read_lsn addr len (ch_commit_lsn hdr) (ch_all_committed_lsn hdr)) []"

text \<open>A proxy whose connection is open, bound at the caller's term and has nothing in flight.\<close>

definition proxy_bound :: "'q tcp_replica \<Rightarrow> nat \<Rightarrow> bool" where
  "proxy_bound r trm \<longleftrightarrow> tr_connected r \<and> tr_bound r \<and> tr_bound_term r = trm \<and> idle_conn (wc_conn (tr_conn r))"

definition next_call :: "'q tcp_replica \<Rightarrow> 'q tcp_replica" where
  "next_call r = r\<lparr>tr_conn := (tr_conn r)\<lparr>wc_next_rid := wc_next_rid (tr_conn r) + 1\<rparr>\<rparr>"

lemma proxy_bound_next: "proxy_bound (next_call r) trm \<longleftrightarrow> proxy_bound r trm"
  by (simp add: proxy_bound_def next_call_def)

text \<open>The arguments of an IO fit their fields.\<close>

definition io_args_ok :: "client_hdr \<Rightarrow> int \<Rightarrow> nat \<Rightarrow> nat \<Rightarrow> bool" where
  "io_args_ok hdr dlsn addr len \<longleftrightarrow>
     i64_ok dlsn \<and> addr < 2 ^ 64 \<and> len < 2 ^ 64 \<and> i64_ok (ch_commit_lsn hdr) \<and> i64_ok (ch_all_committed_lsn hdr)"

lemma ensure_bound_ready: "proxy_bound r trm \<Longrightarrow> ensure_bound io trm token r = (Bind_ok, r)"
  by (simp add: proxy_bound_def ensure_bound_def ensure_connected_def)

lemma tcp_serve_one:
  assumes "frame_fits (ge_max_tx (ts_geo s)) f" and "carries (frame_bytes f) io" and "tcp_handle env (frame_msg f) s = Reply out s'"
  shows "tcp_serve env s \<lparr>rv_rx = [], rv_io = io\<rparr> = ([out], s', Conn_waiting)"
  using tcp_srv.serve_one [OF assms] by (simp add: tcp_serve_def)

lemma settle_ok: "settle (Some (Inr a), c) r = (Some (Inr a), r\<lparr>tr_conn := c\<rparr>)"
  by (simp add: settle_def)

lemma write_reply_decoded:
  assumes "lsns_ok p"
  shows "lsn_result (write_reply_of (frame_msg (reply_of req Op_write_rsp code (write_rsp_of p) []))) =
     (if code = St_ok then Inr p else Inl (status_to_error (status_code code)))"
  using assms by (auto simp: lsn_result_def write_reply_of_def write_rsp_of_def write_rsp.get_put_exact lsns_ok_def sint_word_of_int_i64 Let_def
      status_code_inj)

lemma tcp_handle_write:
  "fr_op f = Op_write \<Longrightarrow> tcp_handle env (frame_msg f) s = sends (on_write (frame_msg f) s)"
  by (simp add: tcp_handle_def)

lemma on_write_active:
  assumes "ts_session_active s" "ts_session_term s = ch_term h" and "io_args_ok h d a l"
    and "fr_hdr f = write_hdr d a l (ch_commit_lsn h) (ch_all_committed_lsn h)"
    and "do_write h d a l (body_bytes (fr_body f)) (ts_mem s) = (res, m)"
  shows "on_write (frame_msg f) s =
     (reply_of (frame_msg f) Op_write_rsp (case res of Inl e \<Rightarrow> to_wire_status e | Inr p \<Rightarrow> St_ok) (write_rsp_of (peek_lsns m)) [], with_mem m s)"
proof -
  have res: "p = peek_lsns m" if "res = Inr p" for p
    using assms(5) that by (auto simp: do_write_def Let_def split: if_splits)
  have "write_core (ch_term h) (frame_msg f) (ts_mem s) =
      (case res of Inl e \<Rightarrow> (to_wire_status e, peek_lsns m, m) | Inr p \<Rightarrow> (St_ok, p, m))"
    using assms(3-5) by (intro write_core_frame) (simp_all add: io_args_ok_def)
  then show ?thesis using assms(1,2) res by (simp add: on_write_def split: sum.splits)
qed

lemma wire_write_served:
  assumes "proxy_bound r (ch_term hdr)"
    and "sends_all ns (frame_bytes (write_request r hdr dlsn addr len data))"
    and "carries (frame_bytes (reply_of req Op_write_rsp code (write_rsp_of p) [])) io"
  shows "wire_write ns io dlsn addr len (write_payload data) (ch_commit_lsn hdr) (ch_all_committed_lsn hdr) (tr_conn r) =
     (Some (Inr (write_reply_of (frame_msg (reply_of req Op_write_rsp code (write_rsp_of p) [])))),
      (tr_conn r)\<lparr>wc_next_rid := wc_next_rid (tr_conn r) + 1\<rparr>)"
proof -
  have "exchange ns io Op_write (write_hdr dlsn addr len (ch_commit_lsn hdr) (ch_all_committed_lsn hdr)) (write_payload data) Op_write_rsp (tr_conn r)
      = (Some (Inr (frame_msg (reply_of req Op_write_rsp code (write_rsp_of p) []))), (tr_conn r)\<lparr>wc_next_rid := wc_next_rid (tr_conn r) + 1\<rparr>)"
    using assms by (intro exchange_served) (simp_all add: proxy_bound_def write_request_def frame_fits_no_body)
  then show ?thesis by (simp add: wire_write_def on_ok_def)
qed

lemma tcp_write_blocking:
  "proxy_bound r (ch_term hdr) \<Longrightarrow> wire_write (fst (oi_op io)) (snd (oi_op io)) dlsn addr len (write_payload data) (ch_commit_lsn hdr)
      (ch_all_committed_lsn hdr) (tr_conn r) = (Some (Inr y), c) \<Longrightarrow>
   tcp_write None io hdr dlsn addr len data r = (Some (lsn_result y), r\<lparr>tr_conn := c\<rparr>)"
  by (simp add: tcp_write_def conn_for_def bound_call_def ensure_bound_ready settle_ok then_result_def)

lemma write_over_wire:
  assumes sess: "ts_session_active s" "ts_session_term s = ch_term hdr"
    and px: "proxy_bound r (ch_term hdr)" and args: "io_args_ok hdr dlsn addr len"
    and fit: "length (write_payload data) \<le> unat (ge_max_tx (ts_geo s))"
    and w: "do_write hdr dlsn addr len (body_bytes (write_payload data)) (ts_mem s) = (res, m)" and lsns: "lsns_ok (peek_lsns m)"
    and up: "sends_all (fst (oi_op io)) (frame_bytes (write_request r hdr dlsn addr len data))"
      "carries (frame_bytes (write_request r hdr dlsn addr len data)) sio"
    and srv: "tcp_serve env s \<lparr>rv_rx = [], rv_io = sio\<rparr> = (outs, s', fin)" and down: "carries (concat outs) (snd (oi_op io))"
  shows "tcp_write None io hdr dlsn addr len data r = (Some res, next_call r) \<and> s' = with_mem m s \<and> fin = Conn_waiting"
proof -
  let ?f = "write_request r hdr dlsn addr len data"
  let ?g = "reply_of (frame_msg ?f) Op_write_rsp (case res of Inl e \<Rightarrow> to_wire_status e | Inr p \<Rightarrow> St_ok) (write_rsp_of (peek_lsns m)) []"
  have "on_write (frame_msg ?f) s = (?g, with_mem m s)"
    using sess args w by (intro on_write_active) (simp_all add: write_request_def)
  then have h: "tcp_handle env (frame_msg ?f) s = Reply (frame_bytes ?g) (with_mem m s)"
    by (simp add: tcp_handle_write write_request_def sends_def)
  have "frame_fits (ge_max_tx (ts_geo s)) ?f"
    using fit by (simp add: write_request_def frame_fits_def frame_ok_def op_allows_body_def)
  from tcp_serve_one [OF this up(2) h] srv
  have o: "outs = [frame_bytes ?g]" "s' = with_mem m s" "fin = Conn_waiting" by simp_all
  have "carries (frame_bytes ?g) (snd (oi_op io))" using down o(1) by simp
  from tcp_write_blocking [OF px wire_write_served [OF px up(1) this]]
  have "tcp_write None io hdr dlsn addr len data r =
      (Some (lsn_result (write_reply_of (frame_msg ?g))), r\<lparr>tr_conn := (tr_conn r)\<lparr>wc_next_rid := wc_next_rid (tr_conn r) + 1\<rparr>\<rparr>)" .
  moreover have "lsn_result (write_reply_of (frame_msg ?g)) = res"
  proof (cases res)
    case (Inl e)
    then have "wire_error e" using do_write_error w by blast
    then show ?thesis using Inl by (simp add: write_reply_decoded [OF lsns] status_to_error_wire)
  next
    case (Inr p)
    then have "p = peek_lsns m" using w by (auto simp: do_write_def Let_def split: if_splits)
    then show ?thesis using Inr by (simp add: write_reply_decoded [OF lsns])
  qed
  ultimately show ?thesis using o by (simp add: next_call_def)
qed

section \<open>A read over the wire\<close>

text \<open>Two buffers agree on a set of positions.\<close>

definition agree_on :: "nat set \<Rightarrow> byte list \<Rightarrow> byte list \<Rightarrow> bool" where
  "agree_on S d buf \<longleftrightarrow> length d = length buf \<and> (\<forall>j \<in> S. j < length buf \<longrightarrow> d ! j = buf ! j)"

lemma agree_on_all: "agree_on S d buf \<Longrightarrow> {..<length buf} \<subseteq> S \<Longrightarrow> d = buf"
  unfolding agree_on_def by (rule nth_equalityI) auto

lemma blit_agrees:
  assumes "agree_on S d buf" and "off + n \<le> length buf"
  shows "agree_on (S \<union> {off..<off + n}) (blit off (bytes_at off n buf) d) buf"
proof -
  have len: "length (bytes_at off n buf) = n" using assms(2) by (simp add: bytes_at_def)
  have "blit off (bytes_at off n buf) d ! j = (if off \<le> j \<and> j < off + n then buf ! j else d ! j)" if "j < length buf" for j
    using assms that by (auto simp: blit_def len nth_append bytes_at_def agree_on_def)
  moreover have "length (blit off (bytes_at off n buf) d) = length buf"
    using assms by (simp add: blit_def len agree_on_def)
  ultimately show ?thesis using assms(1) by (auto simp: agree_on_def)
qed

text \<open>The positions that a list of sub-ranges covers.\<close>

definition covered :: "(nat \<times> nat) list \<Rightarrow> nat set" where
  "covered ps = (\<Union>(off, n) \<in> set ps. {off..<off + n})"

lemma covered_simps [simp]: "covered [] = {}" "covered ((off, n) # ps) = {off..<off + n} \<union> covered ps"
  by (simp_all add: covered_def)

lemma scatter_data_agrees:
  assumes "\<forall>(off, n) \<in> set ps. off + n \<le> length buf" and "agree_on S d buf"
  shows "\<exists>d'. scatter_data ps (concat (map (\<lambda>(off, n). bytes_at off n buf) ps) @ rest) d = (True, d') \<and> agree_on (S \<union> covered ps) d' buf"
  using assms
proof (induction ps arbitrary: S d)
  case Nil
  then show ?case by simp
next
  case (Cons p ps)
  obtain off n where p: "p = (off, n)" by (cases p)
  have n: "off + n \<le> length buf" using Cons.prems(1) by (simp add: p)
  then have len: "length (bytes_at off n buf) = n" by (simp add: bytes_at_def)
  have "agree_on (S \<union> {off..<off + n}) (blit off (bytes_at off n buf) d) buf"
    by (rule blit_agrees [OF Cons.prems(2) n])
  then obtain d' where
    "scatter_data ps (concat (map (\<lambda>(off, n). bytes_at off n buf) ps) @ rest) (blit off (bytes_at off n buf) d) = (True, d')"
    "agree_on (S \<union> {off..<off + n} \<union> covered ps) d' buf"
    using Cons.IH [of "S \<union> {off..<off + n}"] Cons.prems(1) by auto
  then show ?case by (simp add: p len Un_assoc)
qed

lemma zero_holes_agrees:
  assumes "\<forall>(off, n) \<in> set hs. off + n \<le> length buf \<and> bytes_at off n buf = replicate n 0" and "agree_on S d buf"
  shows "agree_on (S \<union> covered hs) (zero_holes hs d) buf"
  using assms
proof (induction hs arbitrary: S d)
  case Nil
  then show ?case by (simp add: zero_holes_def)
next
  case (Cons h hs)
  obtain off n where h: "h = (off, n)" by (cases h)
  have n: "off + n \<le> length buf" "bytes_at off n buf = replicate n 0" using Cons.prems(1) by (simp_all add: h)
  have "agree_on (S \<union> {off..<off + n}) (blit off (replicate n 0) d) buf"
    using blit_agrees [OF Cons.prems(2) n(1)] n(2) by simp
  then have "agree_on (S \<union> {off..<off + n} \<union> covered hs) (zero_holes hs (blit off (replicate n 0) d)) buf"
    using Cons.IH Cons.prems(1) by simp
  then show ?case by (simp add: h zero_holes_def Un_assoc)
qed

text \<open>The scatter plan of extents that tile the range.\<close>

definition span_of :: "nat \<Rightarrow> io_extent \<Rightarrow> nat \<times> nat" where
  "span_of addr e = (ie_addr e - addr, ie_len e)"

lemma tiled_bounds: "tiled ps a b es \<Longrightarrow> e \<in> set es \<Longrightarrow> a \<le> ie_addr e \<and> ie_addr e + ie_len e \<le> b"
proof (induction es arbitrary: a)
  case (Cons x es)
  have t: "tiled ps (a + ie_len x) b es" using Cons.prems(1) by simp
  have le: "tiled ps a b es \<Longrightarrow> a \<le> b" for a es
    by (induction es arbitrary: a) (auto, meson add_leD1)
  show ?case
  proof (cases "e = x")
    case True
    then show ?thesis using Cons.prems(1) le [OF t] by simp
  next
    case False
    then show ?thesis using Cons.IH [OF t] Cons.prems(2) by auto
  qed
qed simp

lemma tiled_covers: "tiled ps a b es \<Longrightarrow> addr \<le> a \<Longrightarrow> {a - addr..<b - addr} \<subseteq> covered (map (span_of addr) es)"
proof (induction es arbitrary: a)
  case (Cons e es)
  have "{a + ie_len e - addr..<b - addr} \<subseteq> covered (map (span_of addr) es)"
    using Cons by simp
  moreover have "{a - addr..<b - addr} \<subseteq> {a - addr..<a - addr + ie_len e} \<union> {a + ie_len e - addr..<b - addr}"
    using Cons.prems(2) by auto
  moreover have "covered (map (span_of addr) (e # es)) = {a - addr..<a - addr + ie_len e} \<union> covered (map (span_of addr) es)"
    using Cons.prems(1) by (simp add: span_of_def [of addr e])
  ultimately show ?case by blast
qed simp

lemma word_of_nat_sub64: "y \<le> x \<Longrightarrow> x < 2 ^ 64 \<Longrightarrow> unat (word_of_nat x - word_of_nat y :: 64 word) = x - y"
  by (simp add: unat_sub word_le_nat_alt unat_of_nat)

lemma plan_scatter_from_tiled:
  assumes "tiled ps a b es" "addr \<le> a" "b < 2 ^ 64"
  shows "plan_scatter_from (map desc_of_extent es) (word_of_nat addr) (word_of_nat b) p =
     p\<lparr>sc_data := sc_data p @ map (span_of addr) (filter (\<lambda>e. \<not> ie_hole e) es),
       sc_holes := sc_holes p @ map (span_of addr) (filter ie_hole es), sc_ok := True\<rparr>"
  using assms
proof (induction es arbitrary: a p)
  case Nil
  show ?case by simp
next
  case (Cons e es)
  let ?w = "word_of_nat :: nat \<Rightarrow> 64 word"
  have e: "ie_addr e = a" "tiled ps (a + ie_len e) b es" using Cons.prems(1) by simp_all
  have b: "a + ie_len e \<le> b" using tiled_bounds [OF Cons.prems(1), of e] e(1) by simp
  have sum: "?w a + ?w (ie_len e) = ?w (a + ie_len e)" by simp
  have "\<not> (?w (a + ie_len e) < ?w a \<or> ?w a < ?w addr \<or> ?w b < ?w (a + ie_len e))"
    using b Cons.prems(2,3) by (simp add: word_less_nat_alt unat_of_nat del: of_nat_add)
  moreover have "(unat (?w a - ?w addr), unat (?w (ie_len e))) = span_of addr e"
    using b Cons.prems(2,3) word_of_nat_sub64 [of addr a] by (simp add: span_of_def e(1) unat_of_nat)
  ultimately have "plan_scatter_from (map desc_of_extent (e # es)) (?w addr) (?w b) p =
      plan_scatter_from (map desc_of_extent es) (?w addr) (?w b)
        (if ie_hole e then p\<lparr>sc_holes := sc_holes p @ [span_of addr e]\<rparr> else p\<lparr>sc_data := sc_data p @ [span_of addr e]\<rparr>)"
    unfolding list.map plan_scatter_from.simps Let_def by (simp add: desc_of_extent_def e(1) sum del: of_nat_add)
  moreover have "addr \<le> a + ie_len e" using Cons.prems(2) by simp
  ultimately show ?case using Cons.IH [OF e(2) _ Cons.prems(3)] by simp
qed

text \<open>The layout and the replica after a read do not depend on the destination.\<close>

lemma read_blocks_fst: "fst (fold (read_block r H lba0) xs (lay, c)) = fst (fold (read_block r H lba0) xs (lay, c'))"
  by (induction xs arbitrary: lay c c') (simp_all add: read_block_def Let_def)

lemma do_read_dest:
  assumes "len \<le> sg_size d" "len \<le> sg_size d'"
  shows "fst (do_read h H addr len d r) = fst (do_read h H addr len d' r)"
    and "snd (snd (do_read h H addr len d r)) = snd (snd (do_read h H addr len d' r))"
  using assms by (simp_all add: do_read_def read_range_def Let_def split_beta read_blocks_fst [of _ _ _ _ _ "(sg_iovs d, 0, 0)" "(sg_iovs d', 0, 0)"])

lemma sg_write_count: "length (fst (sg_write src cur)) = length (fst cur)"
proof (induction src cur rule: sg_write.induct)
  case (1 src iovs idx off)
  then show ?case by (subst sg_write.simps) (simp add: Let_def)
qed

lemma read_blocks_count: "length (fst (snd (fold (read_block r H lba0) xs (lay, cur)))) = length (fst cur)"
  by (induction xs arbitrary: lay cur) (simp_all add: read_block_def Let_def sg_write_count)

lemma do_read_count: "length (fst (snd (do_read h H addr len d r))) = length (sg_iovs d)"
  by (simp add: do_read_def read_range_def Let_def split_beta read_blocks_count)

text \<open>Whole blocks out of a buffer of blocks.\<close>

lemma drop_blocks:
  assumes "\<And>i. length (f i) = ps" and "i0 \<le> n"
  shows "drop (i0 * ps) (concat (map f [0..<n])) = concat (map f [i0..<n])"
proof -
  have "[0..<n] = [0..<i0] @ [i0..<n]" using assms(2) by (metis le_add_diff_inverse upt_add_eq_append zero_le)
  moreover have "length (concat (map f [0..<i0])) = i0 * ps" using assms(1) by (induction i0) simp_all
  ultimately show ?thesis by simp
qed

lemma take_blocks:
  assumes "\<And>i. length (f i) = ps" and "i0 + m \<le> n"
  shows "take (m * ps) (concat (map f [i0..<n])) = concat (map f [i0..<i0 + m])"
proof -
  have "[i0..<n] = [i0..<i0 + m] @ [i0 + m..<n]" using assms(2) by (metis le_add1 le_add_diff_inverse upt_add_eq_append)
  moreover have "length (concat (map f [i0..<i0 + m])) = m * ps" using assms(1) by (induction m) simp_all
  ultimately show ?thesis by simp
qed

lemma bytes_at_blocks:
  assumes "\<And>i. length (f i) = ps" and "i0 + m \<le> n"
  shows "bytes_at (i0 * ps) (m * ps) (concat (map f [0..<n])) = concat (map f [i0..<i0 + m])"
  using assms by (simp add: bytes_at_def drop_blocks take_blocks)

lemma tiled_dvd: "tiled ps a b es \<Longrightarrow> e \<in> set es \<Longrightarrow> addr \<le> a \<Longrightarrow> ps dvd a - addr \<Longrightarrow> ps dvd ie_addr e - addr \<and> ps dvd ie_len e"
proof (induction es arbitrary: a)
  case (Cons x es)
  show ?case
  proof (cases "e = x")
    case False
    have eq: "a + ie_len x - addr = (a - addr) + ie_len x" using Cons.prems(3) by simp
    have "ps dvd a + ie_len x - addr" unfolding eq using Cons.prems by (intro dvd_add) simp_all
    then show ?thesis using Cons.IH [of "a + ie_len x"] Cons.prems False by (simp add: trans_le_add1)
  qed (use Cons.prems in auto)
qed simp

text \<open>The bytes of a hole of the layout are zeros in the buffer that the read has filled.\<close>

lemma hole_bytes:
  assumes t: "tiled ps addr (addr + n * ps) es" and ps: "0 < ps" and len: "\<And>i. length (f i) = ps"
    and ex: "expand_extents ps es = map (\<lambda>i. (addr + i * ps, f i = replicate ps 0)) [0..<n]"
    and e: "e \<in> set es" "ie_hole e"
  shows "bytes_at (ie_addr e - addr) (ie_len e) (concat (map f [0..<n])) = replicate (ie_len e) 0"
proof -
  have le: "addr \<le> ie_addr e" "ie_addr e + ie_len e \<le> addr + n * ps" using tiled_bounds [OF t e(1)] by simp_all
  have dvd: "ps dvd ie_addr e - addr" "ps dvd ie_len e" using tiled_dvd [OF t e(1), of addr] by simp_all
  obtain i0 where i0: "ie_addr e - addr = i0 * ps" using dvd(1) by (metis dvdE mult.commute)
  obtain m where m: "ie_len e = m * ps" using dvd(2) by (metis dvdE mult.commute)
  have "(i0 + m) * ps \<le> n * ps" using le i0 m by (simp add: add_mult_distrib)
  then have im: "i0 + m \<le> n" using ps by simp
  have zero: "f i = replicate ps 0" if "i0 \<le> i" "i < i0 + m" for i
  proof -
    let ?k = "i - i0"
    have "(ie_addr e + ?k * ps, ie_hole e) \<in> set (expand_extents ps es)"
      using e(1) that m ps by (auto simp: expand_extents_def intro!: bexI [of _ e])
    then obtain j where j: "j < n" "ie_addr e + ?k * ps = addr + j * ps" "ie_hole e = (f j = replicate ps 0)"
      unfolding ex by auto
    have "j * ps = i0 * ps + ?k * ps" using j(2) i0 le(1) by simp
    then have "j = i" using ps that by (simp add: add_mult_distrib [symmetric])
    then show ?thesis using j(3) e(2) by simp
  qed
  have "concat (map f [i0..<i0 + m]) = concat (map (\<lambda>_. replicate ps 0) [i0..<i0 + m])"
    using zero by (intro arg_cong [where f = concat] map_cong) auto
  also have "\<dots> = replicate (m * ps) 0" by (induction m) (simp_all add: replicate_add [symmetric] add.commute)
  finally show ?thesis using bytes_at_blocks [where f = f, OF len im] i0 m by simp
qed

lemma extent_desc_wf: "wf_extent_desc (desc_of_extent e)"
  by (simp add: wf_extent_desc_def desc_of_extent_def)

lemma read_body_table:
  assumes "length es < 2 ^ 32"
  shows "decode_extents (read_body addr es buf) (word_of_nat (length es)) = Some (map desc_of_extent es)"
    and "drop (length es * 24) (read_body addr es buf) = concat (map (extent_bytes addr buf) es)"
proof -
  let ?t = "concat (map put_extent_desc (map desc_of_extent es))"
  have b: "read_body addr es buf = ?t @ concat (map (extent_bytes addr buf) es)" by (simp add: read_body_def)
  have l: "length ?t = length es * 24" by (subst extent_desc.length_array) (simp_all add: extent_desc_wf)
  show "drop (length es * 24) (read_body addr es buf) = concat (map (extent_bytes addr buf) es)" unfolding b using l by simp
  have "decode_n get_extent_desc 24 (length (map desc_of_extent es)) (read_body addr es buf) = map desc_of_extent es"
    unfolding b by (rule extent_desc.decode_array) (simp add: extent_desc_wf)
  moreover have "unat (word_of_nat (length es) :: 32 word) = length es" using assms by (simp add: unat_of_nat)
  moreover have "length es * 24 \<le> length (read_body addr es buf)" unfolding b using l by simp
  ultimately show "decode_extents (read_body addr es buf) (word_of_nat (length es)) = Some (map desc_of_extent es)"
    by (simp add: decode_extents_def)
qed

lemma packed_spans:
  assumes "tiled ps addr b es" "b < 2 ^ 64"
  shows "concat (map (extent_bytes addr buf) es) =
     concat (map (\<lambda>(off, n). bytes_at off n buf) (map (span_of addr) (filter (\<lambda>e. \<not> ie_hole e) es)))"
proof -
  have "extent_bytes addr buf e = (if ie_hole e then [] else bytes_at (ie_addr e - addr) (ie_len e) buf)" if "e \<in> set es" for e
  proof -
    have "addr \<le> ie_addr e" "ie_addr e < 2 ^ 64" using tiled_bounds [OF assms(1) that] assms(2) by auto
    then have "sub64 (ie_addr e) addr = ie_addr e - addr" by simp
    then show ?thesis by (simp add: extent_bytes_def)
  qed
  then show ?thesis by (induction es) (simp_all add: span_of_def)
qed

lemma covered_filter: "covered (map f (filter P es)) \<union> covered (map f (filter (\<lambda>e. \<not> P e) es)) = covered (map f es)"
proof (induction es)
  case (Cons e es)
  obtain off n where "f e = (off, n)" by (cases "f e")
  then show ?case using Cons by (cases "P e") auto
qed simp

text \<open>A reply that tiles the range fills the destination with the buffer that the server read into.\<close>

lemma read_reply_scattered:
  assumes t: "tiled ps addr (addr + len) es" and lim: "addr + len < 2 ^ 64" and n: "length es < 2 ^ 32" and l: "lsns_ok l"
    and buf: "length buf = len" "length d = len"
    and holes: "\<forall>e \<in> set es. ie_hole e \<longrightarrow> bytes_at (ie_addr e - addr) (ie_len e) buf = replicate (ie_len e) 0"
  shows "read_reply_of (word_of_nat addr) (word_of_nat len)
       (frame_msg (reply_of req Op_read_rsp St_ok (read_rsp_of l (length es)) (read_body addr es buf))) d =
     (Inr \<lparr>ry_status = 0, ry_commit_lsn = lp_commit_lsn l, ry_last_append_lsn = lp_last_append_lsn l, ry_extents = map desc_of_extent es\<rparr>, buf)"
proof -
  let ?data = "map (span_of addr) (filter (\<lambda>e. \<not> ie_hole e) es)" and ?holes = "map (span_of addr) (filter ie_hole es)"
  have un: "unat (word_of_nat (length es) :: 32 word) = length es" using n by (simp add: unat_of_nat)
  have plan: "plan_scatter (map desc_of_extent es) (word_of_nat addr) (word_of_nat len) =
      \<lparr>sc_data = ?data, sc_holes = ?holes, sc_ok = True\<rparr>"
    using plan_scatter_from_tiled [OF t order_refl lim] by (simp add: plan_scatter_def)
  have b: "ie_addr e - addr + ie_len e \<le> length buf" if "e \<in> set es" for e
    using tiled_bounds [OF t that] buf(1) by linarith
  have "\<forall>(off, m) \<in> set ?data. off + m \<le> length buf" using b by (auto simp: span_of_def)
  moreover have "agree_on {} d buf" using buf by (simp add: agree_on_def)
  ultimately obtain d' where d': "scatter_data ?data (concat (map (\<lambda>(off, n). bytes_at off n buf) ?data) @ []) d = (True, d')"
    "agree_on ({} \<union> covered ?data) d' buf"
    using scatter_data_agrees by blast
  have "\<forall>(off, m) \<in> set ?holes. off + m \<le> length buf \<and> bytes_at off m buf = replicate m 0" using b holes by (auto simp: span_of_def)
  from zero_holes_agrees [OF this d'(2)] have "agree_on (covered (map (span_of addr) es)) (zero_holes ?holes d') buf"
    using covered_filter [of "span_of addr" ie_hole es] by (simp add: Un_commute)
  moreover have "{..<length buf} \<subseteq> covered (map (span_of addr) es)"
    using tiled_covers [OF t order_refl] buf(1) by auto
  ultimately have z: "zero_holes ?holes d' = buf" by (rule agree_on_all)
  have sc: "scatter_data ?data (concat (map (extent_bytes addr buf) es)) d = (True, d')"
    unfolding packed_spans [OF t lim] using d'(1) by (simp only: append_Nil2)
  have "get_read_rsp (read_rsp_of l (length es)) =
      \<lparr>rdp_commit_lsn = word_of_int (lp_commit_lsn l), rdp_last_append_lsn = word_of_int (lp_last_append_lsn l),
       rdp_extent_count = word_of_nat (length es), rdp_reserved = 0\<rparr>"
    by (simp add: read_rsp_of_def read_rsp.get_put_exact)
  then show ?thesis
    using z l by (simp add: read_reply_of_def Let_def read_body_table [OF n] plan un sc lsns_ok_def sint_word_of_int_i64)
qed

lemma to_io_extents_desc:
  assumes "\<forall>e \<in> set es. ie_addr e < 2 ^ 64 \<and> ie_len e < 2 ^ 64"
  shows "to_io_extents (map desc_of_extent es) = es"
  using assms by (induction es) (simp_all add: to_io_extents_def desc_of_extent_def unat_of_nat)

text \<open>What the server puts into its reply to a read, and the buffer it was read into.\<close>

definition server_dest :: "nat \<Rightarrow> sg_list" where
  "server_dest len = \<lparr>sg_size = len, sg_iovs = [replicate len 0]\<rparr>"

lemma do_read_hdr:
  "ch_term h = ch_term h' \<Longrightarrow> ch_commit_lsn h = ch_commit_lsn h' \<Longrightarrow> do_read h H a l d r = do_read h' H a l d r"
  by (simp add: do_read_def)

lemma read_core_frame:
  assumes "io_args_ok h H a l" and "ms_op_header req = read_hdr H a l (ch_commit_lsn h) (ch_all_committed_lsn h)"
    and "do_read h H a l (server_dest l) r = (res, bufs, r')"
  shows "read_core (ch_term h) req r =
     (case res of Inl e \<Rightarrow> (to_wire_status e, read_rsp_of (peek_lsns r') 0, [], r')
      | Inr rr \<Rightarrow> (St_ok, read_rsp_of (rr_lsns rr) (length (rr_extents rr)), read_body a (rr_extents rr) (hd bufs), r'))"
proof -
  let ?h = "\<lparr>ch_term = ch_term h, ch_commit_lsn = ch_commit_lsn h, ch_all_committed_lsn = ch_all_committed_lsn h, ch_client_token = 0\<rparr>"
  have "do_read ?h H a l (server_dest l) r = do_read h H a l (server_dest l) r" by (rule do_read_hdr) simp_all
  moreover have "io_hdr (ch_term h) (lsns_hdr (ch_commit_lsn h) (ch_all_committed_lsn h)) = ?h"
    using assms(1) by (simp add: io_hdr_def lsns_hdr_def io_args_ok_def sint_word_of_int_i64)
  ultimately show ?thesis
    using assms by (simp add: read_core_def Let_def read_hdr_def read_req.get_put_exact io_args_ok_def sint_word_of_int_i64 unat_u64
        server_dest_def split: sum.splits)
qed

lemma do_read_error: "do_read h H a l d r = (Inl e, bufs, r') \<Longrightarrow> wire_error e \<and> bufs = sg_iovs d \<and> r' = r"
  by (auto simp: do_read_def wire_error_def Let_def split: if_splits prod.splits)

text \<open>The replica's answer to a read that it accepts, in the form the wire needs.\<close>

lemma do_read_served:
  assumes inv: "replica_inv r" and lim: "addr + len < 2 ^ 64" "len div rp_page_size r < 2 ^ 32"
    and ok: "do_read h H addr len (server_dest len) r = (Inr rr, bufs, r')"
  shows "tiled (rp_page_size r) addr (addr + len) (rr_extents rr)" "length (hd bufs) = len" "rr_lsns rr = peek_lsns r'"
    "\<forall>e \<in> set (rr_extents rr). ie_hole e \<longrightarrow> bytes_at (ie_addr e - addr) (ie_len e) (hd bufs) = replicate (ie_len e) 0"
    "len \<le> sg_size d \<Longrightarrow> sg_iovs d = [v] \<Longrightarrow> sg_size d = length v \<Longrightarrow>
       do_read h H addr len d r = (Inr rr, [hd bufs @ drop len v], r')"
proof -
  let ?ps = "rp_page_size r" and ?n = "len div rp_page_size r"
  let ?f = "\<lambda>i. block_value ?ps (rp_journal r) (max H (rp_commit_lsn r')) (addr div ?ps + i)"
  have al: "\<not> misaligned r addr len" "ch_term h = rp_term r"
    using ok by (auto simp: do_read_def server_dest_def split: if_splits)
  have ps: "0 < ?ps" using replica_invD(2) [OF inv] by simp
  have n: "?n * ?ps = len" using al(1) by (auto simp: misaligned_def)
  have fl: "length (?f i) = ?ps" for i by (rule block_value_length [OF inv])
  have sd: "len \<le> sg_size (server_dest len)" "sg_size (server_dest len) = length (concat (sg_iovs (server_dest len)))"
    "drop len (concat (sg_iovs (server_dest len))) = []"
    by (simp_all add: server_dest_def)
  obtain rr0 bufs0 r0 where ok0: "do_read h H addr len (server_dest len) r = (Inr rr0, bufs0, r0)"
    and L0: "rr_lsns rr0 = peek_lsns r0"
    and S0: "concat bufs0 = concat (map (\<lambda>i. block_value ?ps (rp_journal r) (max H (rp_commit_lsn r0)) (addr div ?ps + i)) [0..<?n]) @
      drop len (concat (sg_iovs (server_dest len)))"
    and E0: "expand_extents ?ps (rr_extents rr0) = map (\<lambda>i. (addr + i * ?ps,
      block_value ?ps (rp_journal r) (max H (rp_commit_lsn r0)) (addr div ?ps + i) = replicate ?ps 0)) [0..<?n]"
    and T0: "tiled ?ps addr (addr + len) (rr_extents rr0)"
    by (rule do_read_spec [OF inv al sd(1,2) lim])
  have eq0: "rr0 = rr" "bufs0 = bufs" "r0 = r'" using ok ok0 by simp_all
  note L = L0 [unfolded eq0] and T = T0 [unfolded eq0] and E = E0 [unfolded eq0]
  have S: "concat bufs = concat (map ?f [0..<?n])" using S0 sd(3) by (simp only: eq0 append_Nil2)
  have "length bufs = 1" using do_read_count [of h H addr len "server_dest len" r] ok by (simp add: server_dest_def)
  then obtain b where b: "bufs = [b]" by (cases bufs) simp_all
  show "tiled ?ps addr (addr + len) (rr_extents rr)" by (rule T)
  have T': "tiled ?ps addr (addr + ?n * ?ps) (rr_extents rr)" by (subst n) (rule T)
  have hb: "hd bufs = concat (map ?f [0..<?n])" using S b by simp
  then show "length (hd bufs) = len" using fl n by (simp add: length_concat comp_def sum_list_triv)
  show "rr_lsns rr = peek_lsns r'" by (rule L)
  show "\<forall>e \<in> set (rr_extents rr). ie_hole e \<longrightarrow> bytes_at (ie_addr e - addr) (ie_len e) (hd bufs) = replicate (ie_len e) 0"
    unfolding hb using hole_bytes [OF T' ps fl E] by blast
  show "do_read h H addr len d r = (Inr rr, [hd bufs @ drop len v], r')"
    if d: "len \<le> sg_size d" "sg_iovs d = [v]" "sg_size d = length v"
  proof -
    have sz: "sg_size d = length (concat (sg_iovs d))" using d by simp
    obtain rr2 bufs2 r2 where ok2: "do_read h H addr len d r = (Inr rr2, bufs2, r2)"
      and S2: "concat bufs2 = concat (map (\<lambda>i. block_value ?ps (rp_journal r) (max H (rp_commit_lsn r2)) (addr div ?ps + i)) [0..<?n]) @
        drop len (concat (sg_iovs d))"
      by (rule do_read_spec [OF inv al d(1) sz lim])
    have "fst (do_read h H addr len d r) = fst (do_read h H addr len (server_dest len) r)"
      "snd (snd (do_read h H addr len d r)) = snd (snd (do_read h H addr len (server_dest len) r))"
      using do_read_dest [of len d "server_dest len" h H addr r] d(1) by (simp_all add: server_dest_def)
    then have eq: "rr2 = rr" "r2 = r'" using ok ok2 by simp_all
    have "length bufs2 = 1" using do_read_count [of h H addr len d r] ok2 d(2) by simp
    then have "bufs2 = [concat bufs2]" by (cases bufs2) simp_all
    then show ?thesis using ok2 S2 eq hb d(2) by simp
  qed
qed

lemma k_max_tx_value: "k_max_tx = 548864"
  by (simp add: k_max_tx_def framed_body_max_def k_default_max_tx_def)

lemma tiled_count: "tiled ps a b es \<Longrightarrow> length es * ps \<le> b - a \<and> a \<le> b"
proof (induction es arbitrary: a)
  case (Cons e es)
  have "ps \<le> ie_len e" using Cons.prems by (simp add: dvd_imp_le)
  moreover have "length es * ps \<le> b - (a + ie_len e) \<and> a + ie_len e \<le> b" using Cons by simp
  ultimately show ?case unfolding length_Cons mult_Suc by linarith
qed simp

lemma tiled_data_length:
  assumes "tiled ps a b es" "addr \<le> a" "b < 2 ^ 64"
  shows "length (concat (map (extent_bytes addr buf) es)) \<le> b - a"
  using assms
proof (induction es arbitrary: a)
  case (Cons e es)
  have "length (extent_bytes addr buf e) \<le> ie_len e" by (simp add: extent_bytes_def bytes_at_def)
  moreover have "length (concat (map (extent_bytes addr buf) es)) \<le> b - (a + ie_len e)" "a + ie_len e \<le> b"
    using Cons tiled_count [of ps "a + ie_len e" b es] by auto
  ultimately show ?case by simp
qed simp

text \<open>A reply to a read of the default payload fits the bound of the client, at any page size from 512 bytes on.\<close>

lemma read_reply_fits:
  assumes "tiled ps addr (addr + len) es" "addr + len < 2 ^ 64" "512 \<le> ps" "len \<le> 524288"
  shows "frame_fits k_max_tx (reply_of req Op_read_rsp St_ok (read_rsp_of l (length es)) (read_body addr es buf))" "length es < 2 ^ 32"
proof -
  have c: "length es * ps \<le> len" using tiled_count [OF assms(1)] by simp
  have "length es * 512 \<le> length es * ps" using assms(3) by simp
  with c assms(4) have n: "length es \<le> 1024" by linarith
  then show "length es < 2 ^ 32" by simp
  have "length (concat (map (put_extent_desc \<circ> desc_of_extent) es)) = length es * 24"
    by (induction es) (simp_all add: extent_desc.length_put extent_desc_wf)
  then have "length (read_body addr es buf) \<le> 548864"
    using tiled_data_length [OF assms(1) order_refl assms(2), of buf] n assms(4) by (simp add: read_body_def)
  then show "frame_fits k_max_tx (reply_of req Op_read_rsp St_ok (read_rsp_of l (length es)) (read_body addr es buf))"
    by (simp add: frame_fits_def frame_ok_def k_max_tx_value op_allows_body_def)
qed

lemma tcp_handle_read:
  "fr_op f = Op_read \<Longrightarrow> tcp_handle env (frame_msg f) s = may_crash s (on_read (env (frame_msg f) s) (frame_msg f) s)"
  by (simp add: tcp_handle_def)

lemma on_read_active:
  assumes "ts_session_active s" "ts_session_term s = ch_term h" "io_args_ok h H a l" "se_alloc env l"
    and "fr_hdr f = read_hdr H a l (ch_commit_lsn h) (ch_all_committed_lsn h)"
    and "do_read h H a l (server_dest l) (ts_mem s) = (res, bufs, m)"
  shows "on_read env (frame_msg f) s = Some (case res of
       Inl e \<Rightarrow> reply_of (frame_msg f) Op_read_rsp (to_wire_status e) (read_rsp_of (peek_lsns m) 0) []
     | Inr rr \<Rightarrow> reply_of (frame_msg f) Op_read_rsp St_ok (read_rsp_of (rr_lsns rr) (length (rr_extents rr))) (read_body a (rr_extents rr) (hd bufs)),
     with_mem m s)"
proof -
  have "unat (rq_len (get_read_req (ms_op_header (frame_msg f)))) = l"
    using assms(3,5) by (simp add: read_hdr_def read_req.get_put_exact io_args_ok_def unat_u64)
  then show ?thesis
    using assms(1,2,4) read_core_frame [OF assms(3) _ assms(6), of "frame_msg f"] assms(5) by (simp add: on_read_def split: sum.splits)
qed

lemma tcp_read_served:
  assumes px: "proxy_bound r (ch_term hdr)" and fits: "frame_fits k_max_tx g" "fr_op g = Op_read_rsp"
    and net: "sends_all (fst (oi_op io)) (frame_bytes (read_request r hdr H addr len))" "carries (frame_bytes g) (snd (oi_op io))"
    and dec: "read_reply_of (word_of_nat addr) (word_of_nat len) (frame_msg g) (read_span len dest) = (Inr y, d)"
    and span: "length (read_span len dest) = len"
  shows "tcp_read None io hdr H addr len dest r = (Some (read_finish len dest (Inr y) d), next_call r)"
proof -
  have "exchange (fst (oi_op io)) (snd (oi_op io)) Op_read (read_hdr H addr len (ch_commit_lsn hdr) (ch_all_committed_lsn hdr)) [] Op_read_rsp (tr_conn r)
      = (Some (Inr (frame_msg g)), (tr_conn r)\<lparr>wc_next_rid := wc_next_rid (tr_conn r) + 1\<rparr>)"
    using px net fits by (intro exchange_served) (simp_all add: proxy_bound_def read_request_def)
  then have "wire_read (fst (oi_op io)) (snd (oi_op io)) H addr len (read_span len dest) (ch_commit_lsn hdr) (ch_all_committed_lsn hdr) (tr_conn r)
      = (Some (Inr y), d, (tr_conn r)\<lparr>wc_next_rid := wc_next_rid (tr_conn r) + 1\<rparr>)"
    by (simp add: wire_read_def dec span)
  then show ?thesis by (simp add: tcp_read_def conn_for_def ensure_bound_ready [OF px] settle_ok next_call_def)
qed

lemma read_finish_ok:
  assumes "sg_iovs dest = [v]" "len \<le> length v" "\<forall>e \<in> set es. ie_addr e < 2 ^ 64 \<and> ie_len e < 2 ^ 64"
  shows "read_finish len dest (Inr \<lparr>ry_status = 0, ry_commit_lsn = lp_commit_lsn l, ry_last_append_lsn = lp_last_append_lsn l,
       ry_extents = map desc_of_extent es\<rparr>) d = (Inr \<lparr>rr_extents = es, rr_lsns = l\<rparr>, [d @ drop len v])"
  using assms by (simp add: read_finish_def read_buffers_def read_inplace_def to_io_extents_desc)

text \<open>A reply without the status \<open>ok\<close> leaves the destination alone.\<close>

lemma read_reply_refused:
  assumes "code \<noteq> St_ok" "sg_iovs dest = [v]" "len \<le> length v"
  obtains y where "read_reply_of a l (frame_msg (reply_of req Op_read_rsp code (read_rsp_of p 0) [])) d = (Inr y, d)"
    and "read_finish len dest (Inr y) (read_span len dest) = (Inl (status_to_error (status_code code)), [v])"
proof -
  let ?y = "\<lparr>ry_status = status_code code, ry_commit_lsn = sint (rdp_commit_lsn (get_read_rsp (read_rsp_of p 0))),
     ry_last_append_lsn = sint (rdp_last_append_lsn (get_read_rsp (read_rsp_of p 0))), ry_extents = []\<rparr>"
  have "read_reply_of a l (frame_msg (reply_of req Op_read_rsp code (read_rsp_of p 0) [])) d = (Inr ?y, d)"
    using assms(1) by (simp add: read_reply_of_def Let_def)
  moreover have "read_finish len dest (Inr ?y) (read_span len dest) = (Inl (status_to_error (status_code code)), [v])"
    using assms by (simp add: read_finish_def read_buffers_def read_inplace_def read_span_def)
  ultimately show thesis by (rule that)
qed

lemma read_over_wire:
  assumes sess: "ts_session_active s" "ts_session_term s = ch_term hdr"
    and px: "proxy_bound r (ch_term hdr)" and args: "io_args_ok hdr H addr len" and inv: "replica_inv (ts_mem s)"
    and lim: "addr + len < 2 ^ 64" "len \<le> 524288" "512 \<le> rp_page_size (ts_mem s)"
    and dest: "sg_iovs dest = [v]" "sg_size dest = length v" "len \<le> length v"
    and rd: "do_read hdr H addr len dest (ts_mem s) = (res, bufs, m)" and lsns: "lsns_ok (peek_lsns m)"
    and alloc: "se_alloc (env (frame_msg (read_request r hdr H addr len)) s) len"
    and up: "sends_all (fst (oi_op io)) (frame_bytes (read_request r hdr H addr len))"
      "carries (frame_bytes (read_request r hdr H addr len)) sio"
    and srv: "tcp_serve env s \<lparr>rv_rx = [], rv_io = sio\<rparr> = (outs, s', fin)" and down: "carries (concat outs) (snd (oi_op io))"
  shows "tcp_read None io hdr H addr len dest r = (Some (res, bufs), next_call r) \<and> s' = with_mem m s \<and> fin = Conn_waiting"
proof -
  let ?f = "read_request r hdr H addr len"
  obtain bufs0 where rd0: "do_read hdr H addr len (server_dest len) (ts_mem s) = (res, bufs0, m)"
    using do_read_dest [of len dest "server_dest len" hdr H addr "ts_mem s"] rd dest
    by (cases "do_read hdr H addr len (server_dest len) (ts_mem s)") (auto simp: server_dest_def)
  define g where "g = (case res of
       Inl e \<Rightarrow> reply_of (frame_msg ?f) Op_read_rsp (to_wire_status e) (read_rsp_of (peek_lsns m) 0) []
     | Inr rr \<Rightarrow> reply_of (frame_msg ?f) Op_read_rsp St_ok (read_rsp_of (rr_lsns rr) (length (rr_extents rr))) (read_body addr (rr_extents rr) (hd bufs0)))"
  have "on_read (env (frame_msg ?f) s) (frame_msg ?f) s = Some (g, with_mem m s)"
    unfolding g_def using sess args alloc rd0 by (intro on_read_active) (simp_all add: read_request_def)
  then have h: "tcp_handle env (frame_msg ?f) s = Reply (frame_bytes g) (with_mem m s)"
    by (simp add: tcp_handle_read read_request_def may_crash_def sends_def)
  have "frame_fits (ge_max_tx (ts_geo s)) ?f" by (simp add: read_request_def frame_fits_no_body)
  from tcp_serve_one [OF this up(2) h] srv
  have o: "outs = [frame_bytes g]" "s' = with_mem m s" "fin = Conn_waiting" by simp_all
  have down': "carries (frame_bytes g) (snd (oi_op io))" using down o(1) by simp
  have opg: "fr_op g = Op_read_rsp" by (simp add: g_def split: sum.splits)
  have span: "length (read_span len dest) = len" using dest by (simp add: read_span_def read_inplace_def)
  have "tcp_read None io hdr H addr len dest r = (Some (res, bufs), next_call r)"
  proof (cases res)
    case (Inl e)
    have g: "g = reply_of (frame_msg ?f) Op_read_rsp (to_wire_status e) (read_rsp_of (peek_lsns m) 0) []" by (simp add: g_def Inl)
    obtain y where y: "read_reply_of (word_of_nat addr) (word_of_nat len) (frame_msg g) (read_span len dest) = (Inr y, read_span len dest)"
      "read_finish len dest (Inr y) (read_span len dest) = (Inl (status_to_error (status_code (to_wire_status e))), [v])"
      unfolding g by (rule read_reply_refused [OF to_wire_status_not_ok dest(1,3)])
    have "frame_fits k_max_tx g" by (simp add: g frame_fits_no_body)
    from tcp_read_served [OF px this opg up(1) down' y(1) span] y(2)
    show ?thesis using do_read_error [OF rd [unfolded Inl]] dest(1) by (simp add: Inl status_to_error_wire)
  next
    case (Inr rr)
    have blk: "len div rp_page_size (ts_mem s) < 2 ^ 32" using lim(2) le_less_trans [OF div_le_dividend] by auto
    note S = do_read_served [OF inv lim(1) blk rd0 [unfolded Inr]]
    have g: "g = reply_of (frame_msg ?f) Op_read_rsp St_ok (read_rsp_of (rr_lsns rr) (length (rr_extents rr))) (read_body addr (rr_extents rr) (hd bufs0))"
      by (simp add: g_def Inr)
    note F1 = read_reply_fits(1) [OF S(1) lim(1,3,2), where req = "frame_msg ?f" and l = "rr_lsns rr" and buf = "hd bufs0"]
    note F2 = read_reply_fits(2) [OF S(1) lim(1,3,2)]
    have lk: "lsns_ok (rr_lsns rr)" using lsns S(3) by simp
    note D = read_reply_scattered [OF S(1) lim(1) F2 lk S(2) span S(4), where req = "frame_msg ?f", folded g]
    have "\<forall>e \<in> set (rr_extents rr). ie_addr e < 2 ^ 64 \<and> ie_len e < 2 ^ 64"
      using tiled_bounds [OF S(1)] lim(1) by fastforce
    note E = read_finish_ok [OF dest(1,3) this, of "rr_lsns rr" "hd bufs0"]
    have "bufs = [hd bufs0 @ drop len v]" using S(5) [of dest v] dest rd Inr by simp
    then show ?thesis using tcp_read_served [OF px F1 [folded g] opg up(1) down' D span] E by (simp add: Inr)
  qed
  with o show ?thesis by simp
qed

section \<open>A fetch over the wire\<close>

lemma peer_exchange_served:
  assumes "idle_conn (tp_conn p)" and "sends_all ns (frame_bytes (request_frame opc (tp_next_rid p) hdr body))"
    and "frame_fits k_default_max_tx g" and "carries (frame_bytes g) io"
  shows "peer_exchange ns io opc hdr body p = (Some (Inr (frame_msg g)), p\<lparr>tp_next_rid := tp_next_rid p + 1\<rparr>)"
proof -
  have s: "send_all (frame_bytes (request_frame opc (tp_next_rid p) hdr body)) ns =
      (Some True, frame_bytes (request_frame opc (tp_next_rid p) hdr body))"
    using assms(2) by (intro send_all_enough) (simp_all add: sends_all_def list_all_iff)
  have c: "(tp_conn p)\<lparr>rv_io := rv_io (tp_conn p) @ io\<rparr> = \<lparr>rv_rx = [], rv_io = io\<rparr>" "\<lparr>rv_rx = [], rv_io = []\<rparr> = tp_conn p"
    using assms(1) by (simp_all add: idle_conn_def)
  show ?thesis
    by (simp add: peer_exchange_def Let_def s c(1) recv_message_carried [OF assms(3,4)] parse_frame_bytes [OF assms(3)]) (simp add: c(2))
qed

text \<open>A slot whose payload is one buffer of the size it states, and none for an Empty or a zero slot.\<close>

definition plain_slot :: "JournalSlot \<Rightarrow> bool" where
  "plain_slot j \<longleftrightarrow> i64_ok (js_lsn j) \<and> js_lba j < 2 ^ 64 \<and> js_len j < 2 ^ 32 \<and>
     (if js_is_empty j \<or> js_all_zeros j then js_data j = \<lparr>sg_size = 0, sg_iovs = []\<rparr>
      else \<exists>b. js_data j = \<lparr>sg_size = length b, sg_iovs = [b]\<rparr>)"

definition slot_bytes :: "JournalSlot \<Rightarrow> byte list" where
  "slot_bytes j = (if js_is_empty j \<or> js_all_zeros j then [] else concat (sg_iovs (js_data j)))"

lemma fetch_desc_wf: "wf_fetch_slot_desc (fetch_desc_of j)"
  by (simp add: wf_fetch_slot_desc_def fetch_desc_of_def)

lemma fetch_table_length: "length (concat (map (put_fetch_slot_desc \<circ> fetch_desc_of) js)) = length js * 32"
  by (induction js) (simp_all add: fetch_slot_desc.length_put fetch_desc_wf)

lemma slot_of_fetch_desc:
  assumes "plain_slot j" "length (slot_bytes j) < 2 ^ 64"
  shows "if js_is_empty j \<or> js_all_zeros j then slot_of_desc (fetch_desc_of j) None = j
     else unat (fd_byte_len (fetch_desc_of j)) = length (slot_bytes j) \<and> slot_of_desc (fetch_desc_of j) (Some (slot_bytes j)) = j"
  using assms by (auto simp: plain_slot_def slot_bytes_def slot_of_desc_def fetch_desc_of_def sint_word_of_int_i64 unat_of_nat)

lemma peer_slots_run:
  assumes all: "all = pre @ rest" and body: "body = concat (map (put_fetch_slot_desc \<circ> fetch_desc_of) all) @ concat (map slot_bytes all)"
    and plain: "\<forall>j \<in> set rest. plain_slot j" and lim: "length body < 2 ^ 64"
  shows "peer_slots body (length pre) (length rest) (length all * 32 + length (concat (map slot_bytes pre))) = Some (Inr rest)"
  using all plain
proof (induction rest arbitrary: pre)
  case Nil
  show ?case by simp
next
  case (Cons j js)
  let ?off = "length all * 32 + length (concat (map slot_bytes pre))"
  let ?put = "put_fetch_slot_desc \<circ> fetch_desc_of"
  have "body = concat (map ?put pre) @ put_fetch_slot_desc (fetch_desc_of j) @ (concat (map ?put js) @ concat (map slot_bytes all))"
    by (simp add: body Cons.prems(1))
  then have d: "get_fetch_slot_desc (drop (length pre * 32) body) = fetch_desc_of j"
    by (simp add: fetch_table_length fetch_slot_desc.get_put fetch_desc_wf)
  have lb: "length body = length all * 32 + length (concat (map slot_bytes all))" by (simp add: body fetch_table_length)
  have n: "length pre * 32 + 32 \<le> length body" using lb Cons.prems(1) by simp
  have "body = (concat (map ?put all) @ concat (map slot_bytes pre)) @ slot_bytes j @ concat (map slot_bytes js)"
    by (simp add: body Cons.prems(1))
  then have pay: "bytes_at ?off (length (slot_bytes j)) body = slot_bytes j"
    by (simp add: bytes_at_def fetch_table_length)
  have en: "?off + length (slot_bytes j) \<le> length body" using lb Cons.prems(1) by simp
  then have u: "u64 (?off + length (slot_bytes j)) = ?off + length (slot_bytes j)" using lim by (simp add: u64_def)
  have IH: "peer_slots body (Suc (length pre)) (length js) (?off + length (slot_bytes j)) = Some (Inr js)"
    using Cons.IH [of "pre @ [j]"] Cons.prems by (simp add: add.assoc)
  have "length (slot_bytes j) < 2 ^ 64" using en lim by linarith
  with Cons.prems(2) slot_of_fetch_desc [of j]
  have S: "if js_is_empty j \<or> js_all_zeros j then slot_of_desc (fetch_desc_of j) None = j
     else unat (fd_byte_len (fetch_desc_of j)) = length (slot_bytes j) \<and> slot_of_desc (fetch_desc_of j) (Some (slot_bytes j)) = j" by simp
  have fl: "fd_is_empty (fetch_desc_of j) = 0 \<longleftrightarrow> \<not> js_is_empty j" "fd_all_zeros (fetch_desc_of j) = 0 \<longleftrightarrow> \<not> js_all_zeros j"
    by (simp_all add: fetch_desc_of_def)
  show ?case
  proof (cases "js_is_empty j \<or> js_all_zeros j")
    case True
    then have "slot_bytes j = []" by (simp add: slot_bytes_def)
    then show ?thesis using n IH S True by (auto simp: d Let_def fl)
  next
    case False
    then show ?thesis using n IH S en u by (simp add: d Let_def fl pay)
  qed
qed

lemma fetch_body_slots:
  assumes "\<forall>j \<in> set js. plain_slot j" "length (fetch_body js) < 2 ^ 64"
  shows "peer_slots (fetch_body js) 0 (length js) (length js * 32) = Some (Inr js)"
proof -
  have "fetch_body js = concat (map (put_fetch_slot_desc \<circ> fetch_desc_of) js) @ concat (map slot_bytes js)"
    by (simp add: fetch_body_def slot_bytes_def [abs_def])
  then show ?thesis using peer_slots_run [of js "[]" js "fetch_body js"] assms by simp
qed

lemma decode_lsns_put:
  assumes "\<forall>d \<in> set ds. i64_ok d" "length ds < 2 ^ 32"
  shows "decode_lsns (concat (map (\<lambda>d. put_u64 (word_of_int d)) ds)) (word_of_nat (length ds)) = Some ds"
proof -
  have wf: "\<forall>d \<in> set ds. - (2 ^ 63) \<le> d \<and> d < 2 ^ 63" using assms(1) by (simp add: i64_ok_def)
  have "unat (word_of_nat (length ds) :: 32 word) = length ds" using assms(2) by (simp add: unat_of_nat)
  then show ?thesis using lsn_field.length_array [OF wf] lsn_field.decode_array [OF wf, of "[]"] by (simp add: decode_lsns_def)
qed

lemma do_fetch_plain:
  assumes "replica_inv r" "\<forall>d \<in> set ds. i64_ok d" "\<forall>j \<in> set (do_fetch ds r). js_len j < 2 ^ 32" "j \<in> set (do_fetch ds r)"
  shows "plain_slot j"
proof -
  obtain d s where ds: "d \<in> set ds" "map_of (rp_journal r) d = Some s" "j = journal_slot_of d s"
    using assms(4) by (auto simp: do_fetch_def List.map_filter_def)
  have wf: "slot_wf (rp_page_size r) s" using assms(1) ds(2) map_of_SomeD by (fastforce simp: replica_inv_def)
  then show ?thesis
    using assms(2,3,4) ds by (auto simp: plain_slot_def journal_slot_of_def slot_wf_def split: option.splits)
qed

definition fetch_request :: "tcp_peer \<Rightarrow> int list \<Rightarrow> frame" where
  "fetch_request p lsns = request_frame Op_fetch_data (tp_next_rid p) (put_fetch_data_req \<lparr>fq_lsn_count = word_of_nat (length lsns), fq_reserved = 0\<rparr>)
     (concat (map (\<lambda>d. put_u64 (word_of_int d)) lsns))"

lemma on_fetch_data_request:
  assumes "\<forall>d \<in> set lsns. i64_ok d" "length lsns < 2 ^ 32"
  shows "on_fetch_data (frame_msg (fetch_request p lsns)) s =
     (reply_of (frame_msg (fetch_request p lsns)) Op_fetch_data_rsp St_ok
        (put_fetch_data_rsp \<lparr>fp_slot_count = word_of_nat (length (do_fetch lsns (ts_mem s))), fp_reserved = 0\<rparr>)
        (fetch_body (do_fetch lsns (ts_mem s))), s)"
  using decode_lsns_put [OF assms] by (simp add: on_fetch_data_def fetch_request_def fetch_data_req.get_put_exact Let_def)

lemma peer_fetch_decoded:
  assumes "\<forall>j \<in> set js. plain_slot j" "length (fetch_body js) \<le> 524288"
  shows "peer_fetch_reply (frame_msg (reply_of req Op_fetch_data_rsp St_ok
     (put_fetch_data_rsp \<lparr>fp_slot_count = word_of_nat (length js), fp_reserved = 0\<rparr>) (fetch_body js))) = Some (Inr js)"
proof -
  have l: "length js * 32 \<le> length (fetch_body js)" using fetch_table_length [of js] by (simp add: fetch_body_def)
  then have "unat (word_of_nat (length js) :: 32 word) = length js" using assms(2) by (simp add: unat_of_nat)
  then show ?thesis
    using l fetch_body_slots [OF assms(1)] assms(2) by (simp add: peer_fetch_reply_def fetch_data_rsp.get_put_exact)
qed

lemma fetch_over_wire:
  assumes p: "tp_connected p" "idle_conn (tp_conn p)" and inv: "replica_inv (ts_mem s)"
    and lsns: "\<forall>d \<in> set lsns. i64_ok d" "length lsns * 8 \<le> unat (ge_max_tx (ts_geo s))"
    and fit: "\<forall>j \<in> set (do_fetch lsns (ts_mem s)). js_len j < 2 ^ 32" "length (fetch_body (do_fetch lsns (ts_mem s))) \<le> 524288"
    and up: "sends_all ns (frame_bytes (fetch_request p lsns))" "carries (frame_bytes (fetch_request p lsns)) sio"
    and srv: "tcp_serve env s \<lparr>rv_rx = [], rv_io = sio\<rparr> = (outs, s', fin)" and down: "carries (concat outs) io"
  shows "peer_fetch_data ok ns io lsns p = (Fetch_done (Inr (do_fetch lsns (ts_mem s))), p\<lparr>tp_next_rid := tp_next_rid p + 1\<rparr>) \<and> s' = s"
proof -
  let ?f = "fetch_request p lsns" and ?js = "do_fetch lsns (ts_mem s)"
  let ?g = "reply_of (frame_msg ?f) Op_fetch_data_rsp St_ok (put_fetch_data_rsp \<lparr>fp_slot_count = word_of_nat (length ?js), fp_reserved = 0\<rparr>) (fetch_body ?js)"
  have n: "length lsns < 2 ^ 32" using lsns(2) unsigned_less [of "ge_max_tx (ts_geo s)", where 'a = nat] by simp
  have h: "tcp_handle env (frame_msg ?f) s = Reply (frame_bytes ?g) s"
    by (simp add: tcp_handle_def on_fetch_data_request [OF lsns(1) n] sends_def Let_def) (simp add: fetch_request_def)
  have "length (concat (map (\<lambda>d. put_u64 (word_of_int d)) lsns)) = length lsns * 8" by (induction lsns) simp_all
  then have "frame_fits (ge_max_tx (ts_geo s)) ?f"
    using lsns(2) by (simp add: fetch_request_def frame_fits_def frame_ok_def op_allows_body_def fetch_data_req.length_put)
  from tcp_serve_one [OF this up(2) h] srv have o: "outs = [frame_bytes ?g]" "s' = s" by simp_all
  have "frame_fits k_default_max_tx ?g"
    using fit(2) by (simp add: frame_fits_def frame_ok_def op_allows_body_def fetch_data_rsp.length_put k_default_max_tx_def)
  moreover have "carries (frame_bytes ?g) io" using down o(1) by simp
  ultimately have "peer_exchange ns io Op_fetch_data (fr_hdr ?f) (fr_body ?f) p = (Some (Inr (frame_msg ?g)), p\<lparr>tp_next_rid := tp_next_rid p + 1\<rparr>)"
    using p(2) up(1) by (intro peer_exchange_served) (simp_all add: fetch_request_def)
  moreover have "peer_fetch_reply (frame_msg ?g) = Some (Inr ?js)"
    using do_fetch_plain [OF inv lsns(1) fit(1)] fit(2) by (intro peer_fetch_decoded) simp_all
  ultimately show ?thesis using p(1) o by (simp add: peer_fetch_data_def peer_connected_def fetch_request_def)
qed

section \<open>The type of a reply\<close>

text \<open>
  A reply has the type of its request: the response code that follows the request's, the same
  request id, an operation header of the size that its code has, and a body only where its code has one.
\<close>

definition reply_typed :: "frame \<Rightarrow> frame \<Rightarrow> bool" where
  "reply_typed f g \<longleftrightarrow> op_code (fr_op g) = op_code (fr_op f) + 1 \<and> fr_rid g = fr_rid f \<and>
     op_hdr_size (op_code (fr_op g)) = Some (length (fr_hdr g)) \<and> (fr_body g = [] \<or> op_allows_body (op_code (fr_op g)))"

definition typed_sends :: "frame \<Rightarrow> craft_tcp_server handled \<Rightarrow> bool" where
  "typed_sends f h \<longleftrightarrow> (\<forall>out s'. h = Reply out s' \<longrightarrow> (\<exists>g. out = frame_bytes g \<and> reply_typed f g))"

lemma typed_sendsI [intro]: "reply_typed f (fst x) \<Longrightarrow> typed_sends f (sends x)"
  by (auto simp: typed_sends_def sends_def)

lemma typed_may_crashI [intro]: "(\<And>g s'. x = Some (g, s') \<Longrightarrow> reply_typed f g) \<Longrightarrow> typed_sends f (may_crash s x)"
  by (auto simp: may_crash_def typed_sends_def sends_def split: option.splits)

lemma resolve_frame_typed: "fr_op f = Op_resolve \<Longrightarrow> reply_typed f (resolve_frame (frame_msg f) r)"
  by (auto simp: resolve_frame_def reply_typed_def op_allows_body_def split: sum.splits)

lemma io_handlers_typed:
  "fr_op f = Op_write \<Longrightarrow> reply_typed f (fst (on_write (frame_msg f) s))"
  "fr_op f = Op_keepalive \<Longrightarrow> reply_typed f (fst (on_keep_alive (frame_msg f) s))"
  "fr_op f = Op_resolve \<Longrightarrow> reply_typed f (fst (on_resolve (frame_msg f) s))"
  "fr_op f = Op_read \<Longrightarrow> on_read env (frame_msg f) s = Some (g, s') \<Longrightarrow> reply_typed f g"
proof -
  show "fr_op f = Op_write \<Longrightarrow> reply_typed f (fst (on_write (frame_msg f) s))"
    by (simp add: on_write_def reply_typed_def split_beta)
  show "fr_op f = Op_keepalive \<Longrightarrow> reply_typed f (fst (on_keep_alive (frame_msg f) s))"
    by (simp add: on_keep_alive_def reply_typed_def split_beta)
  show "fr_op f = Op_resolve \<Longrightarrow> reply_typed f (fst (on_resolve (frame_msg f) s))"
    by (simp add: on_resolve_def resolve_frame_typed Let_def split_beta)
  have hdr: "length (fst (snd (read_core t req m))) = 24" for t req m
    by (simp add: read_core_def Let_def split: prod.splits sum.splits)
  show "fr_op f = Op_read \<Longrightarrow> on_read env (frame_msg f) s = Some (g, s') \<Longrightarrow> reply_typed f g"
    using hdr [of "ts_session_term s" "frame_msg f" "ts_mem s"]
    by (auto simp: on_read_def reply_typed_def op_allows_body_def split: if_splits prod.splits)
qed

lemma session_handlers_typed:
  "fr_op f = Op_helo \<Longrightarrow> on_helo env (frame_msg f) s = Some (g, s') \<Longrightarrow> reply_typed f g"
  "fr_op f = Op_logout \<Longrightarrow> reply_typed f (fst (on_logout (frame_msg f) s))"
  by (auto simp: on_helo_def on_logout_def reply_typed_def Let_def split: option.splits)

lemma peer_handlers_typed:
  "fr_op f = Op_create_volume \<Longrightarrow> reply_typed f (fst (on_create_volume env (frame_msg f) s))"
  "fr_op f = Op_get_rs_commit_lsn \<Longrightarrow> on_get_rs_commit_lsn env (frame_msg f) s = Some (g, s') \<Longrightarrow> reply_typed f g"
  "fr_op f = Op_fetch_data \<Longrightarrow> reply_typed f (fst (on_fetch_data (frame_msg f) s))"
  by (auto simp: on_create_volume_def on_get_rs_commit_lsn_def on_fetch_data_def reply_typed_def op_allows_body_def Let_def
      fetch_data_rsp.length_put split: option.splits prod.splits sum.splits)

text \<open>The reply to a login that fails has no operation header, so it is the start of a longer message.\<close>

definition bare_login_reply :: "frame \<Rightarrow> frame \<Rightarrow> bool" where
  "bare_login_reply f g \<longleftrightarrow> fr_op f = Op_login \<and> fr_op g = Op_login_rsp \<and> fr_status g \<noteq> status_code St_ok \<and> fr_hdr g = [] \<and> fr_body g = []"

lemma on_login_typed:
  assumes "fr_op f = Op_login" "on_login env (frame_msg f) s = Some (g, s')"
  shows "reply_typed f g \<or> bare_login_reply f g"
  using assms
  by (auto simp: on_login_def reply_typed_def bare_login_reply_def login_rsp_of_def op_allows_body_def Let_def
      login_rsp.length_put wf_login_rsp_def split: option.splits prod.splits sum.splits if_splits)

lemma bare_login_incomplete:
  assumes "bare_login_reply f g"
  shows "parse_message (frame_bytes g) mx no_digest = Inl incomplete"
proof -
  let ?b = "frame_message [] Op_login_rsp (fr_status g) (fr_rid g) [] [] no_digest"
  have l: "length ?b = 8" by (simp add: length_frame_message no_digest_def)
  have "get_msg_hdr (take 8 (?b @ [])) = frame_hdr Op_login_rsp (fr_status g) (fr_rid g) []" by (rule get_hdr_frame) simp
  then have "get_msg_hdr ?b = frame_hdr Op_login_rsp (fr_status g) (fr_rid g) []" using l by simp
  then have "parse_message ?b mx no_digest = Inl incomplete"
    using l by (simp add: parse_message_def Let_def frame_hdr_def no_digest_def)
  then show ?thesis using assms by (simp add: frame_bytes_def bare_login_reply_def)
qed

lemma handled_typed:
  assumes "fr_op f \<noteq> Op_login"
  shows "typed_sends f (tcp_handle env (frame_msg f) s)"
proof -
  have crash: "typed_sends f (may_crash s (on_helo e (frame_msg f) s))" if "fr_op f = Op_helo" for e
    using session_handlers_typed(1) [OF that] by blast
  have crash': "typed_sends f (may_crash s (on_read e (frame_msg f) s))" if "fr_op f = Op_read" for e
    using io_handlers_typed(4) [OF that] by blast
  have crash'': "typed_sends f (may_crash s (on_get_rs_commit_lsn e (frame_msg f) s))" if "fr_op f = Op_get_rs_commit_lsn" for e
    using peer_handlers_typed(2) [OF that] by blast
  show ?thesis
    using assms
    by (cases "fr_op f")
      (auto simp: tcp_handle_def typed_sends_def [of _ "Reset s"] crash crash' crash''
        intro: io_handlers_typed session_handlers_typed peer_handlers_typed)
qed

section \<open>Properties\<close>

text \<open>C10: A write through the proxy is a write on the replica. With a bound connection and an active
  session of the same term, however the socket cuts the request and the reply, the proxy returns
  exactly what the synchronous core of the server's replica returns, errors included, the replica
  is the one that core leaves, and both ends of the connection are ready for the next call.\<close>

theorem tcp_write_over_wire:
  assumes "ts_session_active s" and "ts_session_term s = ch_term hdr" and "proxy_bound r (ch_term hdr)"
    and "io_args_ok hdr dlsn addr len" and "length (write_payload data) \<le> unat (ge_max_tx (ts_geo s))"
    and "do_write hdr dlsn addr len (body_bytes (write_payload data)) (ts_mem s) = (res, m)" and "lsns_ok (peek_lsns m)"
    and "sends_all (fst (oi_op io)) (frame_bytes (write_request r hdr dlsn addr len data))"
    and "carries (frame_bytes (write_request r hdr dlsn addr len data)) sio"
    and "tcp_serve env s \<lparr>rv_rx = [], rv_io = sio\<rparr> = (outs, s', fin)" and "carries (concat outs) (snd (oi_op io))"
  shows "tcp_write None io hdr dlsn addr len data r = (Some res, next_call r) \<and> s' = with_mem m s \<and> fin = Conn_waiting"
  by (rule write_over_wire [OF assms])

text \<open>The examples of the witnesses: a server with 512-byte blocks in an active session at term 1, a
  proxy bound at it, and sockets that pass a message on in one piece.\<close>

definition ex_geo :: server_geometry where
  "ex_geo = \<lparr>ge_capacity = 4096, ge_lba_size = 512, ge_max_tx = 4096, ge_member = \<lparr>mb_id = replicate 16 1, mb_addr = [49]\<rparr>\<rparr>"

definition ex_server :: craft_tcp_server where
  "ex_server = (let s = make_tcp_server ex_geo \<lparr>mg_id = replicate 16 1, mg_replicas = Map.empty, mg_volumes = Map.empty\<rparr> False
     in (with_mem (cold_apply_login 9 1 (ts_mem s)) s)\<lparr>ts_next_term := 1, ts_session_term := 1, ts_session_active := True\<rparr>)"

definition ex_proxy :: "nat tcp_replica" where
  "ex_proxy = \<lparr>tr_id = replicate 16 1, tr_vol_id = replicate 16 5, tr_conn = fresh_client, tr_connected = True, tr_bound = True,
     tr_bound_term = 1, tr_max_tx = 4096, tr_lba = 512, tr_slots = [], tr_stop = False\<rparr>"

definition ex_env :: "message \<Rightarrow> craft_tcp_server \<Rightarrow> server_env" where
  "ex_env req s = \<lparr>se_login = \<lparr>ev_raft_enabled = False, ev_is_leader = False, ev_leader_id = replicate 16 0, ev_members = [],
       ev_poll = (\<lambda>p t b. Inl (Craft REPLICA_DOWN)), ev_fetch = (\<lambda>p l. Inl (Craft REPLICA_DOWN)), ev_propose = (\<lambda>j. None)\<rparr>,
     se_commit_worker = id, se_created = Inr (), se_now = 0, se_alloc = (\<lambda>n. n \<le> 4096)\<rparr>"

definition one_piece :: "byte list \<Rightarrow> io_result list" where
  "one_piece bs = (if bs = [] then [] else [Rx_data bs])"

definition ex_serve :: "frame \<Rightarrow> byte list list \<times> craft_tcp_server \<times> serve_end" where
  "ex_serve f = tcp_serve ex_env ex_server \<lparr>rv_rx = [], rv_io = one_piece (frame_bytes f)\<rparr>"

definition ex_io :: "frame \<Rightarrow> op_io" where
  "ex_io f = \<lparr>oi_ready = Inl Net_setup, oi_reply = Inl Net_setup, oi_connect = False, oi_helo = ([], []),
     oi_op = (replicate 2000 1, one_piece (concat (fst (ex_serve f))))\<rparr>"

definition ex_hdr :: client_hdr where
  "ex_hdr = \<lparr>ch_term = 1, ch_commit_lsn = -1, ch_all_committed_lsn = -1, ch_client_token = 9\<rparr>"

lemma carries_one_piece: "carries bs (one_piece bs)"
  by (simp add: carries_def one_piece_def)

lemma ex_serve_parts: "tcp_serve ex_env ex_server \<lparr>rv_rx = [], rv_io = one_piece (frame_bytes f)\<rparr> =
    (fst (ex_serve f), fst (snd (ex_serve f)), snd (snd (ex_serve f)))"
  by (simp add: ex_serve_def)

lemma ex_io_op: "oi_op (ex_io f) = (replicate 2000 1, one_piece (concat (fst (ex_serve f))))"
  by (simp add: ex_io_def)

lemma ex_simps:
  "ts_session_active ex_server" "ts_session_term ex_server = 1" "ge_max_tx (ts_geo ex_server) = 4096"
  "ts_mem ex_server = cold_apply_login 9 1 (make_replica \<lparr>ep_id = replicate 16 1, ep_addr = [49]\<rparr> 512)"
  "proxy_bound ex_proxy (Suc 0)" "ch_term ex_hdr = 1" "ch_commit_lsn ex_hdr = -1" "ch_all_committed_lsn ex_hdr = -1"
  by (simp_all add: ex_server_def ex_geo_def make_tcp_server_def make_raft_replica_def with_mem_def ts_mem_def proxy_bound_def
      ex_proxy_def idle_conn_def fresh_client_def ex_hdr_def Let_def)

lemma ex_args: "io_args_ok ex_hdr 0 1024 512" "io_args_ok ex_hdr 0 0 512"
  by (simp_all add: io_args_ok_def ex_simps i64_ok_def)

lemma ex_sends: "length (frame_bytes f) \<le> 2000 \<Longrightarrow> sends_all (fst (oi_op (ex_io g))) (frame_bytes f)"
  by (simp add: ex_io_op sends_all_def list_all_iff)

lemma frame_bytes_length: "length (frame_bytes f) = 8 + length (fr_hdr f) + length (fr_body f)"
  by (simp add: frame_bytes_def length_frame_message no_digest_def)

definition ex_write :: frame where
  "ex_write = write_request ex_proxy ex_hdr 0 1024 512 \<lparr>sg_size = 512, sg_iovs = [replicate 512 7]\<rparr>"

theorem tcp_write_over_wire_witness:
  "fst (tcp_write None (ex_io ex_write) ex_hdr 0 1024 512 \<lparr>sg_size = 512, sg_iovs = [replicate 512 7]\<rparr> ex_proxy) =
     Some (Inr \<lparr>lp_commit_lsn = -1, lp_last_append_lsn = 0\<rparr>) \<and>
   map_option sl_bytes (peek_slot 0 (ts_mem (fst (snd (ex_serve ex_write))))) = Some (Some (replicate 512 7))"
proof -
  let ?data = "\<lparr>sg_size = 512, sg_iovs = [replicate 512 (7 :: byte)]\<rparr>"
  let ?w = "do_write ex_hdr 0 1024 512 (body_bytes (write_payload ?data)) (ts_mem ex_server)"
  have w: "write_payload ?data = replicate 512 7" "body_bytes (replicate 512 7) = Some (replicate 512 7)"
    by (simp_all add: write_payload_def body_bytes_def)
  have res: "fst ?w = Inr \<lparr>lp_commit_lsn = -1, lp_last_append_lsn = 0\<rparr>" "peek_lsns (snd ?w) = \<lparr>lp_commit_lsn = -1, lp_last_append_lsn = 0\<rparr>"
    "map_option sl_bytes (peek_slot 0 (snd ?w)) = Some (Some (replicate 512 7))"
    unfolding w by (simp_all add: do_write_def ex_simps cold_apply_login_def make_replica_def misaligned_def Let_def apply_up_to_stop
        peek_lsns_def peek_slot_def)
  have "tcp_write None (ex_io ex_write) ex_hdr 0 1024 512 ?data ex_proxy = (Some (fst ?w), next_call ex_proxy) \<and>
      fst (snd (ex_serve ex_write)) = with_mem (snd ?w) ex_server \<and> snd (snd (ex_serve ex_write)) = Conn_waiting"
  proof (rule tcp_write_over_wire [where env = ex_env and s = ex_server and sio = "one_piece (frame_bytes ex_write)" and outs = "fst (ex_serve ex_write)"])
    show "lsns_ok (peek_lsns (snd ?w))" using res by (simp add: lsns_ok_def i64_ok_def)
    show "sends_all (fst (oi_op (ex_io ex_write))) (frame_bytes (write_request ex_proxy ex_hdr 0 1024 512 ?data))"
      by (rule ex_sends) (simp add: frame_bytes_length write_request_def w)
  qed (simp_all add: ex_simps ex_args w ex_write_def [symmetric] carries_one_piece ex_serve_parts ex_io_op)
  then show ?thesis using res by (simp add: ts_mem_def with_mem_def)
qed

text \<open>C11: A read through the proxy is a read on the replica. For a range of at most the default payload and
  blocks of at least 512 bytes, the extent table and the packed bytes of the reply, cut by the socket
  in any way and scattered by the client, give the caller the buffer, the extents and the watermarks
  that a read by the replica itself into that buffer gives, errors included; a reply of this size
  always fits the bound of the client's parser.\<close>

theorem tcp_read_over_wire:
  assumes "ts_session_active s" and "ts_session_term s = ch_term hdr" and "proxy_bound r (ch_term hdr)"
    and "io_args_ok hdr H addr len" and "replica_inv (ts_mem s)"
    and "addr + len < 2 ^ 64" and "len \<le> 524288" and "512 \<le> rp_page_size (ts_mem s)"
    and "sg_iovs dest = [v]" and "sg_size dest = length v" and "len \<le> length v"
    and "do_read hdr H addr len dest (ts_mem s) = (res, bufs, m)" and "lsns_ok (peek_lsns m)"
    and "se_alloc (env (frame_msg (read_request r hdr H addr len)) s) len"
    and "sends_all (fst (oi_op io)) (frame_bytes (read_request r hdr H addr len))"
    and "carries (frame_bytes (read_request r hdr H addr len)) sio"
    and "tcp_serve env s \<lparr>rv_rx = [], rv_io = sio\<rparr> = (outs, s', fin)" and "carries (concat outs) (snd (oi_op io))"
  shows "tcp_read None io hdr H addr len dest r = (Some (res, bufs), next_call r) \<and> s' = with_mem m s \<and> fin = Conn_waiting"
  by (rule read_over_wire [OF assms])

lemma ex_inv: "replica_inv (ts_mem ex_server)"
proof -
  have "replica_inv (make_replica \<lparr>ep_id = replicate 16 1, ep_addr = [49]\<rparr> 512)" by (rule make_replica_inv) simp_all
  then show ?thesis unfolding ex_simps by (simp add: replica_inv_def cold_apply_login_def)
qed

lemma ex_read:
  "do_read ex_hdr 0 0 512 \<lparr>sg_size = 512, sg_iovs = [replicate 512 1]\<rparr> (ts_mem ex_server) =
     (Inr \<lparr>rr_extents = [\<lparr>ie_addr = 0, ie_len = 512, ie_hole = True\<rparr>], rr_lsns = \<lparr>lp_commit_lsn = -1, lp_last_append_lsn = -1\<rparr>\<rparr>,
      [replicate 512 0], (ts_mem ex_server)\<lparr>rp_reads_served := 1\<rparr>)"
  by (simp add: do_read_def ex_simps cold_apply_login_def make_replica_def misaligned_def Let_def apply_up_to_stop read_range_def
      read_block_def read_page_def highest_slot_le_def sg_write.simps push_extent_def peek_lsns_def om_upto_def)

theorem tcp_read_over_wire_witness:
  "fst (tcp_read None (ex_io (read_request ex_proxy ex_hdr 0 0 512)) ex_hdr 0 0 512 \<lparr>sg_size = 512, sg_iovs = [replicate 512 1]\<rparr> ex_proxy) =
     Some (Inr \<lparr>rr_extents = [\<lparr>ie_addr = 0, ie_len = 512, ie_hole = True\<rparr>], rr_lsns = \<lparr>lp_commit_lsn = -1, lp_last_append_lsn = -1\<rparr>\<rparr>,
           [replicate 512 0])"
proof -
  let ?f = "read_request ex_proxy ex_hdr 0 0 512"
  have "tcp_read None (ex_io ?f) ex_hdr 0 0 512 \<lparr>sg_size = 512, sg_iovs = [replicate 512 1]\<rparr> ex_proxy =
      (Some (Inr \<lparr>rr_extents = [\<lparr>ie_addr = 0, ie_len = 512, ie_hole = True\<rparr>], rr_lsns = \<lparr>lp_commit_lsn = -1, lp_last_append_lsn = -1\<rparr>\<rparr>,
             [replicate 512 0]), next_call ex_proxy) \<and>
      fst (snd (ex_serve ?f)) = with_mem ((ts_mem ex_server)\<lparr>rp_reads_served := 1\<rparr>) ex_server \<and> snd (snd (ex_serve ?f)) = Conn_waiting"
  proof (rule tcp_read_over_wire [where env = ex_env and s = ex_server and sio = "one_piece (frame_bytes ?f)" and outs = "fst (ex_serve ?f)"
        and v = "replicate 512 1"])
    show "do_read ex_hdr 0 0 512 \<lparr>sg_size = 512, sg_iovs = [replicate 512 1]\<rparr> (ts_mem ex_server) =
     (Inr \<lparr>rr_extents = [\<lparr>ie_addr = 0, ie_len = 512, ie_hole = True\<rparr>], rr_lsns = \<lparr>lp_commit_lsn = -1, lp_last_append_lsn = -1\<rparr>\<rparr>,
      [replicate 512 0], (ts_mem ex_server)\<lparr>rp_reads_served := 1\<rparr>)" by (rule ex_read)
    show "sends_all (fst (oi_op (ex_io ?f))) (frame_bytes ?f)" by (rule ex_sends) (simp add: frame_bytes_length read_request_def)
    show "replica_inv (ts_mem ex_server)" by (rule ex_inv)
    show "se_alloc (ex_env (frame_msg ?f) ex_server) 512" by (simp add: ex_env_def)
  qed (simp_all add: ex_simps ex_args carries_one_piece ex_serve_parts ex_io_op cold_apply_login_def make_replica_def peek_lsns_def
      lsns_ok_def i64_ok_def)
  then show ?thesis by simp
qed

text \<open>C23: A peer fetch is the replica's own fetch. The slots a peer asks of a server over the connection
  arrive in the order asked, with their data, their empties and their zero runs, missing dLSNs left
  out, exactly as the server's replica holds them, and the fetch changes nothing at the server.\<close>

theorem peer_fetch_over_wire:
  assumes "tp_connected p" and "idle_conn (tp_conn p)" and "replica_inv (ts_mem s)"
    and "\<forall>d \<in> set lsns. i64_ok d" and "length lsns * 8 \<le> unat (ge_max_tx (ts_geo s))"
    and "\<forall>j \<in> set (do_fetch lsns (ts_mem s)). js_len j < 2 ^ 32" and "length (fetch_body (do_fetch lsns (ts_mem s))) \<le> 524288"
    and "sends_all ns (frame_bytes (fetch_request p lsns))" and "carries (frame_bytes (fetch_request p lsns)) sio"
    and "tcp_serve env s \<lparr>rv_rx = [], rv_io = sio\<rparr> = (outs, s', fin)" and "carries (concat outs) io"
  shows "peer_fetch_data ok ns io lsns p = (Fetch_done (Inr (do_fetch lsns (ts_mem s))), p\<lparr>tp_next_rid := tp_next_rid p + 1\<rparr>) \<and> s' = s"
  by (rule fetch_over_wire [OF assms])

definition ex_written :: craft_tcp_server where
  "ex_written = with_mem (snd (do_write ex_hdr 0 1024 512 (Some (replicate 512 7)) (ts_mem ex_server))) ex_server"

definition ex_peer :: tcp_peer where
  "ex_peer = \<lparr>tp_conn = \<lparr>rv_rx = [], rv_io = []\<rparr>, tp_connected = True, tp_next_rid = 4\<rparr>"

definition ex_fetch :: "byte list list \<times> craft_tcp_server \<times> serve_end" where
  "ex_fetch = tcp_serve ex_env ex_written \<lparr>rv_rx = [], rv_io = one_piece (frame_bytes (fetch_request ex_peer [3, 0]))\<rparr>"

lemma ex_written_mem: "ts_mem ex_written = snd (do_write ex_hdr 0 1024 512 (Some (replicate 512 7)) (ts_mem ex_server))"
  by (simp add: ex_written_def with_mem_def ts_mem_def)

lemma ex_written_inv: "replica_inv (ts_mem ex_written)"
  unfolding ex_written_mem by (rule do_write_inv [OF ex_inv]) (simp_all add: ex_simps cold_apply_login_def make_replica_def)

lemma ex_written_fetch:
  "do_fetch [3, 0] (ts_mem ex_written) = [\<lparr>js_lsn = 0, js_is_empty = False, js_all_zeros = False, js_lba = 2, js_len = 1,
     js_data = \<lparr>sg_size = 512, sg_iovs = [replicate 512 7]\<rparr>\<rparr>]"
proof -
  have "rp_journal (ts_mem ex_written) = [(0, \<lparr>sl_term = 1, sl_lba = 2, sl_len = 1, sl_all_zeros = False, sl_is_empty = False,
     sl_bytes = Some (replicate 512 7)\<rparr>)]"
    by (simp add: ex_written_mem do_write_def ex_simps cold_apply_login_def make_replica_def misaligned_def Let_def apply_up_to_stop u32_def)
  then show ?thesis by (simp add: do_fetch_def List.map_filter_def journal_slot_of_def)
qed

theorem peer_fetch_over_wire_witness:
  "fst (peer_fetch_data True (replicate 2000 1) (one_piece (concat (fst ex_fetch))) [3, 0] ex_peer) =
     Fetch_done (Inr [\<lparr>js_lsn = 0, js_is_empty = False, js_all_zeros = False, js_lba = 2, js_len = 1,
       js_data = \<lparr>sg_size = 512, sg_iovs = [replicate 512 7]\<rparr>\<rparr>])"
proof -
  have "peer_fetch_data True (replicate 2000 1) (one_piece (concat (fst ex_fetch))) [3, 0] ex_peer =
      (Fetch_done (Inr (do_fetch [3, 0] (ts_mem ex_written))), ex_peer\<lparr>tp_next_rid := tp_next_rid ex_peer + 1\<rparr>) \<and> fst (snd ex_fetch) = ex_written"
  proof (rule peer_fetch_over_wire [where env = ex_env and sio = "one_piece (frame_bytes (fetch_request ex_peer [3, 0]))"
        and outs = "fst ex_fetch" and fin = "snd (snd ex_fetch)"])
    show "sends_all (replicate 2000 1) (frame_bytes (fetch_request ex_peer [3, 0]))"
      by (simp add: sends_all_def list_all_iff frame_bytes_length fetch_request_def fetch_data_req.length_put)
    show "length (fetch_body (do_fetch [3, 0] (ts_mem ex_written))) \<le> 524288"
      by (simp add: ex_written_fetch fetch_body_def fetch_slot_desc.length_put fetch_desc_of_def wf_fetch_slot_desc_def)
    show "length [3, 0 :: int] * 8 \<le> unat (ge_max_tx (ts_geo ex_written))"
      using ex_simps(3) by (simp add: ex_written_def with_mem_def)
  qed (simp_all add: ex_peer_def idle_conn_def ex_written_inv i64_ok_def ex_written_fetch carries_one_piece ex_fetch_def)
  then show ?thesis by (simp add: ex_written_fetch)
qed

text \<open>C25: Replies are typed by their requests. Whatever a client sends and whatever state the server is in,
  the reply is a frame with the reply code of the request's operation, the request's id, an operation
  header of exactly the size that code has, and a body only where the code allows one. The only
  exception is a login that fails or is redirected: its reply has no operation header, and no parser
  completes it, whatever its bound.\<close>

theorem tcp_reply_typed:
  assumes "tcp_handle env (frame_msg f) s = Reply out s'"
  shows "\<exists>g. out = frame_bytes g \<and>
     (reply_typed f g \<or> (bare_login_reply f g \<and> parse_message out mx no_digest = Inl incomplete))"
proof (cases "fr_op f = Op_login")
  case True
  then obtain g where "on_login (env (frame_msg f) s) (frame_msg f) s = Some (g, s')" "out = frame_bytes g"
    using assms by (auto simp: tcp_handle_def may_crash_def sends_def split: option.splits)
  then show ?thesis using on_login_typed [OF True] bare_login_incomplete by blast
next
  case False
  then show ?thesis using handled_typed [OF False, of env s] assms unfolding typed_sends_def by blast
qed

definition ex_login :: frame where
  "ex_login = request_frame Op_login 3 (put_login_req \<lparr>lq_volume_id = replicate 16 5, lq_client_token = 9\<rparr>) []"

theorem tcp_reply_typed_witness:
  "\<exists>out s' g. tcp_handle ex_env (frame_msg ex_login) ex_server = Reply out s' \<and> out = frame_bytes g \<and>
     (reply_typed ex_login g \<or> (bare_login_reply ex_login g \<and> parse_message out 4096 no_digest = Inl incomplete))"
proof -
  obtain out s' where h: "tcp_handle ex_env (frame_msg ex_login) ex_server = Reply out s'"
    by (auto simp: tcp_handle_def may_crash_def sends_def ex_login_def on_login_def srv_establish_def apply_login_def ex_env_def login_reply_def Let_def)
  from tcp_reply_typed [OF h, of 4096] h show ?thesis by blast
qed

text \<open>C26: The cold bind of a server without the consensus group. A HELO with a term other than the
  server's own is answered with success, yet the replica is established at the server's old term while
  the connection is bound at the presented one: every write and keep-alive that follows is refused and changes
  nothing. Only the same HELO sent again establishes the presented term.\<close>

theorem cold_helo_rebinds:
  assumes "\<not> ev_raft_enabled (se_login env)" and "unat (hq_term (get_helo_req (ms_op_header req))) \<noteq> ts_session_term s"
    and "on_helo env req s = Some (g, s1)"
  shows "fr_status g = status_code St_ok \<and> ts_session_active s1 \<and>
     (\<forall>w. fr_status (fst (on_write w s1)) \<noteq> status_code St_ok \<and> snd (on_write w s1) = s1) \<and>
     (\<forall>k. fr_status (fst (on_keep_alive k s1)) = status_code St_stale_term \<and> snd (on_keep_alive k s1) = s1) \<and>
     (\<exists>s2. on_helo env req s1 = Some (g, s2) \<and> rp_term (ts_mem s2) = unat (hq_term (get_helo_req (ms_op_header req))))"
proof -
  let ?h = "get_helo_req (ms_op_header req)"
  have est: "srv_establish env tok trm r = Some (Inr (login_reply [rp_ep (rx_mem r)] (rp_last_append_lsn (rx_mem r)) (replicate 16 0)),
      on_mem (cold_apply_login tok trm) r)" for tok trm r
    using assms(1) by (simp add: srv_establish_def apply_login_def)
  have helo: "on_helo env req t = Some (reply_of req Op_helo_rsp St_ok [] [],
      t\<lparr>ts_replica := on_mem (cold_apply_login (unat (hq_client_token ?h)) (ts_session_term t)) (ts_replica t),
        ts_session_term := unat (hq_term ?h), ts_session_active := True\<rparr>)" for t
    using assms(1) by (simp add: on_helo_def helo_check_def est Let_def)
  have s1: "g = reply_of req Op_helo_rsp St_ok [] []" "ts_session_active s1" "ts_session_term s1 = unat (hq_term ?h)"
    "rp_term (ts_mem s1) = ts_session_term s"
    using assms(3) by (auto simp: helo ts_mem_def on_mem_def cold_apply_login_def)
  have same: "with_mem (ts_mem s1) s1 = s1" by (simp add: with_mem_def ts_mem_def)
  have w: "\<exists>e. do_write (io_hdr (ts_session_term s1) h) d a l b (ts_mem s1) = (Inl e, ts_mem s1)" for h d a l b
    using s1(3,4) assms(2) by (simp add: do_write_def io_hdr_def)
  have "fr_status (fst (on_write x s1)) \<noteq> status_code St_ok \<and> snd (on_write x s1) = s1" for x
    using w [of "wq_hdr (get_write_req (ms_op_header x))" "sint (wq_dlsn (get_write_req (ms_op_header x)))"
        "unat (wq_addr (get_write_req (ms_op_header x)))" "unat (wq_len (get_write_req (ms_op_header x)))" "body_bytes (ms_body x)"]
      s1(2) same by (auto simp: on_write_def write_core_def Let_def)
  moreover have "fr_status (fst (on_keep_alive k s1)) = status_code St_stale_term \<and> snd (on_keep_alive k s1) = s1" for k
    using s1 assms(2) same by (simp add: on_keep_alive_def keep_alive_core_def do_keep_alive_def io_hdr_def)
  moreover have "\<exists>s2. on_helo env req s1 = Some (g, s2) \<and> rp_term (ts_mem s2) = unat (hq_term ?h)"
    using s1 by (simp add: helo ts_mem_def on_mem_def cold_apply_login_def)
  ultimately show ?thesis using s1 by simp
qed

definition ex_helo :: message where
  "ex_helo = frame_msg (request_frame Op_helo 2 (put_helo_req \<lparr>hq_volume_id = replicate 16 5, hq_client_token = 9, hq_term = 3\<rparr>) [])"

theorem cold_helo_rebinds_witness:
  "\<exists>g s1. on_helo (ex_env ex_helo ex_server) ex_helo ex_server = Some (g, s1) \<and> fr_status g = status_code St_ok \<and>
     snd (on_write (frame_msg ex_write) s1) = s1 \<and> fr_status (fst (on_write (frame_msg ex_write) s1)) \<noteq> status_code St_ok"
proof -
  have "get_helo_req (ms_op_header ex_helo) = \<lparr>hq_volume_id = replicate 16 5, hq_client_token = 9, hq_term = 3\<rparr>"
    by (simp add: ex_helo_def helo_req.get_put_exact wf_helo_req_def)
  moreover obtain g s1 where "on_helo (ex_env ex_helo ex_server) ex_helo ex_server = Some (g, s1)"
    by (auto simp: on_helo_def helo_check_def srv_establish_def apply_login_def ex_env_def Let_def)
  moreover have "\<not> ev_raft_enabled (se_login (ex_env ex_helo ex_server))" by (simp add: ex_env_def)
  ultimately show ?thesis
    using cold_helo_rebinds [of "ex_env ex_helo ex_server" ex_helo ex_server g s1] ex_simps(2) by auto
qed

end
