(* ===== verification/TestDriver.thy ===== *)
theory TestDriver
  imports Wired
begin

text \<open>
  The Python test driver's volume creation (\<open>tools/craft_test_driver/craft_wire.py\<close>, \<open>volumes.py\<close>): a second
  implementation of the wire format, written by hand with \<open>struct.pack\<close>. An exception is a left value.
\<close>

section \<open>The request and its reply\<close>

datatype py_exn = Value_error | Struct_error | Connection_error | Os_error | Runtime_error nat

text \<open>One integer field of \<open>n\<close> bytes, little endian; a value that does not fit raises.\<close>

definition py_pack :: "nat \<Rightarrow> int \<Rightarrow> py_exn + byte list" where
  "py_pack n v = (if 0 \<le> v \<and> v < 256 ^ n then Inr (le_put n (nat v)) else Inl Struct_error)"

text \<open>The fields of one format string, in order.\<close>

fun py_packs :: "(nat \<times> int) list \<Rightarrow> py_exn + byte list" where
  "py_packs [] = Inr []"
| "py_packs ((n, v) # fs) =
     (case py_pack n v of
        Inl e \<Rightarrow> Inl e
      | Inr b \<Rightarrow> (case py_packs fs of Inl e \<Rightarrow> Inl e | Inr bs \<Rightarrow> Inr (b @ bs)))"

definition py_put_member :: "member \<Rightarrow> py_exn + byte list" where
  "py_put_member m =
     (if length (mb_id m) \<noteq> 16 then Inl Value_error
      else case py_packs [(2, int (length (mb_addr m)))] of
        Inl e \<Rightarrow> Inl e
      | Inr b \<Rightarrow> Inr (mb_id m @ b @ mb_addr m))"

fun py_join_members :: "member list \<Rightarrow> py_exn + byte list" where
  "py_join_members [] = Inr []"
| "py_join_members (m # ms) =
     (case py_put_member m of
        Inl e \<Rightarrow> Inl e
      | Inr b \<Rightarrow> (case py_join_members ms of Inl e \<Rightarrow> Inl e | Inr bs \<Rightarrow> Inr (b @ bs)))"

text \<open>The bytes \<open>create_volume\<close> sends; \<open>vol\<close> is the 16 bytes of a \<open>uuid.UUID\<close>.\<close>

definition py_create_request :: "byte list \<Rightarrow> int \<Rightarrow> int \<Rightarrow> member list \<Rightarrow> py_exn + byte list" where
  "py_create_request vol capacity lba_size members =
     (case py_join_members members of
        Inl e \<Rightarrow> Inl e
      | Inr body \<Rightarrow>
          (case py_packs [(8, capacity), (4, lba_size), (4, int (length members))] of
             Inl e \<Rightarrow> Inl e
           | Inr oh \<Rightarrow>
               (case py_packs [(1, 15), (1, 0), (2, 1), (4, int (length body))] of
                  Inl e \<Rightarrow> Inl e
                | Inr h \<Rightarrow> Inr (h @ (vol @ oh) @ body))))"

text \<open>\<open>recv\<close> takes at most what is still needed and leaves the rest in the socket; \<open>None\<close> waits.\<close>

fun recv_exact :: "nat \<Rightarrow> byte list \<Rightarrow> io_result list \<Rightarrow> (py_exn + byte list) option \<times> io_result list" where
  "recv_exact n buf [] = (if n \<le> length buf then (Some (Inr buf), []) else (None, []))"
| "recv_exact n buf (x # io) =
     (if n \<le> length buf then (Some (Inr buf), x # io)
      else case x of
        Rx_data bs \<Rightarrow>
          if bs = [] then (Some (Inl Connection_error), io)
          else if length bs \<le> n - length buf then recv_exact n (buf @ bs) io
          else (Some (Inr (buf @ take (n - length buf) bs)), Rx_data (drop (n - length buf) bs) # io)
      | Rx_eof \<Rightarrow> (Some (Inl Connection_error), io)
      | _ \<Rightarrow> (Some (Inl Os_error), io))"

text \<open>
  \<open>connected\<close>: the connect succeeds; \<open>sent\<close>: \<open>sendall\<close> does; \<open>io\<close>: what the socket receives. The reply's
  header is unpacked as one byte of code, one of status, an id and a length.
\<close>

definition py_create_volume ::
  "bool \<Rightarrow> bool \<Rightarrow> io_result list \<Rightarrow> byte list \<Rightarrow> int \<Rightarrow> int \<Rightarrow> member list \<Rightarrow> (py_exn + nat) option" where
  "py_create_volume connected sent io vol capacity lba_size members =
     (case py_create_request vol capacity lba_size members of
        Inl e \<Rightarrow> Some (Inl e)
      | Inr msg \<Rightarrow>
          if \<not> connected then Some (Inl Connection_error)
          else if \<not> sent then Some (Inl Os_error)
          else case recv_exact 8 [] io of
            (None, io1) \<Rightarrow> None
          | (Some (Inl e), io1) \<Rightarrow> Some (Inl e)
          | (Some (Inr h), io1) \<Rightarrow>
              let status = le_get (bytes_at 1 1 h); n = le_get (bytes_at 4 4 h) in
              if n = 0 then Some (Inr status)
              else case recv_exact n [] io1 of
                (None, io2) \<Rightarrow> None
              | (Some (Inl e), io2) \<Rightarrow> Some (Inl e)
              | (Some (Inr b), io2) \<Rightarrow> Some (Inr status))"

section \<open>The registry of volumes\<close>

record driver_volume =
  dv_vol_id :: "byte list"
  dv_members :: "member list"
  dv_capacity :: int
  dv_lba_size :: int

text \<open>\<open>VolumeRegistry.create\<close> on what \<open>create_volume\<close> gave; the registry is the dictionary of the volumes.\<close>

definition registry_create ::
  "py_exn + nat \<Rightarrow> byte list \<Rightarrow> int \<Rightarrow> int \<Rightarrow> member list \<Rightarrow> (byte list \<Rightarrow> driver_volume option)
     \<Rightarrow> (py_exn + driver_volume) \<times> (byte list \<Rightarrow> driver_volume option)" where
  "registry_create created vol capacity lba_size members vols =
     (case created of
        Inl e \<Rightarrow> (Inl e, vols)
      | Inr status \<Rightarrow>
          if status \<noteq> 0 then (Inl (Runtime_error status), vols)
          else let v = \<lparr>dv_vol_id = vol, dv_members = members, dv_capacity = capacity, dv_lba_size = lba_size\<rparr>
               in (Inr v, vols(vol \<mapsto> v)))"

section \<open>Both implementations of the format agree\<close>

definition create_frame :: "byte list \<Rightarrow> nat \<Rightarrow> nat \<Rightarrow> member list \<Rightarrow> frame" where
  "create_frame vol capacity lba_size members = request_frame Op_create_volume 1
     (put_volume_create_req \<lparr>vq_volume_id = vol, vq_capacity = word_of_nat capacity, vq_lba_size = word_of_nat lba_size,
        vq_member_count = word_of_nat (length members)\<rparr>) (concat (map put_member members))"

lemma py_put_member_put: "wf_member m \<Longrightarrow> py_put_member m = Inr (put_member m)"
  by (simp add: py_put_member_def py_pack_def put_member_def wf_member_def put_u16_def unat_of_nat)

lemma py_join_members_put: "\<forall>m \<in> set ms. wf_member m \<Longrightarrow> py_join_members ms = Inr (concat (map put_member ms))"
  by (induction ms) (simp_all add: py_put_member_put)

lemma py_create_request_frame:
  assumes "length vol = 16" "capacity < 2 ^ 64" "lba_size < 2 ^ 32" "\<forall>m \<in> set ms. wf_member m" "length ms < 2 ^ 32"
    "length (concat (map put_member ms)) < 2 ^ 32"
  shows "py_create_request vol (int capacity) (int lba_size) ms = Inr (frame_bytes (create_frame vol capacity lba_size ms))"
  using assms
  by (simp add: py_create_request_def py_join_members_put py_pack_def frame_bytes_def create_frame_def request_frame_def frame_message_def
      put_msg_hdr_def put_volume_create_req_def no_digest_def put_u8_def put_u16_def put_u32_def put_u64_def unat_of_nat Let_def)

lemma recv_exact_carried:
  "length buf + length bs = n \<Longrightarrow> carries bs io \<Longrightarrow> recv_exact n buf io = (Some (Inr (buf @ bs)), [])"
proof (induction io arbitrary: buf bs)
  case Nil
  then show ?case by (simp add: carries_def)
next
  case (Cons x io)
  then obtain b where x: "x = Rx_data b" "b \<noteq> []" by (cases x) (simp_all add: carries_def)
  have "carries (drop (length b) bs) io" "bs = b @ drop (length b) bs" using Cons.prems(2) x by (auto simp: carries_def)
  then obtain cs where cs: "bs = b @ cs" "carries cs io" by blast
  have "recv_exact n (buf @ b) io = (Some (Inr ((buf @ b) @ cs)), [])" using Cons.IH [of "buf @ b" cs] Cons.prems(1) cs by simp
  then show ?case using Cons.prems(1) x cs by (cases b) auto
qed

lemma bare_reply_fields:
  assumes "fr_hdr g = []" "fr_body g = []"
  shows "length (frame_bytes g) = 8" "le_get (bytes_at 1 1 (frame_bytes g)) = unat (fr_status g)"
    "le_get (bytes_at 4 4 (frame_bytes g)) = 0"
proof -
  show l: "length (frame_bytes g) = 8" using assms by (simp add: frame_bytes_length)
  have h: "get_msg_hdr (frame_bytes g) = frame_hdr (fr_op g) (fr_status g) (fr_rid g) []"
    using get_hdr_frame [of 8 "fr_op g" "fr_status g" "fr_rid g" "[]" "[]" no_digest "[]"] l assms by (simp add: frame_bytes_def)
  have "unat (u8_at 1 (frame_bytes g)) = le_get (bytes_at 1 1 (frame_bytes g))"
    "unat (u32_at 4 (frame_bytes g)) = le_get (bytes_at 4 4 (frame_bytes g))"
    unfolding u8_at_def u32_at_def by (rule unat_le_get; simp add: bytes_at_def l)+
  moreover have "u8_at 1 (frame_bytes g) = fr_status g" "u32_at 4 (frame_bytes g) = 0"
    using h by (simp_all add: get_msg_hdr_def frame_hdr_def)
  ultimately show "le_get (bytes_at 1 1 (frame_bytes g)) = unat (fr_status g)" "le_get (bytes_at 4 4 (frame_bytes g)) = 0" by simp_all
qed

text \<open>The status a server gives to a creation.\<close>

definition create_status :: "unit result \<Rightarrow> wire_status" where
  "create_status r = (case r of Inl e \<Rightarrow> to_wire_status e | Inr u \<Rightarrow> St_ok)"

lemma on_create_volume_frame:
  assumes "length vol = 16" "\<forall>m \<in> set ms. wf_member m" "length ms < 2 ^ 32"
    and "srv_create_volume (se_created env) vol (map (\<lambda>m. \<lparr>ep_id = mb_id m, ep_addr = mb_addr m\<rparr>) ms) (ts_manager s) = (res, mg)"
  shows "on_create_volume env (frame_msg (create_frame vol cap lba ms)) s =
    (reply_of (frame_msg (create_frame vol cap lba ms)) Op_create_volume_rsp (create_status res) [] [], s\<lparr>ts_manager := mg\<rparr>)"
proof -
  have "get_volume_create_req (ms_op_header (frame_msg (create_frame vol cap lba ms))) =
      \<lparr>vq_volume_id = vol, vq_capacity = word_of_nat cap, vq_lba_size = word_of_nat lba, vq_member_count = word_of_nat (length ms)\<rparr>"
    using assms(1) by (simp add: create_frame_def volume_create_req.get_put_exact wf_volume_create_req_def)
  moreover have "decode_members (ms_body (frame_msg (create_frame vol cap lba ms))) (word_of_nat (length ms)) = Some ms"
    using decode_members_roundtrip [OF assms(2,3), of "[]"] by (simp add: create_frame_def)
  ultimately show ?thesis using assms(4) by (simp add: on_create_volume_def create_status_def Let_def split: sum.splits)
qed

text \<open>C24: The Python driver and the server speak the same format. A volume creation the driver packs by
  hand, carried to the server in pieces of any size, is decoded by the server to the same volume and
  the same members, and the driver returns the status of the server's answer.\<close>

theorem driver_creates_volume:
  assumes "length vol = 16" and "capacity < 2 ^ 64" and "lba_size < 2 ^ 32" and "\<forall>m \<in> set ms. wf_member m"
    and "length ms < 2 ^ 32" and "length (concat (map put_member ms)) \<le> unat (ge_max_tx (ts_geo s))"
    and "srv_create_volume (se_created (env (frame_msg (create_frame vol capacity lba_size ms)) s)) vol
           (map (\<lambda>m. \<lparr>ep_id = mb_id m, ep_addr = mb_addr m\<rparr>) ms) (ts_manager s) = (res, mg)"
    and "py_create_request vol (int capacity) (int lba_size) ms = Inr msg" and "carries msg sio"
    and "tcp_serve env s \<lparr>rv_rx = [], rv_io = sio\<rparr> = (outs, s', fin)" and "carries (concat outs) io"
  shows "py_create_volume True True io vol (int capacity) (int lba_size) ms = Some (Inr (unat (status_code (create_status res)))) \<and>
     s' = s\<lparr>ts_manager := mg\<rparr> \<and> fin = Conn_waiting"
proof -
  let ?f = "create_frame vol capacity lba_size ms"
  let ?g = "reply_of (frame_msg ?f) Op_create_volume_rsp (create_status res) [] []"
  have "length (concat (map put_member ms)) < 2 ^ 32"
    using assms(6) unsigned_less [of "ge_max_tx (ts_geo s)", where 'a = nat] by simp
  then have req: "py_create_request vol (int capacity) (int lba_size) ms = Inr (frame_bytes ?f)"
    using assms(1-5) by (intro py_create_request_frame)
  have h: "tcp_handle env (frame_msg ?f) s = Reply (frame_bytes ?g) (s\<lparr>ts_manager := mg\<rparr>)"
    using on_create_volume_frame [OF assms(1,4,5,7), of capacity lba_size]
    by (simp add: tcp_handle_def sends_def Let_def) (simp add: create_frame_def)
  have "frame_fits (ge_max_tx (ts_geo s)) ?f"
    using assms(1,6) by (simp add: create_frame_def frame_fits_def frame_ok_def op_allows_body_def volume_create_req.length_put
        wf_volume_create_req_def)
  from tcp_serve_one [OF this _ h] assms(8,9,10) req have o: "outs = [frame_bytes ?g]" "s' = s\<lparr>ts_manager := mg\<rparr>" "fin = Conn_waiting"
    by auto
  have "recv_exact 8 [] io = (Some (Inr ([] @ frame_bytes ?g)), [])"
    using assms(11) o(1) bare_reply_fields(1) [of ?g] by (intro recv_exact_carried) simp_all
  then show ?thesis using req o bare_reply_fields(2,3) [of ?g] by (simp add: py_create_volume_def)
qed

definition ex_members :: "member list" where
  "ex_members = [\<lparr>mb_id = replicate 16 1, mb_addr = [104, 58, 49]\<rparr>, \<lparr>mb_id = replicate 16 2, mb_addr = [104, 58, 50]\<rparr>]"

definition ex_known :: craft_tcp_server where
  "ex_known = ex_server\<lparr>ts_manager := \<lparr>mg_id = replicate 16 1,
     mg_replicas = [replicate 16 1 \<mapsto> \<lparr>ri_id = replicate 16 1, ri_host = [104], ri_raft_port = 7, ri_tcp_port = 1\<rparr>,
                    replicate 16 2 \<mapsto> \<lparr>ri_id = replicate 16 2, ri_host = [104], ri_raft_port = 8, ri_tcp_port = 2\<rparr>],
     mg_volumes = Map.empty\<rparr>\<rparr>"

definition ex_create :: "byte list list \<times> craft_tcp_server \<times> serve_end" where
  "ex_create = tcp_serve ex_env ex_known \<lparr>rv_rx = [], rv_io = one_piece (frame_bytes (create_frame (replicate 16 5) 4096 512 ex_members))\<rparr>"

theorem driver_creates_volume_witness:
  "py_create_volume True True (one_piece (concat (fst ex_create))) (replicate 16 5) 4096 512 ex_members = Some (Inr 0) \<and>
   get_volume (replicate 16 5) (ts_manager (fst (snd ex_create))) \<noteq> []"
proof -
  let ?eps = "map (\<lambda>m. \<lparr>ep_id = mb_id m, ep_addr = mb_addr m\<rparr>) ex_members"
  let ?mg = "snd (srv_create_volume (Inr ()) (replicate 16 5) ?eps (ts_manager ex_known))"
  have mg: "mg_volumes (ts_manager ex_known) = Map.empty" "mg_replicas (ts_manager ex_known) (replicate 16 1) \<noteq> None"
      "mg_replicas (ts_manager ex_known) (replicate 16 2) \<noteq> None" "ge_max_tx (ts_geo ex_known) = 4096"
    using ex_simps(3) by (simp_all add: ex_known_def)
  have c: "srv_create_volume (se_created (ex_env req s)) (replicate 16 5) ?eps (ts_manager ex_known) = (Inr (), ?mg)" for req s
    by (simp add: srv_create_volume_def mg get_volume_def ex_env_def)
  have wf: "\<forall>m \<in> set ex_members. wf_member m" "length ex_members = 2" "length (concat (map put_member ex_members)) = 42"
    by (simp_all add: ex_members_def wf_member_def put_member_def)
  have r: "py_create_request (replicate 16 5) (int 4096) (int 512) ex_members = Inr (frame_bytes (create_frame (replicate 16 5) 4096 512 ex_members))"
    using wf by (intro py_create_request_frame) simp_all
  have "py_create_volume True True (one_piece (concat (fst ex_create))) (replicate 16 5) (int 4096) (int 512) ex_members =
      Some (Inr (unat (status_code (create_status (Inr ()))))) \<and> fst (snd ex_create) = ex_known\<lparr>ts_manager := ?mg\<rparr> \<and> snd (snd ex_create) = Conn_waiting"
    by (rule driver_creates_volume [where env = ex_env and outs = "fst ex_create", OF _ _ _ wf(1) _ _ c r carries_one_piece])
      (simp_all add: wf mg carries_one_piece ex_create_def)
  then show ?thesis using mg by (auto simp add: ex_members_def create_status_def mg srv_create_volume_def get_volume_def register_volume_def)
qed

end
