(* ===== verification/Setup.thy ===== *)
theory Setup
  imports Cluster TcpReplica
begin

text \<open>
  The two ways a client gets its replicas: the in-process cluster with its fault knobs by index
  (\<open>src/local.cpp\<close>), and the proxies of a list of \<open>host:port\<close> endpoints (\<open>src/net/tcp_cluster.cpp\<close>).
\<close>

section \<open>The in-process cluster\<close>

text \<open>
  The replicas of the group are in the order of its members, so index \<open>i\<close> is the \<open>i\<close>-th member;
  an index past the end is undefined behaviour, \<open>None\<close>.
\<close>

definition local_set_replica_up :: "nat \<Rightarrow> bool \<Rightarrow> MemTransport \<Rightarrow> MemTransport option" where
  "local_set_replica_up i up t =
     (if i < length (mt_members t) then Some (on_replica (ep_id (mt_members t ! i)) (set_up up) t) else None)"

definition local_set_replica_delay :: "nat \<Rightarrow> int \<Rightarrow> MemTransport \<Rightarrow> MemTransport option" where
  "local_set_replica_delay i d t =
     (if i < length (mt_members t) then Some (on_replica (ep_id (mt_members t ! i)) (set_delay d) t) else None)"

definition local_force_subquorum :: "nat list \<Rightarrow> MemTransport \<Rightarrow> MemTransport" where
  "local_force_subquorum keep t =
     fold (\<lambda>i. on_replica (ep_id (mt_members t ! i)) (drop_writes (i \<notin> set keep))) [0..<length (mt_members t)] t"

definition local_clear_faults :: "MemTransport \<Rightarrow> MemTransport" where
  "local_clear_faults t = fold (\<lambda>i. on_replica (ep_id (mt_members t ! i)) clear_faults) [0..<length (mt_members t)] t"

section \<open>Endpoints\<close>

text \<open>\<open>rfind(':')\<close>.\<close>

fun rfind_colon :: "byte list \<Rightarrow> nat option" where
  "rfind_colon [] = None"
| "rfind_colon (c # cs) =
     (case rfind_colon cs of Some i \<Rightarrow> Some (Suc i) | None \<Rightarrow> if c = 58 then Some 0 else None)"

definition is_digit :: "byte \<Rightarrow> bool" where
  "is_digit c \<longleftrightarrow> 48 \<le> c \<and> c \<le> 57"

definition is_space :: "byte \<Rightarrow> bool" where
  "is_space c \<longleftrightarrow> c = 32 \<or> 9 \<le> c \<and> c \<le> 13"

definition digits_value :: "byte list \<Rightarrow> nat" where
  "digits_value ds = foldl (\<lambda>n c. 10 * n + unat (c - 48)) 0 ds"

text \<open>\<open>std::stoul\<close> in base ten: spaces, a sign, the digits; \<open>None\<close> throws (no digit, or out of range).\<close>

definition stoul :: "byte list \<Rightarrow> nat option" where
  "stoul cs =
     (let cs1 = dropWhile is_space cs;
          neg = (case cs1 of [] \<Rightarrow> False | c # _ \<Rightarrow> c = 45);
          cs2 = (case cs1 of [] \<Rightarrow> [] | c # r \<Rightarrow> if c = 45 \<or> c = 43 then r else cs1);
          ds = takeWhile is_digit cs2 in
      if ds = [] \<or> 2 ^ 64 \<le> digits_value ds then None
      else Some (if neg then sub64 0 (digits_value ds) else digits_value ds))"

text \<open>Without a colon \<open>npos + 1\<close> is 0: the host is the whole address, and so is the text of the port.\<close>

definition member_target :: "byte list \<Rightarrow> (byte list \<times> 16 word) option" where
  "member_target addr =
     (let (host, rest) = (case rfind_colon addr of None \<Rightarrow> (addr, addr) | Some i \<Rightarrow> (take i addr, drop (i + 1) addr)) in
      case stoul rest of None \<Rightarrow> None | Some n \<Rightarrow> Some (host, word_of_nat n))"

definition make_tcp_replica :: "peer_id \<Rightarrow> byte list \<Rightarrow> 'q tcp_replica" where
  "make_tcp_replica pid vol =
     \<lparr>tr_id = pid, tr_vol_id = vol, tr_conn = fresh_client, tr_connected = False, tr_bound = False, tr_bound_term = 0,
      tr_max_tx = k_default_max_tx, tr_lba = 0, tr_slots = [], tr_stop = False\<rparr>"

text \<open>\<open>None\<close>: a port did not parse, and the exception leaves the function.\<close>

fun make_tcp_cluster :: "byte list \<Rightarrow> replica_endpoint list \<Rightarrow> ((byte list \<times> 16 word) \<times> 'q tcp_replica) list option" where
  "make_tcp_cluster vol [] = Some []"
| "make_tcp_cluster vol (m # ms) =
     (case member_target (ep_addr m) of
        None \<Rightarrow> None
      | Some tgt \<Rightarrow> map_option (Cons (tgt, make_tcp_replica (ep_id m) vol)) (make_tcp_cluster vol ms))"

section \<open>The knobs by index are the knobs by id\<close>

lemma fold_knob_at:
  assumes "distinct (map ep_id (mt_members t))" "n \<le> length (mt_members t)" "i < length (mt_members t)"
  shows "replica_for (fold (\<lambda>j. on_replica (ep_id (mt_members t ! j)) (g j)) [0..<n] t) (ep_id (mt_members t ! i)) =
    map_option (\<lambda>r. if i < n then g i r else r) (replica_for t (ep_id (mt_members t ! i)))"
  using assms(2)
proof (induction n)
  case 0
  show ?case by (simp add: option.map_ident)
next
  case (Suc n)
  have "ep_id (mt_members t ! i) = ep_id (mt_members t ! n) \<longleftrightarrow> i = n"
    using assms(1,3) Suc.prems nth_eq_iff_index_eq [of "map ep_id (mt_members t)" i n] by simp
  then show ?case using Suc by (cases "replica_for t (ep_id (mt_members t ! i))") (auto simp: less_Suc_eq)
qed

lemma local_force_subquorum_writes:
  assumes "distinct (map ep_id (mt_members t))" "i < length (mt_members t)" "replica_for t (ep_id (mt_members t ! i)) \<noteq> None"
  shows "net_write_allowed (local_force_subquorum keep t) (ep_id (mt_members t ! i)) \<longleftrightarrow> i \<in> set keep"
  using assms fold_knob_at [OF assms(1) order_refl assms(2), of "\<lambda>i. drop_writes (i \<notin> set keep)"]
  by (auto simp: net_write_allowed_def local_force_subquorum_def drop_writes_def)

lemma local_clear_faults_clean:
  assumes "distinct (map ep_id (mt_members t))" "i < length (mt_members t)"
    "replica_for (local_clear_faults t) (ep_id (mt_members t ! i)) = Some r"
  shows "rp_faults r = no_faults"
  using assms fold_knob_at [OF assms(1) order_refl assms(2), of "\<lambda>i. clear_faults"]
  by (auto simp: local_clear_faults_def clear_faults_def)

section \<open>A printed endpoint is the endpoint\<close>

fun decimal :: "nat \<Rightarrow> byte list" where
  "decimal n = (if n < 10 then [word_of_nat (48 + n)] else decimal (n div 10) @ [word_of_nat (48 + n mod 10)])"

declare decimal.simps [simp del]

lemma digit_byte:
  assumes "d < 10"
  shows "is_digit (word_of_nat (48 + d))" "unat ((word_of_nat (48 + d) :: byte) - 48) = d" "(word_of_nat (48 + d) :: byte) \<noteq> 58"
    "\<not> is_space (word_of_nat (48 + d))" "(word_of_nat (48 + d) :: byte) \<noteq> 45" "(word_of_nat (48 + d) :: byte) \<noteq> 43"
proof -
  have "d \<in> {0, 1, 2, 3, 4, 5, 6, 7, 8, 9}" using assms by auto
  then show "is_digit (word_of_nat (48 + d))" "unat ((word_of_nat (48 + d) :: byte) - 48) = d" "(word_of_nat (48 + d) :: byte) \<noteq> 58"
    "\<not> is_space (word_of_nat (48 + d))" "(word_of_nat (48 + d) :: byte) \<noteq> 45" "(word_of_nat (48 + d) :: byte) \<noteq> 43"
    by (auto simp: is_digit_def is_space_def)
qed

lemma decimal_digits: "decimal n \<noteq> [] \<and> list_all is_digit (decimal n) \<and> digits_value (decimal n) = n"
proof (induction n rule: decimal.induct)
  case (1 n)
  show ?case
  proof (cases "n < 10")
    case True
    then show ?thesis using digit_byte [OF True] by (simp add: decimal.simps [of n] digits_value_def)
  next
    case False
    with 1 have "list_all is_digit (decimal (n div 10))" "digits_value (decimal (n div 10)) = n div 10" by blast+
    then show ?thesis
      using False digit_byte [of "n mod 10"] by (subst (1 2 3) decimal.simps) (simp add: digits_value_def)
  qed
qed

lemma digit_plain: "is_digit c \<Longrightarrow> c \<noteq> 58 \<and> \<not> is_space c \<and> c \<noteq> 45 \<and> c \<noteq> 43"
  by (auto simp: is_digit_def is_space_def word_le_nat_alt)

lemma stoul_decimal: "n < 2 ^ 64 \<Longrightarrow> stoul (decimal n) = Some n"
proof -
  assume n: "n < 2 ^ 64"
  obtain c cs where c: "decimal n = c # cs" using decimal_digits [of n] by (cases "decimal n") auto
  have d: "list_all is_digit (c # cs)" "digits_value (c # cs) = n" using decimal_digits [of n] c by simp_all
  then show ?thesis using n digit_plain [of c] unfolding c stoul_def
    by (simp add: Let_def list_all_iff takeWhile_eq_all_conv [THEN iffD2])
qed

lemma rfind_colon_last: "58 \<notin> set post \<Longrightarrow> rfind_colon (pre @ 58 # post) = Some (length pre)"
proof (induction pre)
  case Nil
  have "58 \<notin> set xs \<Longrightarrow> rfind_colon xs = None" for xs by (induction xs) auto
  with Nil show ?case by simp
qed simp

lemma member_target_printed:
  assumes "p < 2 ^ 16"
  shows "member_target (host @ 58 # decimal p) = Some (host, word_of_nat p)"
proof -
  have "58 \<notin> set (decimal p)" using decimal_digits [of p] digit_plain by (auto simp: list_all_iff)
  then show ?thesis using stoul_decimal [of p] assms by (simp add: member_target_def rfind_colon_last)
qed

text \<open>Every member gets its proxy, in order, unless an address does not parse.\<close>

lemma make_tcp_cluster_proxies:
  "make_tcp_cluster vol ms =
     (if \<exists>m \<in> set ms. member_target (ep_addr m) = None then None
      else Some (map (\<lambda>m. (the (member_target (ep_addr m)), make_tcp_replica (ep_id m) vol)) ms))"
proof (induction ms)
  case (Cons m ms)
  then show ?case by (cases "member_target (ep_addr m)") (simp_all del: not_None_eq not_Some_eq)
qed simp

text \<open>An address without a port is not refused: its leading digits are the port.\<close>

lemma member_target_no_port:
  "member_target [49, 50, 55, 46, 48, 46, 48, 46, 49] = Some ([49, 50, 55, 46, 48, 46, 48, 46, 49], 127)"
  by (simp add: member_target_def stoul_def is_space_def is_digit_def digits_value_def Let_def)

end
