(* ===== verification/Spec2Isabelle.thy ===== *)
theory Spec2Isabelle
  imports Client LogStore ClusterServer TestDriver Setup
begin

text \<open>
  A verification development of the CRAFT client library: a block device client that writes every
  block to a group of replicas, acknowledges at a quorum and reads from one member that is known to
  hold the data, with an in-memory reference replica, a RAFT-backed replica and a TCP transport.

  \<^bold>\<open>Parts of the program and how they interact.\<close> The client (\<open>src/client.cpp\<close>) takes a dLSN for each write
  from the tracker (\<open>src/dlsn_tracker.cpp\<close>), sends the write to all members, and resolves the slot from
  the answers. For a read it asks the tracker for a plan of segments with horizons and the route map
  (\<open>src/read_route_map.hpp\<close>) for an eligible member. A member is reached through the interface
  \<open>craft_replica\<close>: the in-memory replica (\<open>src/mem/replica.cpp\<close>) behind a modelled network
  (\<open>src/mem/cluster.cpp\<close>), or a proxy (\<open>src/net/tcp_replica.cpp\<close>) that frames the call
  (\<open>src/wire.cpp\<close>) and sends it to a server (\<open>src/net/tcp_server.cpp\<close>, \<open>src/net/cluster_server.cpp\<close>),
  which runs the same synchronous core. Behind the server the RAFT replica
  (\<open>src/raft/raft_replica.cpp\<close>) resolves slots by polling peers and committing messages to a log.

  \<^bold>\<open>Representation.\<close> Offsets of type \<open>uint64_t\<close> are naturals with the wrap-around written out (\<open>u64\<close>,
  \<open>sub64\<close>, \<open>u32\<close>); dLSNs are integers; the fields of wire structs are machine words; ids, strings and
  buffers are byte lists. \<open>std::expected\<close> is a sum with the error on the left. \<open>std::map\<close> is a sorted
  association list. A coroutine is cut at its suspension points, one definition per part, and what
  other threads do between the parts is a step relation or an argument. The results of the socket and
  of the ring are arguments: lists of completions, whose end means that the operation still waits.

  \<^bold>\<open>Theories.\<close>
  \<^item> \<open>Prelude\<close>: little-endian bytes, sorted association lists, word and list facts.
  \<^item> \<open>Types\<close>, \<open>Wire\<close>, \<open>PeerCodec\<close>: \<open>include/craft/types.hpp\<close>, \<open>status.hpp\<close>, \<open>wire.hpp\<close>, \<open>src/wire.cpp\<close>,
    \<open>src/peer_codec.cpp\<close>. Every struct meets the contract of the locale \<open>wire_struct\<close>; messages round-trip, a
    strict prefix is incomplete, the parser accepts only frames, CRC32C is the bitwise division with the published check value, a
    scatter plan stays in the buffer.
  \<^item> \<open>Replica\<close>, \<open>Cluster\<close>: \<open>src/mem/\<close>. Reads refine the highest version of each block, writes read back,
    the Empty verdict is permanent, stale terms are fenced. Two invariants: \<open>journal_inv\<close> (a complete
    journal, watermarks and index cells in bounds) holds of every reachable replica; \<open>replica_inv\<close> (also,
    the index is the replay of the committed prefix) needs that no write or verdict lands at or
    below the commit frontier, which the code does not enforce. A round of the leader brings the
    live journals to agreement above their common floor. In every set reachable by \<open>cluster_step\<close> an
    Empty verdict is backed by a quorum of tombstones, so data a quorum holds is never voided;
    deliveries, logins and rounds are single steps of that relation.
  \<^item> \<open>SlotStream\<close>, \<open>DlsnTracker\<close>, \<open>RouteMap\<close>, \<open>Client\<close>: the client side. Read plans expose no write that may
    not be durable, eligibility is sound with respect to durable slots and to what the members reported,
    the reclaim floor is the minimum of their reports, no wake-up is lost, the frontier is the resolved prefix, a
    write succeeds exactly at a quorum.
  \<^item> \<open>LogStore\<close>, \<open>Watchdog\<close>, \<open>RaftReplica\<close>: \<open>src/raft/\<close>, \<open>src/watchdog.cpp\<close>, \<open>src/replica_mgr.cpp\<close>. The log meets
    the locale \<open>raft_log\<close>; replay agrees with the leader; timers fire when due; resolution never voids
    a slot that a quorum holds.
  \<^item> \<open>Conn\<close>, \<open>Server\<close>, \<open>TcpServer\<close>, \<open>ClusterServer\<close>: \<open>src/net/conn.cpp\<close> and the servers. However the stream is
    cut, the loop over bytes is the loop over messages; both servers meet the locale \<open>frame_server\<close>.
  \<^item> \<open>WireClient\<close>, \<open>AsyncConn\<close>, \<open>TcpReplica\<close>, \<open>TcpPeer\<close>: the client end, blocking and on the ring. The
    receive pump hands each reply to the leg that awaits it.
  \<^item> \<open>Wired\<close>: the client end and the server joined. A write, a read and a peer fetch over the wire are the
    operation on the replica; replies are typed by their requests.
  \<^item> \<open>TestDriver\<close>: \<open>tools/craft_test_driver/craft_wire.py\<close> speaks the format the server parses.
  \<^item> \<open>Setup\<close>: \<open>src/local.cpp\<close>, \<open>src/net/tcp_cluster.cpp\<close>, how a client gets its replicas.
  \<^item> This theory: a write and a read through the proxy, end to end.

  \<^bold>\<open>Code that is not in the repository.\<close> The interval map and the slot window come from another library:
  they are arguments, and what the client relies on of them is a named hypothesis with a concrete
  instance. The consensus library, the JSON library and the ring are arguments in the same way.

  \<^bold>\<open>Bounds and termination.\<close> Recursion is structural or has a measure; there is no fuel. The two walks of
  the tracker that may not end on an arbitrary window are partial functions to an option, and are
  proved to return on every reachable tracker. A read over the wire is proved for at most 524288
  bytes and blocks of at least 512, the default transfer limit and the smallest block: within them a
  reply always fits the client's parser.

  \<^bold>\<open>Not modelled.\<close> System calls (connect, accept, the setup of the ring), threads and pools, option parsing and
  the process management of the test driver have no state of their own beyond handles. The state
  manager of the consensus group (\<open>src/raft/raft_state_manager.cpp\<close>) converts objects of one library
  that is not here to values of another. Counters and log lines that no decision reads are left out.
  The slicing of the destination buffer of a read into segments (\<open>src/client.cpp\<close>) is left out, and a leg
  the receive pump resumes does not run inside the pump's loop. The proofs over the wire are for the
  blocking path of a bound proxy. Atomic operations are sequentially consistent. Tests and build files are not part of the program.
\<close>

section \<open>A write and a read, end to end\<close>

lemma concat_pages: "concat (map (\<lambda>i. take ps (drop (i * ps) b)) [0..<n]) = take (n * ps) b"
proof (induction n)
  case (Suc n)
  have "take (Suc n * ps) b = take (n * ps) b @ take ps (drop (n * ps) b)" using take_add [of "n * ps" ps b] by (simp add: add.commute)
  then show ?case using Suc by simp
qed simp

lemma do_write_accepted:
  assumes "do_write hdr dlsn addr len (Some b) r = (Inr lsns, m)"
  shows "\<not> misaligned m addr len" "length b = len" "rp_page_size m = rp_page_size r" "rp_term m = ch_term hdr"
    "rp_journal m = om_put dlsn \<lparr>sl_term = ch_term hdr, sl_lba = addr div rp_page_size r, sl_len = u32 (len div rp_page_size r),
       sl_all_zeros = False, sl_is_empty = False, sl_bytes = Some b\<rparr> (rp_journal r)"
  using assms by (auto simp: do_write_def misaligned_def Let_def split: if_splits option.splits)

text \<open>A read of the range of the newest write returns its bytes.\<close>

lemma do_read_after_write:
  assumes "replica_inv r" "do_write hdr dlsn addr len (Some b) r = (Inr lsns, m)" "rp_commit_lsn r < dlsn" "dlsn \<le> H"
    and "\<forall>e \<in> set (rp_journal r). fst e \<le> dlsn" and "len div rp_page_size r < 2 ^ 32" "addr + len < 2 ^ 64"
    and "ch_term hdr2 = ch_term hdr" "sg_iovs dest = [v]" "sg_size dest = length v" "len \<le> length v"
  obtains rr bufs m2 where "do_read hdr2 H addr len dest m = (Inr rr, bufs, m2)" "concat bufs = b @ drop len v"
proof -
  note w = do_write_accepted [OF assms(2)]
  let ?ps = "rp_page_size r"
  have n: "len div ?ps * ?ps = len" using w(1,3) by (auto simp: misaligned_def)
  have inv: "replica_inv m" using do_write_inv [OF assms(1,3), of addr hdr len "Some b"] assms(2,7) by simp
  have a: "addr < 2 ^ 64" using assms(7) by linarith
  obtain rr iovs r' where rd: "do_read hdr2 H addr len dest m = (Inr rr, iovs, r')"
    "concat iovs = concat (map (\<lambda>i. block_value (rp_page_size m) (rp_journal m) (max H (rp_commit_lsn r')) (addr div rp_page_size m + i))
           [0..<len div rp_page_size m]) @ drop len (concat (sg_iovs dest))"
    by (rule do_read_spec [OF inv w(1), of hdr2 dest H]) (use assms w in simp_all)
  have page: "block_value ?ps (rp_journal m) (max H (rp_commit_lsn r')) (addr div ?ps + i) = take ?ps (drop (i * ?ps) b)"
    if "i < len div ?ps" for i
    using written_block [OF assms(1,2,6,3) a _ that, of "max H (rp_commit_lsn r')"] assms(4,5) w(3) by fastforce
  have "map (\<lambda>i. block_value ?ps (rp_journal m) (max H (rp_commit_lsn r')) (addr div ?ps + i)) [0..<len div ?ps] =
      map (\<lambda>i. take ?ps (drop (i * ?ps) b)) [0..<len div ?ps]"
    by (rule map_cong [OF refl], rule page) simp
  with rd(2) [unfolded w(3)] have "concat iovs = concat (map (\<lambda>i. take ?ps (drop (i * ?ps) b)) [0..<len div ?ps]) @ drop len v"
    unfolding assms(9) by (simp only: concat.simps append_Nil2)
  then have "concat iovs = b @ drop len v" using concat_pages [of ?ps b "len div ?ps"] n w(2) by simp
  with rd(1) show thesis by (rule that)
qed

text \<open>C9: End to end over the network. A client writes a range through its proxy and the write is
  accepted; a read of the range through the same proxy, at a horizon that reaches the write and with
  no later write in the journal, returns exactly the written bytes in the caller's buffer, however the
  sockets cut the four messages.\<close>

theorem wire_write_read_back:
  assumes session: "ts_session_active s" "ts_session_term s = ch_term hdr" "proxy_bound r (ch_term hdr)" "ch_term hdr2 = ch_term hdr"
    and args: "io_args_ok hdr dlsn addr len" "io_args_ok hdr2 H addr len" "addr + len < 2 ^ 64" "len \<le> 524288"
    and server: "replica_inv (ts_mem s)" "512 \<le> rp_page_size (ts_mem s)" "length b \<le> unat (ge_max_tx (ts_geo s))"
    and newest: "rp_commit_lsn (ts_mem s) < dlsn" "\<forall>e \<in> set (rp_journal (ts_mem s)). fst e \<le> dlsn" "dlsn \<le> H"
    and accepted: "write_payload data = b" "b \<noteq> []" "do_write hdr dlsn addr len (Some b) (ts_mem s) = (Inr lsns, m)"
    and dest: "sg_iovs dest = [v]" "sg_size dest = length v" "len \<le> length v"
    and marks: "lsns_ok (peek_lsns m)" "lsns_ok (peek_lsns (snd (snd (do_read hdr2 H addr len dest m))))"
    and write_net: "sends_all (fst (oi_op io)) (frame_bytes (write_request r hdr dlsn addr len data))"
      "carries (frame_bytes (write_request r hdr dlsn addr len data)) sio"
      "tcp_serve env s \<lparr>rv_rx = [], rv_io = sio\<rparr> = (outs, s1, fin)" "carries (concat outs) (snd (oi_op io))"
    and read_net: "se_alloc (env (frame_msg (read_request (next_call r) hdr2 H addr len)) s1) len"
      "sends_all (fst (oi_op io2)) (frame_bytes (read_request (next_call r) hdr2 H addr len))"
      "carries (frame_bytes (read_request (next_call r) hdr2 H addr len)) sio2"
      "tcp_serve env s1 \<lparr>rv_rx = [], rv_io = sio2\<rparr> = (outs2, s2, fin2)" "carries (concat outs2) (snd (oi_op io2))"
  shows "tcp_write None io hdr dlsn addr len data r = (Some (Inr lsns), next_call r) \<and>
     (\<exists>rr bufs. tcp_read None io2 hdr2 H addr len dest (next_call r) = (Some (Inr rr, bufs), next_call (next_call r)) \<and>
        concat bufs = b @ drop len v)"
proof -
  have w: "tcp_write None io hdr dlsn addr len data r = (Some (Inr lsns), next_call r) \<and> s1 = with_mem m s \<and> fin = Conn_waiting"
    using accepted by (intro write_over_wire [OF session(1-3) args(1) _ _ marks(1) write_net]) (simp_all add: body_bytes_def server(3))
  then have s1: "ts_mem s1 = m" "ts_session_active s1" "ts_session_term s1 = ch_term hdr2"
    using session by (auto simp: with_mem_def ts_mem_def)
  have ps: "rp_page_size m = rp_page_size (ts_mem s)" by (rule do_write_accepted(3) [OF accepted(3)])
  have inv: "replica_inv (ts_mem s1)"
    using do_write_inv [OF server(1) newest(1), of addr hdr len "Some b"] accepted(3) args(1) s1(1) by (simp add: io_args_ok_def)
  have "len div rp_page_size (ts_mem s) < 2 ^ 32" by (rule le_less_trans [OF div_le_dividend]) (use args(4) in simp)
  then obtain rr bufs m2 where rd: "do_read hdr2 H addr len dest m = (Inr rr, bufs, m2)" "concat bufs = b @ drop len v"
    using do_read_after_write [OF server(1) accepted(3) newest(1,3,2) _ args(3) session(4) dest] by blast
  have "tcp_read None io2 hdr2 H addr len dest (next_call r) = (Some (Inr rr, bufs), next_call (next_call r)) \<and> s2 = with_mem m2 s1 \<and> fin2 = Conn_waiting"
    using session(3,4) rd(1) marks(2) server(2) s1 ps
    by (intro read_over_wire [OF s1(2,3) _ args(2) inv args(3,4) _ dest _ _ read_net]) (simp_all add: proxy_bound_next)
  then show ?thesis using w rd(2) by blast
qed

definition ex_read2 :: frame where
  "ex_read2 = read_request (next_call ex_proxy) ex_hdr 0 1024 512"

definition ex_serve2 :: "byte list list \<times> craft_tcp_server \<times> serve_end" where
  "ex_serve2 = tcp_serve ex_env (fst (snd (ex_serve ex_write))) \<lparr>rv_rx = [], rv_io = one_piece (frame_bytes ex_read2)\<rparr>"

definition ex_io2 :: op_io where
  "ex_io2 = (ex_io ex_read2)\<lparr>oi_op := (replicate 2000 1, one_piece (concat (fst ex_serve2)))\<rparr>"

theorem wire_write_read_back_witness:
  "\<exists>rr bufs. fst (tcp_read None ex_io2 ex_hdr 0 1024 512 \<lparr>sg_size = 512, sg_iovs = [replicate 512 1]\<rparr> (next_call ex_proxy)) =
     Some (Inr rr, bufs) \<and> concat bufs = replicate 512 7"
proof -
  let ?data = "\<lparr>sg_size = 512, sg_iovs = [replicate 512 (7 :: byte)]\<rparr>" and ?dest = "\<lparr>sg_size = 512, sg_iovs = [replicate 512 (1 :: byte)]\<rparr>"
  let ?w = "do_write ex_hdr 0 1024 512 (Some (replicate 512 7)) (ts_mem ex_server)"
  have mem: "rp_page_size (ts_mem ex_server) = 512" "rp_commit_lsn (ts_mem ex_server) = -1" "rp_journal (ts_mem ex_server) = []"
    by (simp_all add: ex_simps cold_apply_login_def make_replica_def)
  have res: "fst ?w = Inr \<lparr>lp_commit_lsn = -1, lp_last_append_lsn = 0\<rparr>" "peek_lsns (snd ?w) = \<lparr>lp_commit_lsn = -1, lp_last_append_lsn = 0\<rparr>"
    "rp_term (snd ?w) = 1" "rp_page_size (snd ?w) = 512" "rp_commit_lsn (snd ?w) = -1" "rp_last_append_lsn (snd ?w) = 0"
    by (simp_all add: do_write_def ex_simps cold_apply_login_def make_replica_def misaligned_def Let_def apply_up_to_stop peek_lsns_def)
  have acc: "?w = (Inr \<lparr>lp_commit_lsn = -1, lp_last_append_lsn = 0\<rparr>, snd ?w)" using res(1) by (metis prod.collapse)
  have marks: "peek_lsns (snd (snd (do_read ex_hdr 0 1024 512 ?dest (snd ?w)))) = \<lparr>lp_commit_lsn = -1, lp_last_append_lsn = 0\<rparr>"
    using res(3-6) by (simp add: do_read_def misaligned_def split_beta Let_def ex_simps apply_up_to_stop peek_lsns_def)
  have "tcp_write None (ex_io ex_write) ex_hdr 0 1024 512 ?data ex_proxy = (Some (Inr \<lparr>lp_commit_lsn = -1, lp_last_append_lsn = 0\<rparr>), next_call ex_proxy) \<and>
     (\<exists>rr bufs. tcp_read None ex_io2 ex_hdr 0 1024 512 ?dest (next_call ex_proxy) = (Some (Inr rr, bufs), next_call (next_call ex_proxy)) \<and>
        concat bufs = replicate 512 7 @ drop 512 (replicate 512 1))"
  proof (rule wire_write_read_back [where env = ex_env and s = ex_server and b = "replicate 512 7" and m = "snd ?w" and ?s1.0 = "fst (snd (ex_serve ex_write))"
        and sio = "one_piece (frame_bytes ex_write)" and outs = "fst (ex_serve ex_write)" and fin = "snd (snd (ex_serve ex_write))"
        and ?sio2.0 = "one_piece (frame_bytes ex_read2)" and ?outs2.0 = "fst ex_serve2" and ?s2.0 = "fst (snd ex_serve2)"
        and ?fin2.0 = "snd (snd ex_serve2)"])
    show "sends_all (fst (oi_op (ex_io ex_write))) (frame_bytes (write_request ex_proxy ex_hdr 0 1024 512 ?data))"
      by (rule ex_sends) (simp add: frame_bytes_length write_request_def write_payload_def)
    show "sends_all (fst (oi_op ex_io2)) (frame_bytes (read_request (next_call ex_proxy) ex_hdr 0 1024 512))"
      using ex_sends [of "read_request (next_call ex_proxy) ex_hdr 0 1024 512" ex_read2]
      by (simp add: frame_bytes_length read_request_def ex_io2_def ex_io_op)
    show "?w = (Inr \<lparr>lp_commit_lsn = -1, lp_last_append_lsn = 0\<rparr>, snd ?w)" by (rule acc)
    show "lsns_ok (peek_lsns (snd ?w))" "lsns_ok (peek_lsns (snd (snd (do_read ex_hdr 0 1024 512 ?dest (snd ?w)))))"
      using res(2) marks by (simp_all add: lsns_ok_def i64_ok_def)
    show "replica_inv (ts_mem ex_server)" by (rule ex_inv)
    show "write_payload ?data = replicate 512 7" by (simp add: write_payload_def)
    show "se_alloc (ex_env (frame_msg (read_request (next_call ex_proxy) ex_hdr 0 1024 512)) (fst (snd (ex_serve ex_write)))) 512"
      by (simp add: ex_env_def)
  qed (simp_all add: mem ex_simps(1-3,5-8) ex_args ex_write_def [symmetric] ex_read2_def [symmetric] carries_one_piece ex_serve_parts ex_io_op ex_serve2_def ex_io2_def)
  then show ?thesis by auto
qed

end
